(* ===== verification/Prelude.thy ===== *)
theory Prelude
  imports Main "HOL-Library.Word" "HOL-Library.Monad_Syntax"
begin

text \<open>
  Shared vocabulary of the development: the machine integer types of the C sources, checked
  reads from a byte buffer, the decimal and hexadecimal conversions of \<open>printf\<close> that the
  decoders use, and the generic list lemmas that several components need.
\<close>

unbundle bit_operations_syntax

type_synonym u8 = "8 word"
type_synonym i8 = "8 word"
type_synonym u16 = "16 word"
type_synonym u32 = "32 word"
type_synonym u64 = "64 word"

named_theorems byte_simps
named_theorems wf_intros

section \<open>Reading bytes\<close>

text \<open>
  A read of \<open>buf[i]\<close> for a \<open>uint8_t\<close> buffer: the byte promoted to \<open>int\<close>.  Out of the
  buffer the C program has undefined behaviour, here \<^const>\<open>None\<close>.
\<close>

definition rd :: "u8 list \<Rightarrow> int \<Rightarrow> int option" where
  "rd buf i = (if 0 \<le> i \<and> i < int (length buf) then Some (uint (buf ! nat i)) else None)"

text \<open>The bytes \<open>buf[i .. i+n)\<close> that a \<open>memcpy\<close> reads; \<open>n = 0\<close> reads nothing.\<close>

definition rd_block :: "u8 list \<Rightarrow> int \<Rightarrow> int \<Rightarrow> u8 list option" where
  "rd_block buf i n =
     (if n \<le> 0 then Some []
      else if 0 \<le> i \<and> i + n \<le> int (length buf)
      then Some (take (nat n) (drop (nat i) buf)) else None)"

lemma rd_Some [byte_simps]:
  "0 \<le> i \<Longrightarrow> i < int (length buf) \<Longrightarrow> rd buf i = Some (uint (buf ! nat i))"
  by (simp add: rd_def)

lemma rd_None [byte_simps]: "i < 0 \<or> int (length buf) \<le> i \<Longrightarrow> rd buf i = None"
  by (auto simp: rd_def)

lemma rd_range: "rd buf i = Some v \<Longrightarrow> 0 \<le> v \<and> v < 256"
  using uint_lt2p [where 'a = 8] by (auto simp: rd_def split: if_splits)

lemma rd_eq_None_iff: "rd buf i = None \<longleftrightarrow> i < 0 \<or> int (length buf) \<le> i"
  by (auto simp: rd_def)

lemma rd_block_Some [byte_simps]:
  "0 \<le> i \<Longrightarrow> i + n \<le> int (length buf) \<Longrightarrow>
   rd_block buf i n = Some (take (nat n) (drop (nat i) buf))"
  by (simp add: rd_block_def)

lemma rd_block_length: "rd_block buf i n = Some bs \<Longrightarrow> length bs = nat n"
  by (auto simp: rd_block_def split: if_splits)

section \<open>Characters and number formatting\<close>

definition byte_char :: "u8 \<Rightarrow> char" where
  "byte_char b = char_of (unat b)"

definition digit_char :: "nat \<Rightarrow> char" where
  "digit_char d = ''0123456789ABCDEF'' ! d"

text \<open>\<open>%d\<close> for a non-negative and for any \<open>int\<close>.\<close>

fun nat_str :: "nat \<Rightarrow> string" where
  "nat_str n = (if n < 10 then [digit_char n] else nat_str (n div 10) @ [digit_char (n mod 10)])"

declare nat_str.simps [simp del]

definition int_str :: "int \<Rightarrow> string" where
  "int_str i = (if i < 0 then CHR ''-'' # nat_str (nat (- i)) else nat_str (nat i))"

text \<open>\<open>%0wd\<close> for a non-negative number.\<close>

definition pad_str :: "nat \<Rightarrow> int \<Rightarrow> string" where
  "pad_str w i = (let s = nat_str (nat i) in replicate (w - length s) (CHR ''0'') @ s)"

text \<open>\<open>%0wX\<close> for an unsigned number: at least \<open>w\<close> digits.\<close>

fun hex_str :: "nat \<Rightarrow> string" where
  "hex_str n = (if n < 16 then [digit_char n] else hex_str (n div 16) @ [digit_char (n mod 16)])"

declare hex_str.simps [simp del]

definition hex_pad :: "nat \<Rightarrow> nat \<Rightarrow> string" where
  "hex_pad w n = (let s = hex_str n in replicate (w - length s) (CHR ''0'') @ s)"

text \<open>
  \<open>%.4f\<close> of a number given in ten-thousandths.  The frequencies of the program are of the form
  \<open>(n - k) * 0.0025 + b\<close> with 16-bit \<open>n\<close>, which have exactly four decimals.
\<close>

definition fix4_str :: "int \<Rightarrow> string" where
  "fix4_str k = int_str (k div 10000) @ ''.'' @ pad_str 4 (k mod 10000)"

text \<open>\<open>snprintf(buf, size, ...)\<close> keeps at most \<open>size - 1\<close> characters.\<close>

definition snprintf :: "nat \<Rightarrow> string \<Rightarrow> string" where
  "snprintf n s = take (n - 1) s"

lemma snprintf_length [simp]: "length (snprintf n s) = min (length s) (n - 1)"
  by (simp add: snprintf_def)

lemma snprintf_fits: "length s < n \<Longrightarrow> snprintf n s = s"
  by (simp add: snprintf_def)

lemma nat_str_nonempty [simp]: "nat_str n \<noteq> []"
  by (subst nat_str.simps) simp

lemma nat_str_length:
  "n < 10 ^ k \<Longrightarrow> 0 < k \<Longrightarrow> length (nat_str n) \<le> k"
proof (induction n arbitrary: k rule: nat_str.induct)
  case (1 n)
  show ?case
  proof (cases "n < 10")
    case True
    with "1.prems" show ?thesis by (subst nat_str.simps) simp
  next
    case False
    with "1.prems" obtain j where k: "k = Suc j" and j: "0 < j"
      by (cases k; cases "k = 1") auto
    have "n div 10 < 10 ^ j" using "1.prems" k by (simp add: less_mult_imp_div_less)
    with "1.IH" [OF False _ j] have "length (nat_str (n div 10)) \<le> j" .
    then show ?thesis using False k by (subst nat_str.simps) simp
  qed
qed

section \<open>Lists\<close>

lemma fold_cong_set:
  "xs = ys \<Longrightarrow> a = b \<Longrightarrow> (\<And>x s. x \<in> set ys \<Longrightarrow> f x s = g x s) \<Longrightarrow> fold f xs a = fold g ys b"
  by (induction ys arbitrary: xs a b) auto

lemma fold_invariant:
  assumes "I s" and "\<And>x s. x \<in> set xs \<Longrightarrow> I s \<Longrightarrow> I (f x s)"
  shows "I (fold f xs s)"
  using assms by (induction xs arbitrary: s) auto

lemma fold_upt_invariant:
  assumes "I (0::nat) s" and "\<And>k s. k < n \<Longrightarrow> I k s \<Longrightarrow> I (Suc k) (f k s)"
  shows "I n (fold f [0..<n] s)"
  using assms by (induction n) auto

lemma length_fold_update:
  "(\<And>x s. length (f x s) = length s) \<Longrightarrow> length (fold f xs s) = length s"
  by (induction xs arbitrary: s) auto

lemma sum_list_map_le:
  fixes f :: "'a \<Rightarrow> nat"
  shows "(\<And>x. x \<in> set xs \<Longrightarrow> f x \<le> g x) \<Longrightarrow> sum_list (map f xs) \<le> sum_list (map g xs)"
  by (rule sum_list_mono)

lemma concat_map_length_const:
  "(\<And>x. x \<in> set xs \<Longrightarrow> length (f x) = k) \<Longrightarrow> length (concat (map f xs)) = k * length xs"
  by (induction xs) auto

lemma nth_concat_const:
  assumes "\<And>x. x \<in> set xss \<Longrightarrow> length x = k" and "i < length xss" and "j < k"
  shows "concat xss ! (i * k + j) = xss ! i ! j"
  using assms
proof (induction xss arbitrary: i)
  case Nil
  then show ?case by simp
next
  case (Cons x xs)
  have lx: "length x = k" using Cons.prems by simp
  show ?case
  proof (cases i)
    case 0
    with lx Cons.prems show ?thesis by (simp add: nth_append)
  next
    case (Suc i')
    with Cons.prems have "concat xs ! (i' * k + j) = xs ! i' ! j"
      by (intro Cons.IH) auto
    with Suc lx show ?thesis by (simp add: nth_append add.assoc)
  qed
qed

lemma less_mult_index: "i < (m::nat) \<Longrightarrow> j < k \<Longrightarrow> i * k + j < m * k"
proof -
  assume "i < m" "j < k"
  then have "i * k + j < i * k + k" by simp
  also have "\<dots> = Suc i * k" by simp
  also have "\<dots> \<le> m * k" using \<open>i < m\<close> by (intro mult_le_mono1) simp
  finally show ?thesis .
qed

end
