(* ===== verification/Float32.thy ===== *)
theory Float32
  imports Prelude Complex_Main "HOL-Library.Log_Nat"
begin

text \<open>
  The \<open>float\<close> arithmetic of the sources: a value is the rational number it denotes, an operation is the exact
  one followed by rounding to binary32 (24 significant bits, ties to even, gradual underflow).  Values beyond the
  range of binary32 stay finite here; the code clamps them at once.
\<close>

definition pow2 :: "int \<Rightarrow> rat" where
  "pow2 k = (if 0 \<le> k then 2 ^ nat k else 1 / 2 ^ nat (- k))"

text \<open>\<open>exponent32 x\<close> is the \<open>n\<close> with \<open>2^n \<le> x < 2^(n+1)\<close>, for positive \<open>x\<close>.\<close>

definition exponent32 :: "rat \<Rightarrow> int" where
  "exponent32 x =
     (let (p, q) = quotient_of x; n = bitlen p - bitlen q in if x < pow2 n then n - 1 else n)"

definition round_even :: "rat \<Rightarrow> int" where
  "round_even y =
     (let f = \<lfloor>y\<rfloor>; r = y - of_int f
      in if r < 1 / 2 then f else if 1 / 2 < r then f + 1 else if even f then f else f + 1)"

definition round32 :: "rat \<Rightarrow> rat" where
  "round32 x =
     (if x = 0 then 0
      else let a = \<bar>x\<bar>; k = max (exponent32 a - 23) (- 149);
               m = of_int (round_even (a / pow2 k)) * pow2 k
           in if x < 0 then - m else m)"

text \<open>The conversion of a \<open>float\<close> to an integer type drops the fraction.\<close>

definition trunc :: "rat \<Rightarrow> int" where
  "trunc v = (if 0 \<le> v then \<lfloor>v\<rfloor> else \<lceil>v\<rceil>)"

lemma pow2_pos: "0 < pow2 k"
  by (simp add: pow2_def)

lemma round_even_nonneg: "0 \<le> y \<Longrightarrow> 0 \<le> round_even y"
  by (simp add: round_even_def Let_def)

lemma round32_zero [simp]: "round32 0 = 0"
  by (simp add: round32_def)

lemma round32_nonneg: "0 \<le> x \<Longrightarrow> 0 \<le> round32 x"
  using round_even_nonneg pow2_pos by (auto simp: round32_def Let_def less_imp_le)

lemma trunc_range: "a \<le> v \<Longrightarrow> v \<le> b \<Longrightarrow> a = of_int m \<Longrightarrow> b = of_int n \<Longrightarrow> m \<le> trunc v \<and> trunc v \<le> n"
  unfolding trunc_def by (auto simp: le_floor_iff floor_le_iff ceiling_le_iff le_ceiling_iff)

end
