(* ===== verification/Float64.thy ===== *)
theory Float64
  imports Float32
begin

text \<open>
  The \<open>double\<close> arithmetic of the sources: exact rational operations followed by rounding to binary64 (53
  significant bits, ties to even, gradual underflow), and how far a rounded value can be from the exact one.
\<close>

definition round64 :: "rat \<Rightarrow> rat" where
  "round64 x =
     (if x = 0 then 0
      else let a = \<bar>x\<bar>; k = max (exponent32 a - 52) (- 1074);
               m = of_int (round_even (a / pow2 k)) * pow2 k
           in if x < 0 then - m else m)"

lemma pow2_0 [simp]: "pow2 0 = 1"
  by (simp add: pow2_def)

lemma pow2_power_int: "pow2 k = 2 powi k"
  by (simp add: pow2_def power_int_def field_simps)

lemma pow2_add: "pow2 (a + b) = pow2 a * pow2 b"
  by (simp add: pow2_power_int power_int_add)

lemma pow2_mono: "a \<le> b \<Longrightarrow> pow2 a \<le> pow2 b"
  by (simp add: pow2_power_int power_int_increasing)

lemma pow2_less: "pow2 a < pow2 b \<Longrightarrow> a < b"
  using pow2_mono [of b a] by (cases "a < b") auto

lemma round_even_error: "\<bar>of_int (round_even y) - y\<bar> \<le> 1 / 2"
proof -
  have "of_int \<lfloor>y\<rfloor> \<le> y" "y < of_int \<lfloor>y\<rfloor> + 1" using floor_correct [of y] by simp_all
  then show ?thesis unfolding round_even_def Let_def by (simp add: abs_le_iff)
qed

lemma exponent_below:
  assumes "0 < a"
  shows "pow2 (exponent32 a) \<le> a"
proof -
  obtain p q where pq: "quotient_of a = (p, q)" by fastforce
  have q: "0 < q" by (rule quotient_of_denom_pos [OF pq])
  have a: "a = of_int p / of_int q" by (rule quotient_of_div [OF pq])
  then have p: "0 < p" using assms q by (simp add: zero_less_divide_iff)
  let ?n = "bitlen p - bitlen q"
  have "of_int p \<ge> (2 :: rat) ^ nat (bitlen p - 1)"
    using bitlen_bounds [OF p] by (metis of_int_le_iff of_int_numeral of_int_power)
  moreover have "of_int q < (2 :: rat) ^ nat (bitlen q)"
    using bitlen_bounds [OF q] by (metis of_int_less_iff of_int_numeral of_int_power)
  moreover have "0 < bitlen p" "0 \<le> bitlen q"
  proof -
    have "0 \<le> log 2 (real_of_int p)" using p by simp
    then have f: "0 \<le> \<lfloor>log 2 (real_of_int p)\<rfloor>" by simp
    have "bitlen p = 1 + \<lfloor>log 2 (real_of_int p)\<rfloor>" using p f by (simp add: bitlen_def floorlog_def)
    with f show "0 < bitlen p" by linarith
    show "0 \<le> bitlen q" by (rule bitlen_nonneg)
  qed
  ultimately have b: "pow2 (bitlen p - 1) \<le> of_int p" "of_int q < pow2 (bitlen q)" by (simp_all add: pow2_def)
  have "pow2 (?n - 1) * of_int q \<le> pow2 (?n - 1) * pow2 (bitlen q)"
    using b(2) pow2_pos [of "?n - 1"] by (simp add: less_imp_le)
  also have "\<dots> = pow2 (bitlen p - 1)" by (simp add: pow2_add [symmetric])
  also note b(1)
  finally have "pow2 (?n - 1) \<le> a" using q by (simp add: a field_simps)
  then show ?thesis by (simp add: exponent32_def pq Let_def)
qed

lemma round64_error:
  assumes "0 \<le> x" and "x < pow2 n" and "- 1000 \<le> n"
  shows "\<bar>round64 x - x\<bar> \<le> pow2 (n - 54)"
proof (cases "x = 0")
  case False
  with assms have x: "0 < x" by simp
  define k where "k = max (exponent32 x - 52) (- 1074)"
  have "exponent32 x < n"
    using exponent_below [OF x] assms(2) by (intro pow2_less) (rule order.strict_trans1)
  then have k: "k \<le> n - 53" using assms(3) by (simp add: k_def)
  have "round64 x - x = (of_int (round_even (x / pow2 k)) - x / pow2 k) * pow2 k"
    using x pow2_pos [of k] by (simp add: round64_def Let_def k_def field_simps)
  then have "\<bar>round64 x - x\<bar> = \<bar>of_int (round_even (x / pow2 k)) - x / pow2 k\<bar> * pow2 k"
    using pow2_pos [of k] by (simp add: abs_mult)
  also have "\<dots> \<le> 1 / 2 * pow2 k"
    by (rule mult_right_mono [OF round_even_error]) (use pow2_pos in \<open>simp add: less_imp_le\<close>)
  also have "\<dots> \<le> 1 / 2 * pow2 (n - 53)" using pow2_mono [OF k] by simp
  also have "\<dots> = pow2 (n - 54)" using pow2_add [of "- 1" "n - 53"] by (simp add: pow2_def [of "- 1"])
  finally show ?thesis .
qed (use pow2_pos in \<open>simp add: round64_def less_imp_le\<close>)

lemma round64_zero [simp]: "round64 0 = 0"
  by (simp add: round64_def)

lemma round64_nonneg: "0 \<le> x \<Longrightarrow> 0 \<le> round64 x"
  using round_even_nonneg pow2_pos by (auto simp: round64_def Let_def less_imp_le)

lemma round64_minus: "round64 (- x) = - round64 x"
  by (simp add: round64_def Let_def)

end
