(* ===== verification/CStrings.thy ===== *)
theory CStrings
  imports Prelude Float64 "HOL-Library.List_Lexorder" "HOL-Library.Char_ord" "HOL-Library.Multiset"
begin

text \<open>
  The parts of the C library that the text decoders and the databases use, on strings without their
  terminating NUL: a pointer into a string is the suffix it points to, and reading the terminator gives NUL.
  The sources read \<open>p[k]\<close> only after finding that \<open>p[0] .. p[k-1]\<close> are not NUL, so a suffix and its length
  never run out.
\<close>

section \<open>Characters\<close>

definition NUL :: char where "NUL = CHR 0x00"

definition deref :: "string \<Rightarrow> nat \<Rightarrow> char" where
  "deref p k = (if k < length p then p ! k else NUL)"

definition is_digit :: "char \<Rightarrow> bool" where
  "is_digit c \<longleftrightarrow> CHR ''0'' \<le> c \<and> c \<le> CHR ''9''"

definition is_upper :: "char \<Rightarrow> bool" where
  "is_upper c \<longleftrightarrow> CHR ''A'' \<le> c \<and> c \<le> CHR ''Z''"

definition digit_val :: "char \<Rightarrow> nat" where
  "digit_val c = of_char c - 48"

definition toupper_c :: "char \<Rightarrow> char" where
  "toupper_c c = (if CHR ''a'' \<le> c \<and> c \<le> CHR ''z'' then char_of (of_char c - 32 :: nat) else c)"

definition is_space :: "char \<Rightarrow> bool" where
  "is_space c \<longleftrightarrow> c \<in> {CHR '' '', CHR 0x09, CHR 0x0A, CHR 0x0B, CHR 0x0C, CHR 0x0D}"

section \<open>String functions\<close>

definition c_str :: "string \<Rightarrow> string" where
  "c_str buf = takeWhile (\<lambda>c. c \<noteq> NUL) buf"

text \<open>\<open>strcmp\<close>: the sign of the first difference, as unsigned characters.\<close>

fun strcmp :: "string \<Rightarrow> string \<Rightarrow> int" where
  "strcmp [] [] = 0"
| "strcmp [] (c # b) = - 1"
| "strcmp (c # a) [] = 1"
| "strcmp (c # a) (d # b) = (if c = d then strcmp a b else if c < d then - 1 else 1)"

definition starts :: "string \<Rightarrow> string \<Rightarrow> bool" where
  "starts prefix s \<longleftrightarrow> take (length prefix) s = prefix"

fun strstr :: "string \<Rightarrow> string \<Rightarrow> string option" where
  "strstr [] needle = (if needle = [] then Some [] else None)"
| "strstr (c # s) needle = (if starts needle (c # s) then Some (c # s) else strstr s needle)"

text \<open>\<open>strchr(s, c)\<close> for a character other than NUL: what precedes the first \<open>c\<close>, and what follows it.\<close>

definition split_at :: "char \<Rightarrow> string \<Rightarrow> (string \<times> string) option" where
  "split_at c s = (if c \<in> set s then Some (takeWhile (\<lambda>d. d \<noteq> c) s, tl (dropWhile (\<lambda>d. d \<noteq> c) s)) else None)"

definition digits_val :: "string \<Rightarrow> nat" where
  "digits_val s = foldl (\<lambda>n c. n * 10 + digit_val c) 0 s"

section \<open>Numbers\<close>

text \<open>The values of a \<open>double\<close>; the sign of a zero is not kept.\<close>

datatype dbl = Fin rat | Infinite bool | NaN

definition to_double :: "rat \<Rightarrow> dbl" where
  "to_double x = (let r = round64 x in if 2 ^ 1024 \<le> \<bar>r\<bar> then Infinite (r < 0) else Fin r)"

definition hex_val :: "char \<Rightarrow> nat option" where
  "hex_val c = (if is_digit c then Some (digit_val c)
     else if CHR ''A'' \<le> c \<and> c \<le> CHR ''F'' then Some (of_char c - 55)
     else if CHR ''a'' \<le> c \<and> c \<le> CHR ''f'' then Some (of_char c - 87) else None)"

definition is_hex :: "char \<Rightarrow> bool" where
  "is_hex c \<longleftrightarrow> hex_val c \<noteq> None"

text \<open>An optional sign.\<close>

definition scan_sign :: "string \<Rightarrow> bool \<times> string" where
  "scan_sign s = (if deref s 0 = CHR ''-'' then (True, tl s) else if deref s 0 = CHR ''+'' then (False, tl s) else (False, s))"

text \<open>An optional exponent after the given letter.\<close>

definition scan_exponent :: "char \<Rightarrow> string \<Rightarrow> int \<times> string" where
  "scan_exponent e s =
     (let (neg, t) = scan_sign (tl s); ds = takeWhile is_digit t
      in if toupper_c (deref s 0) = e \<and> ds \<noteq> []
         then ((if neg then - int (digits_val ds) else int (digits_val ds)), dropWhile is_digit t)
         else (0, s))"

text \<open>Digits with at most one point: the digits before and after it, and the rest.\<close>

definition scan_point :: "(char \<Rightarrow> bool) \<Rightarrow> string \<Rightarrow> string \<times> string \<times> string" where
  "scan_point dig s =
     (let t = dropWhile dig s
      in if deref t 0 = CHR ''.'' then (takeWhile dig s, takeWhile dig (tl t), dropWhile dig (tl t))
         else (takeWhile dig s, [], t))"

definition hex_digits_val :: "string \<Rightarrow> nat" where
  "hex_digits_val s = foldl (\<lambda>n c. n * 16 + the (hex_val c)) 0 s"

definition scan_decimal :: "string \<Rightarrow> (rat \<times> string) option" where
  "scan_decimal s =
     (let (ip, fp, t) = scan_point is_digit s; (ex, u) = scan_exponent (CHR ''E'') t
      in if ip = [] \<and> fp = [] then None
         else Some (of_nat (digits_val (ip @ fp)) * 10 powi (ex - int (length fp)), u))"

definition scan_hex :: "string \<Rightarrow> (rat \<times> string) option" where
  "scan_hex s =
     (let (ip, fp, t) = scan_point is_hex (drop 2 s); (ex, u) = scan_exponent (CHR ''P'') t
      in if starts ''0X'' (map toupper_c s) \<and> (ip \<noteq> [] \<or> fp \<noteq> [])
         then Some (of_nat (hex_digits_val (ip @ fp)) * 2 powi (ex - 4 * int (length fp)), u)
         else None)"

text \<open>
  \<open>strtod\<close> in the C locale: the value and where it stops, \<^const>\<open>None\<close> when nothing is converted
  (then \<open>end\<close> is the start).  A parenthesised suffix of \<open>nan\<close> is left unread.
\<close>

definition strtod :: "string \<Rightarrow> (dbl \<times> string) option" where
  "strtod s0 =
     (let (neg, s) = scan_sign (dropWhile is_space s0); up = map toupper_c s
      in case (case scan_hex s of Some r \<Rightarrow> Some r | None \<Rightarrow> scan_decimal s) of
           Some (x, t) \<Rightarrow> Some (to_double (if neg then - x else x), t)
         | None \<Rightarrow> if starts ''INFINITY'' up then Some (Infinite neg, drop 8 s)
                   else if starts ''INF'' up then Some (Infinite neg, drop 3 s)
                   else if starts ''NAN'' up then Some (NaN, drop 3 s) else None)"

definition atof :: "string \<Rightarrow> dbl" where
  "atof s = (case strtod s of Some (x, t) \<Rightarrow> x | None \<Rightarrow> Fin 0)"

text \<open>The comparison \<open>a <= x && x <= b\<close>, false for a NaN.\<close>

fun dbl_between :: "rat \<Rightarrow> rat \<Rightarrow> dbl \<Rightarrow> bool" where
  "dbl_between a b (Fin x) \<longleftrightarrow> a \<le> x \<and> x \<le> b"
| "dbl_between a b _ \<longleftrightarrow> False"

fun dbl_neg :: "dbl \<Rightarrow> dbl" where
  "dbl_neg (Fin x) = Fin (- x)"
| "dbl_neg (Infinite n) = Infinite (\<not> n)"
| "dbl_neg NaN = NaN"

section \<open>Lines of a file\<close>

text \<open>\<open>fgets(line, n + 1, f)\<close>: at most \<open>n\<close> characters, up to and with a newline; the rest of the file.\<close>

fun take_line :: "nat \<Rightarrow> string \<Rightarrow> string \<times> string" where
  "take_line 0 s = ([], s)"
| "take_line (Suc n) [] = ([], [])"
| "take_line (Suc n) (c # s) =
     (if c = CHR 0x0A then ([c], s) else (let (l, r) = take_line n s in (c # l, r)))"

lemma take_line_split: "take_line n s = (l, r) \<Longrightarrow> s = l @ r"
  by (induction n s arbitrary: l r rule: take_line.induct) (auto split: if_splits prod.splits)

lemma take_line_consumes: "take_line (Suc n) s = (l, r) \<Longrightarrow> s \<noteq> [] \<Longrightarrow> length r < length s"
  using take_line_split [of "Suc n" s l r] by (cases s) (auto split: if_splits prod.splits)

text \<open>The lines that \<open>while (fgets(line, sizeof line, f))\<close> sees, as C strings.\<close>

function file_lines :: "nat \<Rightarrow> string \<Rightarrow> string list" where
  "file_lines n s = (if s = [] then [] else let (l, r) = take_line (Suc n) s in c_str l # file_lines n r)"
  by pat_completeness auto

termination
  by (relation "measure (\<lambda>(n, s). length s)") (auto dest: take_line_consumes [OF sym])

declare file_lines.simps [simp del]

section \<open>Sorting and searching\<close>

text \<open>
  What the C standard promises of \<open>qsort\<close> with a comparison by a string key: the entries in an order in which the
  keys ascend.  The order of entries with equal keys is not specified.
\<close>

definition qsort_spec :: "('e \<Rightarrow> string) \<Rightarrow> ('e list \<Rightarrow> 'e list) \<Rightarrow> bool" where
  "qsort_spec key qs \<longleftrightarrow> (\<forall>xs. sorted (map key (qs xs)) \<and> mset (qs xs) = mset xs)"

text \<open>\<open>bsearch\<close>, as glibc implements it; \<open>cmp\<close> compares the searched key with an element.\<close>

function bsearch_loop :: "('e \<Rightarrow> int) \<Rightarrow> 'e list \<Rightarrow> nat \<Rightarrow> nat \<Rightarrow> 'e option" where
  "bsearch_loop cmp xs l u =
     (if l < u then
        (let idx = (l + u) div 2; c = cmp (xs ! idx)
         in if c < 0 then bsearch_loop cmp xs l idx
            else if 0 < c then bsearch_loop cmp xs (idx + 1) u
            else Some (xs ! idx))
      else None)"
  by pat_completeness auto

termination
  by (relation "measure (\<lambda>(cmp, xs, l, u). u - l)") auto

declare bsearch_loop.simps [simp del]

definition bsearch :: "('e \<Rightarrow> int) \<Rightarrow> 'e list \<Rightarrow> 'e option" where
  "bsearch cmp xs = bsearch_loop cmp xs 0 (length xs)"


section \<open>Facts\<close>

lemma strcmp_less: "strcmp a b < 0 \<longleftrightarrow> a < b"
  by (induction a b rule: strcmp.induct) auto

lemma strcmp_eq [simp]: "strcmp a b = 0 \<longleftrightarrow> a = b"
  by (induction a b rule: strcmp.induct) auto

lemma strcmp_greater: "0 < strcmp a b \<longleftrightarrow> b < a"
  by (induction a b rule: strcmp.induct) auto

lemma qsort_set: "qsort_spec key qs \<Longrightarrow> set (qs xs) = set xs"
  unfolding qsort_spec_def by (metis set_mset_mset)

lemma qsort_length: "qsort_spec key qs \<Longrightarrow> length (qs xs) = length xs"
  unfolding qsort_spec_def by (metis size_mset)

lemma qsort_sorted: "qsort_spec key qs \<Longrightarrow> sorted (map key (qs xs))"
  by (simp add: qsort_spec_def)

text \<open>An implementation that meets the promise.\<close>

lemma qsort_spec_sort_key: "qsort_spec key (sort_key key)"
  by (simp add: qsort_spec_def)

text \<open>
  A table of entries with a string key, and a search on it: on a table in key order, the search finds an
  entry with the key exactly if there is one.
\<close>

locale string_table =
  fixes key :: "'e \<Rightarrow> string" and search :: "'e list \<Rightarrow> string \<Rightarrow> 'e option"
  assumes search_found: "sorted (map key t) \<Longrightarrow> search t k = Some e \<Longrightarrow> e \<in> set t \<and> key e = k"
    and search_complete: "sorted (map key t) \<Longrightarrow> e \<in> set t \<Longrightarrow> key e = k \<Longrightarrow> search t k \<noteq> None"
begin

lemma sorted_search_iff:
  assumes "sorted (map key t)"
  shows "(\<exists>e. search t k = Some e) \<longleftrightarrow> (\<exists>e \<in> set t. key e = k)"
  using search_found [OF assms] search_complete [OF assms] by blast

lemma search_qsort:
  assumes "qsort_spec key qs" and "search (qs xs) k = Some e"
  shows "e \<in> set xs \<and> key e = k"
  using search_found [OF qsort_sorted [OF assms(1)] assms(2)] qsort_set [OF assms(1), of xs] by simp

lemma search_qsort_none:
  assumes "qsort_spec key qs"
  shows "search (qs xs) k = None \<longleftrightarrow> k \<notin> key ` set xs"
proof -
  have "(\<exists>e. search (qs xs) k = Some e) \<longleftrightarrow> (\<exists>e \<in> set xs. key e = k)"
    using sorted_search_iff [OF qsort_sorted [OF assms]] qsort_set [OF assms] by simp
  then show ?thesis by (cases "search (qs xs) k") auto
qed

text \<open>Without duplicates the table is the finite map of its entries.\<close>

lemma search_map_of:
  assumes "qsort_spec key qs" and "distinct (map key xs)"
  shows "search (qs xs) k = map_of (map (\<lambda>e. (key e, e)) xs) k"
proof (cases "search (qs xs) k")
  case None
  have "map_of (map (\<lambda>e. (key e, e)) xs) k = None"
    using search_qsort_none [OF assms(1), of xs k] None by (auto simp: map_of_eq_None_iff)
  with None show ?thesis by simp
next
  case (Some e)
  then have "e \<in> set xs" "key e = k" using search_qsort [OF assms(1)] by auto
  with assms(2) have "map_of (map (\<lambda>e. (key e, e)) xs) k = Some e"
    by (intro map_of_is_SomeI) (auto simp: comp_def)
  with Some show ?thesis by simp
qed

end

text \<open>The binary searches: with a comparison that agrees with a strictly ordered key, they search a table.\<close>

lemma sorted_key_less: "sorted (map key t) \<Longrightarrow> i \<le> j \<Longrightarrow> j < length t \<Longrightarrow> key (t ! i) \<le> key (t ! j)"
  using sorted_nth_mono [of "map key t" i j] by simp

lemma bsearch_loop_found:
  assumes "bsearch_loop cmp t l u = Some e" and "u \<le> length t"
  shows "e \<in> set t \<and> cmp e = 0"
  using assms
proof (induction cmp t l u rule: bsearch_loop.induct)
  case (1 cmp xs l u)
  let ?i = "(l + u) div 2"
  show ?case
  proof (cases "l < u")
    case True
    consider "cmp (xs ! ?i) < 0" | "0 < cmp (xs ! ?i)" | "cmp (xs ! ?i) = 0" by linarith
    then show ?thesis
    proof cases
      case 1
      then have "bsearch_loop cmp xs l ?i = Some e" using "1.prems"(1) True by (subst (asm) bsearch_loop.simps) (simp add: Let_def)
      then show ?thesis by (rule "1.IH"(1) [OF True refl refl 1]) (use "1.prems"(2) True in linarith)
    next
      case 2
      then have "bsearch_loop cmp xs (?i + 1) u = Some e" using "1.prems"(1) True by (subst (asm) bsearch_loop.simps) (simp add: Let_def)
      then show ?thesis using 2 "1.IH"(2) [OF True refl refl _ 2] "1.prems"(2) by simp
    next
      case 3
      then have "e = xs ! ?i" using "1.prems"(1) True by (subst (asm) bsearch_loop.simps) (simp add: Let_def)
      with 3 True "1.prems"(2) show ?thesis by simp
    qed
  next
    case False
    with "1.prems" show ?thesis by (subst (asm) bsearch_loop.simps) simp
  qed
qed

lemma bsearch_loop_complete:
  assumes "sorted (map key t)" and "u \<le> length t" and "l \<le> j" "j < u" "key (t ! j) = k"
  shows "bsearch_loop (\<lambda>e. strcmp k (key e)) t l u \<noteq> None"
  using assms(2-5)
proof (induction "u - l" arbitrary: l u rule: less_induct)
  case less
  let ?i = "(l + u) div 2" and ?c = "\<lambda>e. strcmp k (key e)"
  have lu: "l < u" using less.prems by simp
  then have i: "?i < length t" "l \<le> ?i" "?i < u" using less.prems by auto
  note eq = bsearch_loop.simps [of ?c t l u]
  consider "?c (t ! ?i) < 0" | "0 < ?c (t ! ?i)" | "?c (t ! ?i) = 0" by linarith
  then show ?case
  proof cases
    case 1
    then have "k < key (t ! ?i)" by (simp add: strcmp_less)
    then have "j < ?i" using sorted_key_less [OF assms(1), of ?i j] less.prems by (meson leD leI order.strict_trans2)
    then have "bsearch_loop ?c t l ?i \<noteq> None" using less.prems i by (intro less.hyps) simp_all
    with 1 lu eq show ?thesis by (simp add: Let_def)
  next
    case 2
    then have "key (t ! ?i) < k" by (simp add: strcmp_greater)
    then have "?i < j" using sorted_key_less [OF assms(1), of j ?i] less.prems i by (meson leD leI)
    then have "bsearch_loop ?c t (?i + 1) u \<noteq> None" using less.prems i by (intro less.hyps) simp_all
    with 2 lu eq show ?thesis by (simp add: Let_def)
  next
    case 3
    with lu eq show ?thesis by (simp add: Let_def)
  qed
qed

lemma bsearch_table: "string_table key (\<lambda>t k. bsearch (\<lambda>e. strcmp k (key e)) t)"
proof
  fix t k e assume "sorted (map key t)"
  show "bsearch (\<lambda>e. strcmp k (key e)) t = Some e \<Longrightarrow> e \<in> set t \<and> key e = k"
    using bsearch_loop_found [of "\<lambda>e. strcmp k (key e)" t 0 "length t" e] by (auto simp: bsearch_def)
  show "e \<in> set t \<Longrightarrow> key e = k \<Longrightarrow> bsearch (\<lambda>e. strcmp k (key e)) t \<noteq> None"
    using bsearch_loop_complete [OF \<open>sorted (map key t)\<close>, of "length t" 0 _ k]
    by (auto simp: bsearch_def in_set_conv_nth)
qed


section \<open>Decimal digits\<close>

lemma digit_char_props: "d < 10 \<Longrightarrow> is_digit (digit_char d) \<and> digit_val (digit_char d) = d"
proof -
  have "\<forall>d \<in> {0, 1, 2, 3, 4, 5, 6, 7, 8, 9}. is_digit (digit_char d) \<and> digit_val (digit_char d) = d"
    by (simp add: digit_char_def is_digit_def digit_val_def)
  moreover assume "d < 10"
  then have "d \<in> {0, 1, 2, 3, 4, 5, 6, 7, 8, 9}" by auto
  ultimately show ?thesis by (rule bspec)
qed

lemma digits_val_snoc: "digits_val (s @ [c]) = digits_val s * 10 + digit_val c"
  by (simp add: digits_val_def)

lemma digits_val_zeros: "digits_val (replicate k (CHR ''0'') @ s) = digits_val s"
  by (induction s rule: rev_induct)
    (simp_all add: digits_val_snoc append_assoc [symmetric] del: append_assoc, induction k, simp_all add: digits_val_def digit_val_def)

lemma digits_val_nat_str: "digits_val (nat_str n) = n \<and> list_all is_digit (nat_str n)"
proof (induction n rule: nat_str.induct)
  case (1 n)
  then show ?case
    by (subst (1 2) nat_str.simps) (auto simp: digits_val_snoc digit_char_props digits_val_def)
qed

lemma digits_val_pad:
  assumes "n < 10 ^ w" and "0 < w"
  shows "digits_val (pad_str w (int n)) = n" and "length (pad_str w (int n)) = w" and "list_all is_digit (pad_str w (int n))"
  using digits_val_nat_str [of n] nat_str_length [OF assms]
  by (auto simp: pad_str_def Let_def digits_val_zeros is_digit_def list_all_iff)

section \<open>Degrees and tenths of minutes\<close>

definition dm_value :: "nat \<Rightarrow> nat \<Rightarrow> rat" where
  "dm_value deg min10 = round64 (of_nat deg + round64 (of_nat min10 / 600))"

lemma dm_value_bounds:
  assumes "deg < 255" and "min10 < 600"
  shows "0 \<le> dm_value deg min10" and "dm_value deg min10 < of_nat deg + 1"
    and "of_nat deg + of_nat min10 / 600 - 1 / 2 ^ 45 \<le> dm_value deg min10"
proof -
  let ?q = "of_nat min10 / 600 :: rat" and ?r = "round64 (of_nat min10 / 600)"
  have q: "0 \<le> ?q" "?q \<le> 599 / 600" using assms(2) by (simp_all add: divide_right_mono)
  have r0: "0 \<le> ?r" by (rule round64_nonneg [OF q(1)])
  have "\<bar>?r - ?q\<bar> \<le> pow2 (0 - 54)" by (rule round64_error) (use q in simp_all)
  then have rq: "?r - ?q \<le> 1 / 2 ^ 54" "?q - ?r \<le> 1 / 2 ^ 54" unfolding pow2_def by (simp_all only: abs_le_iff) simp_all
  from rq(1) have r: "?r \<le> 599 / 600 + 1 / 2 ^ 54" using q(2) by linarith
  have d: "of_nat deg < (255 :: rat)" using assms(1) by simp
  then have "of_nat deg + ?r < pow2 8" using r by (simp add: pow2_def)
  then have "\<bar>round64 (of_nat deg + ?r) - (of_nat deg + ?r)\<bar> \<le> pow2 (8 - 54)"
    using r0 by (intro round64_error) simp_all
  then have s: "round64 (of_nat deg + ?r) - (of_nat deg + ?r) \<le> 1 / 2 ^ 46"
    "(of_nat deg + ?r) - round64 (of_nat deg + ?r) \<le> 1 / 2 ^ 46" unfolding pow2_def by (simp_all only: abs_le_iff) simp_all
  have "(599 :: rat) / 600 + 1 / 2 ^ 54 + 1 / 2 ^ 46 < 1" by simp
  with s(1) r show "dm_value deg min10 < of_nat deg + 1" unfolding dm_value_def by linarith
  have "(1 :: rat) / 2 ^ 54 + 1 / 2 ^ 46 \<le> 1 / 2 ^ 45" by simp
  with s(2) rq(2) show "of_nat deg + of_nat min10 / 600 - 1 / 2 ^ 45 \<le> dm_value deg min10" unfolding dm_value_def by linarith
  show "0 \<le> dm_value deg min10" using r0 by (simp add: dm_value_def round64_nonneg)
qed

end
