(* ===== verification/WaypointDb.thy ===== *)
theory WaypointDb
  imports CStrings
begin

text \<open>
  \<open>waypoint_db.c\<close>: a CSV file of fixes read line by line into a table sorted by identifier, and its binary search.
  Memory allocation is taken to succeed.
\<close>

section \<open>The table\<close>

record wp_entry =
  wp_ident :: string
  wp_lat :: dbl
  wp_lon :: dbl

text \<open>One line \<open>IDENT,LAT,LON\<close>; \<^const>\<open>None\<close> for a line that is skipped.\<close>

definition strip_eol :: "string \<Rightarrow> string" where
  "strip_eol s = rev (dropWhile (\<lambda>c. c = CHR 0x0A \<or> c = CHR 0x0D) (rev s))"

definition waypoint_line :: "string \<Rightarrow> wp_entry option" where
  "waypoint_line line =
     (case split_at (CHR '','') line of
        None \<Rightarrow> None
      | Some (ident, rest) \<Rightarrow>
          (case split_at (CHR '','') rest of
             None \<Rightarrow> None
           | Some (lat_s, lon_s) \<Rightarrow>
               if length ident < 2 \<or> 5 < length ident then None
               else Some \<lparr>wp_ident = ident, wp_lat = atof lat_s, wp_lon = atof (strip_eol lon_s)\<rparr>))"

text \<open>
  \<open>waypoint_db_load\<close> on the contents of the file, \<^const>\<open>None\<close> when it cannot be opened: the return
  value and the new table.
\<close>

definition waypoint_db_load ::
  "(wp_entry list \<Rightarrow> wp_entry list) \<Rightarrow> string option \<Rightarrow> wp_entry list \<Rightarrow> int \<times> wp_entry list" where
  "waypoint_db_load qsort file wpdb =
     (case file of
        None \<Rightarrow> (- 1, wpdb)
      | Some content \<Rightarrow>
          (let entries = List.map_filter waypoint_line (file_lines 255 content)
           in (int (length entries), qsort entries)))"

definition wp_search :: "wp_entry list \<Rightarrow> string \<Rightarrow> wp_entry option" where
  "wp_search wpdb key = bsearch (\<lambda>e. strcmp key (wp_ident e)) wpdb"

definition waypoint_db_lookup :: "wp_entry list \<Rightarrow> string \<Rightarrow> (dbl \<times> dbl) option" where
  "waypoint_db_lookup wpdb ident =
     (if wpdb = [] \<or> ident = [] then None
      else map_option (\<lambda>e. (wp_lat e, wp_lon e)) (wp_search wpdb (take 5 ident)))"

interpretation wptab: string_table wp_ident wp_search
  unfolding wp_search_def by (rule bsearch_table)

definition file_entries :: "string \<Rightarrow> wp_entry set" where
  "file_entries content = {e. \<exists>line \<in> set (file_lines 255 content). waypoint_line line = Some e}"

section \<open>Properties\<close>



end
