(* ===== verification/LearnedWaypoints.thy ===== *)
theory LearnedWaypoints
  imports CStrings
begin

text \<open>
  \<open>learned_waypoints.c\<close>: the cache of fixes read from flight plan messages.  The counters are taken as
  unbounded.
\<close>

section \<open>Coordinates\<close>

text \<open>Degrees and tenths of minutes, two (latitude) or three (longitude) digits and three digits.\<close>

definition parse_dm_coord :: "string \<Rightarrow> bool \<Rightarrow> rat option" where
  "parse_dm_coord s lon_width =
     (let dir = deref s 0
      in if dir \<notin> {CHR ''N'', CHR ''S'', CHR ''E'', CHR ''W''} then None
         else (let deg_digits = (if lon_width then 3 else 2); min_digits = 3; total = deg_digits + min_digits
               in if \<not> (\<forall>i \<in> {1..total}. is_digit (deref s i)) then None
                  else (let deg = digits_val (take deg_digits (drop 1 s));
                            min10 = digits_val (take min_digits (drop (1 + deg_digits) s))
                        in if 600 \<le> min10 then None
                           else (let val = round64 (of_nat deg + round64 (of_nat min10 / 600))
                                 in if lon_width \<and> 180 < val then None
                                    else if \<not> lon_width \<and> 90 < val then None
                                    else Some (if dir = CHR ''S'' \<or> dir = CHR ''W'' then - val else val)))))"

section \<open>The cache\<close>

record learned_entry =
  le_ident :: string
  le_lat :: rat
  le_lon :: rat
  sightings :: int

record learned_cache =
  cache :: "learned_entry list"
  stat_fpn_parsed :: int
  stat_sightings :: int

definition learned_wp_empty :: learned_cache where
  "learned_wp_empty = \<lparr>cache = [], stat_fpn_parsed = 0, stat_sightings = 0\<rparr>"

fun count_sighting :: "string \<Rightarrow> learned_entry list \<Rightarrow> learned_entry list option" where
  "count_sighting name [] = None"
| "count_sighting name (e # es) =
     (if strcmp (le_ident e) name = 0 then Some (e\<lparr>sightings := sightings e + 1\<rparr> # es)
      else map_option (\<lambda>es'. e # es') (count_sighting name es))"

definition cache_add_locked :: "string \<Rightarrow> rat \<Rightarrow> rat \<Rightarrow> learned_cache \<Rightarrow> learned_cache" where
  "cache_add_locked name lat lon c =
     (case count_sighting name (cache c) of
        Some es \<Rightarrow> c\<lparr>cache := es, stat_sightings := stat_sightings c + 1\<rparr>
      | None \<Rightarrow>
          if 4096 \<le> length (cache c) then c
          else c\<lparr>cache := cache c @ [\<lparr>le_ident = take 5 name, le_lat = lat, le_lon = lon, sightings = 1\<rparr>],
                 stat_sightings := stat_sightings c + 1\<rparr>)"

section \<open>Flight plans\<close>

text \<open>The capital letters right before a comma.\<close>

definition name_before :: "string \<Rightarrow> string" where
  "name_before seg = rev (takeWhile is_upper (rev seg))"

text \<open>
  One round of the scan at \<open>p\<close>: where it goes on, and the fix that was found; \<^const>\<open>None\<close> when there is
  no further comma.
\<close>

definition fpn_step :: "string \<Rightarrow> (string \<times> (string \<times> rat \<times> rat) option) option" where
  "fpn_step p =
     (case split_at (CHR '','') p of
        None \<Rightarrow> None
      | Some (before, after) \<Rightarrow>
          (let name = name_before before; skip = Some (after, None)
           in if length name < 2 \<or> 5 < length name then skip
              else if deref after 0 \<noteq> CHR ''N'' \<and> deref after 0 \<noteq> CHR ''S'' then skip
              else (case parse_dm_coord after False of
                      None \<Rightarrow> skip
                    | Some lat \<Rightarrow>
                        (let lon_start = drop 6 after
                         in if deref lon_start 0 \<noteq> CHR ''E'' \<and> deref lon_start 0 \<noteq> CHR ''W'' then skip
                            else (case parse_dm_coord lon_start True of
                                    None \<Rightarrow> skip
                                  | Some lon \<Rightarrow>
                                      Some (drop 7 lon_start,
                                            (if lat \<noteq> 0 \<or> lon \<noteq> 0 then Some (name, lat, lon) else None)))))))"

lemma split_at_length: "split_at c s = Some (a, b) \<Longrightarrow> length b < length s"
proof -
  assume s: "split_at c s = Some (a, b)"
  let ?d = "dropWhile (\<lambda>d. d \<noteq> c) s"
  have "c \<in> set s" and b: "b = tl ?d" using s by (auto simp: split_at_def split: if_splits)
  then have "?d \<noteq> []" by (auto simp: dropWhile_eq_Nil_conv)
  then have "length b < length ?d" by (simp add: b)
  also have "\<dots> \<le> length s" by (rule length_dropWhile_le)
  finally show ?thesis .
qed

lemma fpn_step_length: "fpn_step p = Some (q, r) \<Longrightarrow> length q < length p"
  by (auto simp: fpn_step_def Let_def split: option.splits if_splits prod.splits dest!: split_at_length)

function fpn_loop :: "string \<Rightarrow> int \<Rightarrow> learned_cache \<Rightarrow> int \<times> learned_cache" where
  "fpn_loop p learned c =
     (if p = [] then (learned, c)
      else case fpn_step p of
             None \<Rightarrow> (learned, c)
           | Some (q, None) \<Rightarrow> fpn_loop q learned c
           | Some (q, Some (name, lat, lon)) \<Rightarrow> fpn_loop q (learned + 1) (cache_add_locked name lat lon c))"
  by pat_completeness auto

termination
  by (relation "measure (\<lambda>(p, learned, c). length p)") (auto dest: fpn_step_length)

declare fpn_loop.simps [simp del]

definition learned_wp_parse_fpn :: "string \<Rightarrow> learned_cache \<Rightarrow> int \<times> learned_cache" where
  "learned_wp_parse_fpn msg c =
     (if msg = [] then (0, c)
      else let (learned, c') = fpn_loop msg 0 c
           in (learned, if 0 < learned then c'\<lparr>stat_fpn_parsed := stat_fpn_parsed c' + 1\<rparr> else c'))"

definition learned_wp_lookup :: "learned_cache \<Rightarrow> string \<Rightarrow> (rat \<times> rat) option" where
  "learned_wp_lookup c ident =
     (if ident = [] then None
      else map_option (\<lambda>e. (le_lat e, le_lon e)) (List.find (\<lambda>e. strcmp (le_ident e) ident = 0) (cache c)))"

section \<open>The cache as a map\<close>

text \<open>
  A store where the first value for a key is kept: what is put later is ignored.  Clients that put a list
  of pairs look the first of each key up, as long as there is room.
\<close>

locale first_wins =
  fixes get :: "'s \<Rightarrow> 'k \<Rightarrow> 'v option" and put :: "'k \<Rightarrow> 'v \<Rightarrow> 's \<Rightarrow> 's" and room :: "'s \<Rightarrow> nat" and ok :: "'k \<Rightarrow> bool"
  assumes get_put: "ok k \<Longrightarrow> 0 < room s \<Longrightarrow> get (put k v s) j =
      (if j = k then Some (case get s k of Some w \<Rightarrow> w | None \<Rightarrow> v) else get s j)"
    and get_put_known: "ok k \<Longrightarrow> get s k \<noteq> None \<Longrightarrow> get (put k v s) j = get s j"
    and get_put_full: "ok k \<Longrightarrow> room s = 0 \<Longrightarrow> get (put k v s) j = get s j"
    and room_put: "room s \<le> Suc (room (put k v s))"
begin

definition put_all :: "('k \<times> 'v) list \<Rightarrow> 's \<Rightarrow> 's" where
  "put_all kvs = fold (\<lambda>(k, v). put k v) kvs"

lemma put_all_simps: "put_all [] s = s" "put_all ((k, v) # kvs) s = put_all kvs (put k v s)"
  by (simp_all add: put_all_def)

lemma get_put_all:
  assumes "\<forall>(k, v) \<in> set kvs. ok k" and "length kvs \<le> room s"
  shows "get (put_all kvs s) j = (case get s j of Some w \<Rightarrow> Some w | None \<Rightarrow> map_of kvs j)"
  using assms
proof (induction kvs arbitrary: s)
  case (Cons kv kvs)
  obtain k v where kv: "kv = (k, v)" by fastforce
  have "length kvs \<le> room (put k v s)" using Cons.prems(2) room_put [of s k v] by simp
  then have "get (put_all kvs (put k v s)) j =
      (case get (put k v s) j of Some w \<Rightarrow> Some w | None \<Rightarrow> map_of kvs j)"
    using Cons.IH Cons.prems(1) by simp
  moreover have "ok k" "0 < room s" using Cons.prems kv by auto
  ultimately show ?case by (auto simp: put_all_def kv get_put split: option.splits)
qed (simp add: put_all_def split: option.splits)

lemma get_put_all_known:
  assumes "\<forall>(k, v) \<in> set kvs. ok k" and "get s j = Some w"
  shows "get (put_all kvs s) j = Some w"
  using assms
proof (induction kvs arbitrary: s)
  case (Cons kv kvs)
  obtain k v where kv: "kv = (k, v)" by fastforce
  then have ok: "ok k" using Cons.prems by auto
  have "get (put k v s) j = Some w"
    using get_put [OF ok, of s v j] get_put_full [OF ok, of s v j] Cons.prems(2) by (cases "room s = 0") auto
  then have "get (put_all kvs (put k v s)) j = Some w" using Cons by simp
  then show ?case by (simp add: put_all_def kv)
qed (simp add: put_all_def)

end

definition cache_get :: "learned_cache \<Rightarrow> string \<Rightarrow> (rat \<times> rat) option" where
  "cache_get c name = learned_wp_lookup c name"

definition cache_put :: "string \<Rightarrow> rat \<times> rat \<Rightarrow> learned_cache \<Rightarrow> learned_cache" where
  "cache_put name v = cache_add_locked name (fst v) (snd v)"

definition cache_room :: "learned_cache \<Rightarrow> nat" where
  "cache_room c = 4096 - length (cache c)"

definition good_name :: "string \<Rightarrow> bool" where
  "good_name name \<longleftrightarrow> name \<noteq> [] \<and> length name \<le> 5"

lemma find_counted:
  "count_sighting name es = Some es' \<Longrightarrow> length es' = length es \<and>
     map_option (\<lambda>e. (le_lat e, le_lon e)) (List.find (\<lambda>e. le_ident e = j) es') =
     map_option (\<lambda>e. (le_lat e, le_lon e)) (List.find (\<lambda>e. le_ident e = j) es)"
  by (induction es arbitrary: es') (auto split: if_splits)

lemma count_sighting_None: "count_sighting name es = None \<longleftrightarrow> List.find (\<lambda>e. le_ident e = name) es = None"
  by (induction es) auto

lemma find_append: "List.find P (xs @ ys) = (case List.find P xs of Some x \<Rightarrow> Some x | None \<Rightarrow> List.find P ys)"
  by (induction xs) auto

interpretation lcache: first_wins cache_get cache_put cache_room good_name
proof
  fix k j :: string and s :: learned_cache and v :: "rat \<times> rat"
  assume k: "good_name k"
  then have t: "take 5 k = k" "k \<noteq> []" by (simp_all add: good_name_def)
  show "cache_get (cache_put k v s) j = (if j = k then Some (case cache_get s k of Some w \<Rightarrow> w | None \<Rightarrow> v) else cache_get s j)"
    if "0 < cache_room s"
  proof (cases "count_sighting k (cache s)")
    case None
    then have "List.find (\<lambda>e. le_ident e = k) (cache s) = None" by (simp only: count_sighting_None)
    with None that t show ?thesis
      by (auto simp: cache_get_def cache_put_def cache_room_def learned_wp_lookup_def cache_add_locked_def
        find_append split: option.splits)
  next
    case (Some es)
    then have "List.find (\<lambda>e. le_ident e = k) (cache s) \<noteq> None" using count_sighting_None by (metis option.distinct(1))
    with find_counted [OF Some, of j] Some t show ?thesis
      by (auto simp: cache_get_def cache_put_def learned_wp_lookup_def cache_add_locked_def)
  qed
  show "cache_get (cache_put k v s) j = cache_get s j" if "cache_get s k \<noteq> None"
  proof -
    from that t have "count_sighting k (cache s) \<noteq> None"
      by (auto simp: cache_get_def learned_wp_lookup_def count_sighting_None)
    then show ?thesis using find_counted [of k "cache s" _ j]
      by (auto simp: cache_get_def cache_put_def learned_wp_lookup_def cache_add_locked_def)
  qed
  show "cache_get (cache_put k v s) j = cache_get s j" if "cache_room s = 0"
    using that find_counted [of k "cache s" _ j]
    by (auto simp: cache_get_def cache_put_def cache_room_def learned_wp_lookup_def cache_add_locked_def split: option.splits)
next
  fix k :: string and s :: learned_cache and v :: "rat \<times> rat"
  show "cache_room s \<le> Suc (cache_room (cache_put k v s))"
    using find_counted [of k "cache s"]
    by (auto simp: cache_put_def cache_room_def cache_add_locked_def split: option.splits)
qed

lemma cache_put_pair: "cache_put name (lat, lon) c = cache_add_locked name lat lon c"
  by (simp add: cache_put_def)

section \<open>Reading a flight plan\<close>

text \<open>A fix as it is written in a flight plan: what precedes it, its name, and its coordinates.\<close>

record fpn_fix =
  fx_lead :: string
  fx_name :: string
  fx_south :: bool
  fx_lat :: "nat \<times> nat"
  fx_west :: bool
  fx_lon :: "nat \<times> nat"

definition fix_text :: "fpn_fix \<Rightarrow> string" where
  "fix_text w = fx_lead w @ fx_name w @ '','' @
     [if fx_south w then CHR ''S'' else CHR ''N''] @ pad_str 2 (int (fst (fx_lat w))) @ pad_str 3 (int (snd (fx_lat w))) @
     [if fx_west w then CHR ''W'' else CHR ''E''] @ pad_str 3 (int (fst (fx_lon w))) @ pad_str 3 (int (snd (fx_lon w)))"

definition signed :: "bool \<Rightarrow> rat \<Rightarrow> rat" where
  "signed neg x = (if neg then - x else x)"

definition fix_coords :: "fpn_fix \<Rightarrow> rat \<times> rat" where
  "fix_coords w = (signed (fx_south w) (dm_value (fst (fx_lat w)) (snd (fx_lat w))),
     signed (fx_west w) (dm_value (fst (fx_lon w)) (snd (fx_lon w))))"

definition good_fix :: "fpn_fix \<Rightarrow> bool" where
  "good_fix w \<longleftrightarrow> CHR '','' \<notin> set (fx_lead w) \<and> (fx_lead w \<noteq> [] \<longrightarrow> \<not> is_upper (last (fx_lead w))) \<and>
     list_all is_upper (fx_name w) \<and> 2 \<le> length (fx_name w) \<and> length (fx_name w) \<le> 5 \<and>
     fst (fx_lat w) < 90 \<and> snd (fx_lat w) < 600 \<and> fst (fx_lon w) < 180 \<and> snd (fx_lon w) < 600 \<and>
     fix_coords w \<noteq> (0, 0)"

lemma parse_dm_digits:
  assumes "dir \<in> {CHR ''N'', CHR ''S'', CHR ''E'', CHR ''W''}" and "deg < (if lonw then 180 else 90)" and "m < 600"
  shows "parse_dm_coord (dir # pad_str (if lonw then 3 else 2) (int deg) @ pad_str 3 (int m) @ rest) lonw =
    Some (signed (dir = CHR ''S'' \<or> dir = CHR ''W'') (dm_value deg m))"
proof -
  define k :: nat where "k = (if lonw then 3 else 2)"
  define a where "a = pad_str k (int deg)"
  define b where "b = pad_str 3 (int m)"
  have k: "0 < k" "deg < 10 ^ k" using assms(2) by (auto simp: k_def split: if_splits)
  have a: "digits_val a = deg" "length a = k" "list_all is_digit a"
    unfolding a_def using digits_val_pad [OF k(2,1)] by simp_all
  have b: "digits_val b = m" "length b = 3" "list_all is_digit b"
    unfolding b_def using digits_val_pad [of m 3] assms(3) by simp_all
  have dig: "\<forall>i \<in> {1..k + 3}. is_digit (deref (dir # a @ b @ rest) i)"
  proof
    fix i assume i: "i \<in> {1..k + 3}"
    then obtain j where j: "i = Suc j" "j < k + 3" by (cases i) auto
    have "j < k \<or> j - k < 3" using j by linarith
    with a b j have "deref (dir # a @ b @ rest) i = (a @ b) ! j" by (auto simp: deref_def nth_append)
    moreover have "(a @ b) ! j \<in> set (a @ b)" using j a b by (intro nth_mem) simp
    ultimately show "is_digit (deref (dir # a @ b @ rest) i)" using a(3) b(3) by (auto simp: list_all_iff)
  qed
  have v: "take k (drop 1 (dir # a @ b @ rest)) = a" "take 3 (drop (1 + k) (dir # a @ b @ rest)) = b"
    using a b by simp_all
  have "dm_value deg m < of_nat deg + 1" using dm_value_bounds(2) [of deg m] assms by (auto split: if_splits)
  moreover have "of_nat deg + 1 \<le> (if lonw then 180 else 90 :: rat)"
    using assms(2) by (auto split: if_splits simp: of_nat_le_iff [symmetric] simp del: of_nat_le_iff)
  ultimately have range: "\<not> (lonw \<and> 180 < dm_value deg m)" "\<not> (\<not> lonw \<and> 90 < dm_value deg m)"
    by (auto split: if_splits)
  have d0: "deref (dir # a @ b @ rest) 0 = dir" by (simp add: deref_def)
  show ?thesis
    unfolding k_def [symmetric] a_def [symmetric] b_def [symmetric]
    unfolding parse_dm_coord_def Let_def d0 k_def [symmetric] v a(1) b(1)
    using assms(1,3) dig range by (auto simp: dm_value_def signed_def)
qed


lemma split_at_append: "c \<notin> set a \<Longrightarrow> split_at c (a @ c # b) = Some (a, b)"
  by (auto simp: split_at_def takeWhile_append dropWhile_append)

lemma name_before_fix:
  assumes "good_fix w"
  shows "name_before (fx_lead w @ fx_name w) = fx_name w"
proof -
  have u: "\<forall>c \<in> set (rev (fx_name w)). is_upper c" using assms by (simp add: good_fix_def list_all_iff)
  have "takeWhile is_upper (rev (fx_lead w)) = []"
    using assms by (cases "fx_lead w" rule: rev_cases) (simp_all add: good_fix_def)
  with u show ?thesis by (simp add: name_before_def takeWhile_append)
qed

lemma is_upper_not_comma: "is_upper c \<Longrightarrow> c \<noteq> CHR '',''"
  by (auto simp: is_upper_def)

lemma fpn_step_fix:
  assumes w: "good_fix w"
  shows "fpn_step (fix_text w @ rest) = Some (rest, Some (fx_name w, fix_coords w))"
proof -
  let ?lat = "(if fx_south w then CHR ''S'' else CHR ''N'') # pad_str 2 (int (fst (fx_lat w))) @ pad_str 3 (int (snd (fx_lat w)))"
  let ?lon = "(if fx_west w then CHR ''W'' else CHR ''E'') # pad_str 3 (int (fst (fx_lon w))) @ pad_str 3 (int (snd (fx_lon w)))"
  have shape: "fix_text w @ rest = (fx_lead w @ fx_name w) @ CHR '','' # (?lat @ ?lon @ rest)"
    by (simp add: fix_text_def)
  have "CHR '','' \<notin> set (fx_lead w @ fx_name w)"
    using w is_upper_not_comma by (auto simp: good_fix_def list_all_iff)
  note split = split_at_append [OF this]
  have lat: "parse_dm_coord (?lat @ ?lon @ rest) False = Some (signed (fx_south w) (dm_value (fst (fx_lat w)) (snd (fx_lat w))))"
    using parse_dm_digits [of "if fx_south w then CHR ''S'' else CHR ''N''" "fst (fx_lat w)" False "snd (fx_lat w)" "?lon @ rest"] w
    by (auto simp: good_fix_def split: if_splits)
  have lon: "parse_dm_coord (?lon @ rest) True = Some (signed (fx_west w) (dm_value (fst (fx_lon w)) (snd (fx_lon w))))"
    using parse_dm_digits [of "if fx_west w then CHR ''W'' else CHR ''E''" "fst (fx_lon w)" True "snd (fx_lon w)" rest] w
    by (auto simp: good_fix_def split: if_splits)
  have "length ?lat = 6" "length ?lon = 7"
    using w digits_val_pad(2) [of "fst (fx_lat w)" 2] digits_val_pad(2) [of "snd (fx_lat w)" 3]
      digits_val_pad(2) [of "fst (fx_lon w)" 3] digits_val_pad(2) [of "snd (fx_lon w)" 3]
    by (simp_all add: good_fix_def)
  then have drops: "drop 6 (?lat @ ?lon @ rest) = ?lon @ rest" "drop 7 (?lon @ rest) = rest" by simp_all
  have d: "deref (?lat @ ?lon @ rest) 0 = (if fx_south w then CHR ''S'' else CHR ''N'')"
    "deref (?lon @ rest) 0 = (if fx_west w then CHR ''W'' else CHR ''E'')" by (simp_all add: deref_def)
  have n: "\<not> (length (fx_name w) < 2 \<or> 5 < length (fx_name w))" using w by (auto simp: good_fix_def)
  have z: "fst (fix_coords w) \<noteq> 0 \<or> snd (fix_coords w) \<noteq> 0" using w by (auto simp: good_fix_def prod_eq_iff)
  show ?thesis
    unfolding shape fpn_step_def split option.case prod.case Let_def name_before_fix [OF w] d lat drops lon
    using n z by (simp add: fix_coords_def)
qed

lemma fpn_loop_fixes:
  assumes "\<forall>w \<in> set ws. good_fix w" and "CHR '','' \<notin> set rest"
  shows "fpn_loop (concat (map fix_text ws) @ rest) n c =
    (n + int (length ws), lcache.put_all (map (\<lambda>w. (fx_name w, fix_coords w)) ws) c)"
  using assms(1)
proof (induction ws arbitrary: n c)
  case Nil
  have "fpn_step rest = None" using assms(2) by (simp add: fpn_step_def split_at_def)
  then show ?case by (subst fpn_loop.simps) (simp add: lcache.put_all_def)
next
  case (Cons w ws)
  have "fpn_step (fix_text w @ concat (map fix_text ws) @ rest) = Some (concat (map fix_text ws) @ rest, Some (fx_name w, fix_coords w))"
    by (rule fpn_step_fix) (use Cons.prems in simp)
  moreover have "fix_text w @ concat (map fix_text ws) @ rest \<noteq> []" by (simp add: fix_text_def)
  moreover obtain la lo where "fix_coords w = (la, lo)" by fastforce
  ultimately show ?case
    using Cons by (subst fpn_loop.simps) (simp add: lcache.put_all_simps cache_put_pair)
qed

section \<open>Invariant\<close>

text \<open>Names are unique and short, and the cache never outgrows its array.\<close>

definition cache_inv :: "learned_cache \<Rightarrow> bool" where
  "cache_inv c \<longleftrightarrow> distinct (map le_ident (cache c)) \<and> length (cache c) \<le> 4096 \<and>
     (\<forall>e \<in> set (cache c). 2 \<le> length (le_ident e) \<and> length (le_ident e) \<le> 5 \<and> \<bar>le_lat e\<bar> \<le> 90 \<and> \<bar>le_lon e\<bar> \<le> 180)"

lemma count_sighting_idents:
  "count_sighting name es = Some es' \<Longrightarrow> map le_ident es' = map le_ident es \<and>
     map le_lat es' = map le_lat es \<and> map le_lon es' = map le_lon es"
  by (induction es arbitrary: es') (auto split: if_splits)

lemma set_map_lists:
  assumes "map f xs = map f ys" "map g xs = map g ys" "map h xs = map h ys" "\<forall>y \<in> set ys. P (f y) (g y) (h y)"
  shows "\<forall>x \<in> set xs. P (f x) (g x) (h x)"
proof -
  have nth: "(\<forall>z \<in> set zs. P (f z) (g z) (h z)) \<longleftrightarrow> (\<forall>i < length zs. P (map f zs ! i) (map g zs ! i) (map h zs ! i))" for zs
    by (simp add: all_set_conv_all_nth)
  have "length xs = length ys" using assms(1) by (rule map_eq_imp_length_eq)
  then show ?thesis using assms(4) unfolding nth assms(1-3) by simp
qed

lemma parse_dm_range: "parse_dm_coord s lonw = Some v \<Longrightarrow> \<bar>v\<bar> \<le> (if lonw then 180 else 90)"
proof -
  assume p: "parse_dm_coord s lonw = Some v"
  have "0 \<le> round64 (of_nat deg + round64 (of_nat m / 600))" for deg m :: nat
    by (intro round64_nonneg add_nonneg_nonneg) simp_all
  with p show ?thesis by (auto simp: parse_dm_coord_def Let_def split: if_splits)
qed

lemma cache_add_inv:
  assumes c: "cache_inv c" and n: "2 \<le> length name" "length name \<le> 5" and v: "\<bar>lat\<bar> \<le> 90" "\<bar>lon\<bar> \<le> 180"
  shows "cache_inv (cache_add_locked name lat lon c)"
proof (cases "count_sighting name (cache c)")
  case None
  then have "name \<notin> le_ident ` set (cache c)" by (auto simp: count_sighting_None find_None_iff)
  with c n v None show ?thesis by (auto simp: cache_inv_def cache_add_locked_def)
next
  case (Some es)
  note i = count_sighting_idents [OF Some]
  have "length es = length (cache c)" using find_counted [OF Some] by simp
  moreover have "\<forall>e \<in> set es. 2 \<le> length (le_ident e) \<and> length (le_ident e) \<le> 5 \<and> \<bar>le_lat e\<bar> \<le> 90 \<and> \<bar>le_lon e\<bar> \<le> 180"
    by (rule set_map_lists [of le_ident es "cache c" le_lat le_lon]) (use i c in \<open>auto simp: cache_inv_def\<close>)
  ultimately show ?thesis using c Some i by (simp add: cache_inv_def cache_add_locked_def)
qed

lemma fpn_step_range:
  "fpn_step p = Some (q, Some (name, lat, lon)) \<Longrightarrow> 2 \<le> length name \<and> length name \<le> 5 \<and> \<bar>lat\<bar> \<le> 90 \<and> \<bar>lon\<bar> \<le> 180"
  by (auto simp: fpn_step_def Let_def split: option.splits if_splits prod.splits dest!: parse_dm_range)

lemma fpn_loop_inv: "cache_inv c \<Longrightarrow> cache_inv (snd (fpn_loop p n c))"
proof (induction p n c rule: fpn_loop.induct)
  case (1 p n c)
  show ?case
  proof (cases "p = [] \<or> fpn_step p = None")
    case True
    with "1.prems" show ?thesis by (subst fpn_loop.simps) auto
  next
    case False
    then obtain q r where s: "fpn_step p = Some (q, r)" and p: "p \<noteq> []" by auto
    show ?thesis
    proof (cases r)
      case None
      with "1.IH"(1) [OF p s refl None] "1.prems" s p show ?thesis by (subst fpn_loop.simps) simp
    next
      case (Some fx)
      obtain name lat lon where fx: "fx = (name, lat, lon)" by (cases fx)
      have "cache_inv (cache_add_locked name lat lon c)"
        using cache_add_inv [OF "1.prems"] fpn_step_range [of p q name lat lon] s Some fx by simp
      with "1.IH"(2) [OF p s refl Some fx [symmetric] refl] s p Some fx show ?thesis by (subst fpn_loop.simps) simp
    qed
  qed
qed


lemma fpn_loop_puts:
  "\<exists>kvs. (\<forall>(k, v) \<in> set kvs. good_name k) \<and> snd (fpn_loop p n c) = lcache.put_all kvs c"
proof (induction p n c rule: fpn_loop.induct)
  case (1 p n c)
  show ?case
  proof (cases "p = [] \<or> fpn_step p = None")
    case True
    then have "snd (fpn_loop p n c) = lcache.put_all [] c" by (subst fpn_loop.simps) (auto simp: lcache.put_all_simps)
    then show ?thesis by (intro exI [of _ "[]"]) simp
  next
    case False
    then obtain q r where s: "fpn_step p = Some (q, r)" and p: "p \<noteq> []" by auto
    show ?thesis
    proof (cases r)
      case None
      with "1.IH"(1) [OF p s refl None] s p show ?thesis by (subst fpn_loop.simps) simp
    next
      case (Some fx)
      obtain name lat lon where fx: "fx = (name, lat, lon)" by (cases fx)
      obtain kvs where k: "\<forall>(k, v) \<in> set kvs. good_name k"
        "snd (fpn_loop q (n + 1) (cache_add_locked name lat lon c)) = lcache.put_all kvs (cache_add_locked name lat lon c)"
        using "1.IH"(2) [OF p s refl Some fx [symmetric] refl] by auto
      have "good_name name" using fpn_step_range [of p q name lat lon] s Some fx by (auto simp: good_name_def)
      with k s p Some fx show ?thesis
        by (intro exI [of _ "(name, (lat, lon)) # kvs"])
          (subst fpn_loop.simps, simp add: lcache.put_all_simps cache_put_pair)
    qed
  qed
qed

lemma lookup_stat [simp]: "learned_wp_lookup (c\<lparr>stat_fpn_parsed := k\<rparr>) name = learned_wp_lookup c name"
  by (simp add: learned_wp_lookup_def)

lemma cache_inv_stat [simp]: "cache_inv (c\<lparr>stat_fpn_parsed := k\<rparr>) = cache_inv c"
  by (simp add: cache_inv_def)


lemma plan_learned_facts:
  assumes "\<forall>w \<in> set ws. good_fix w" and "CHR '','' \<notin> set rest" and "length ws \<le> 4096"
  shows "fst (learned_wp_parse_fpn (concat (map fix_text ws) @ rest) learned_wp_empty) = int (length ws) \<and>
    learned_wp_lookup (snd (learned_wp_parse_fpn (concat (map fix_text ws) @ rest) learned_wp_empty)) name =
      map_of (map (\<lambda>w. (fx_name w, fix_coords w)) ws) name"
proof -
  let ?kvs = "map (\<lambda>w. (fx_name w, fix_coords w)) ws"
  have e: "learned_wp_lookup learned_wp_empty name = None" by (simp add: learned_wp_lookup_def learned_wp_empty_def)
  have "\<forall>(k, v) \<in> set ?kvs. good_name k" using assms(1) by (auto simp: good_name_def good_fix_def)
  moreover have "length ?kvs \<le> cache_room learned_wp_empty" using assms(3) by (simp add: cache_room_def learned_wp_empty_def)
  ultimately have get: "learned_wp_lookup (lcache.put_all ?kvs learned_wp_empty) name = map_of ?kvs name"
    using lcache.get_put_all [of ?kvs learned_wp_empty name] e by (simp add: cache_get_def)
  show ?thesis
  proof (cases "concat (map fix_text ws) @ rest = []")
    case True
    then have "ws = []" by (cases ws) (simp_all add: fix_text_def)
    with True e show ?thesis by (simp add: learned_wp_parse_fpn_def)
  next
    case False
    with fpn_loop_fixes [OF assms(1,2), of 0 learned_wp_empty] get show ?thesis
      unfolding learned_wp_parse_fpn_def Let_def by (simp only: if_False prod.case fst_conv snd_conv add_0) (simp only: lookup_stat split: if_split, simp)
  qed
qed

lemma plan_learned:
  assumes "\<forall>w \<in> set ws. good_fix w" and "CHR '','' \<notin> set rest" and "length ws \<le> 4096"
  shows "learned_wp_lookup (snd (learned_wp_parse_fpn (concat (map fix_text ws) @ rest) learned_wp_empty)) name =
      map_of (map (\<lambda>w. (fx_name w, fix_coords w)) ws) name"
  using plan_learned_facts [OF assms] by simp

section \<open>Properties\<close>

text \<open>
  C21: a flight plan is learned completely.  From a text of at most 4096 fixes in the form \<open>NAME,N34288W083591\<close>, each
  preceded by text without commas that does not end in a capital letter, the parser counts every fix, and
  afterwards a lookup finds exactly the names of the text, each with its first coordinates.
\<close>

theorem flight_plan_learned:
  assumes "\<forall>w \<in> set ws. good_fix w" and "CHR '','' \<notin> set rest" and "length ws \<le> 4096"
  shows "fst (learned_wp_parse_fpn (concat (map fix_text ws) @ rest) learned_wp_empty) = int (length ws) \<and>
    learned_wp_lookup (snd (learned_wp_parse_fpn (concat (map fix_text ws) @ rest) learned_wp_empty)) name =
      map_of (map (\<lambda>w. (fx_name w, fix_coords w)) ws) name"
  by (rule plan_learned_facts [OF assms])

theorem flight_plan_learned_witness:
  "fst (learned_wp_parse_fpn ''FPN/RI:F:TUPAC,N27060W084300:'' learned_wp_empty) = 1"
proof -
  let ?w = "\<lparr>fx_lead = ''FPN/RI:F:'', fx_name = ''TUPAC'', fx_south = False, fx_lat = (27, 60), fx_west = True, fx_lon = (84, 300)\<rparr>"
  have "fix_coords ?w \<noteq> (0, 0)" using dm_value_bounds(3) [of 27 60] by (auto simp: fix_coords_def signed_def)
  moreover have "\<not> is_upper (last (fx_lead ?w))" "list_all is_upper (fx_name ?w)" by code_simp+
  ultimately have "good_fix ?w" by (simp add: good_fix_def)
  moreover have "concat (map fix_text [?w]) @ '':'' = ''FPN/RI:F:TUPAC,N27060W084300:''" by code_simp
  ultimately show ?thesis
    using flight_plan_learned [of "[?w]" "'':''"] by simp
qed

text \<open>
  C23: the invariant of the cache.  Whatever text is parsed, names stay unique and between two and five
  letters long, coordinates stay in range, and the number of entries within the array.
\<close>

theorem learned_cache_invariant:
  assumes "cache_inv c"
  shows "cache_inv (snd (learned_wp_parse_fpn msg c))"
  using fpn_loop_inv [OF assms, of msg 0] assms
  by (auto simp: learned_wp_parse_fpn_def Let_def split: prod.split)

theorem learned_cache_invariant_witness: "cache_inv (snd (learned_wp_parse_fpn ''KDFW,N32540W097020'' learned_wp_empty))"
  by (rule learned_cache_invariant) (simp add: cache_inv_def learned_wp_empty_def)

text \<open>The first sighting of a fix is kept: no later message changes the coordinates a name has.\<close>

theorem first_sighting_kept:
  assumes "learned_wp_lookup c name = Some v"
  shows "learned_wp_lookup (snd (learned_wp_parse_fpn msg c)) name = Some v"
proof -
  obtain kvs where k: "\<forall>(k, v) \<in> set kvs. good_name k" "snd (fpn_loop msg 0 c) = lcache.put_all kvs c"
    using fpn_loop_puts by blast
  have "learned_wp_lookup (snd (fpn_loop msg 0 c)) name = Some v"
    using lcache.get_put_all_known [OF k(1)] assms by (simp add: k(2) cache_get_def)
  then show ?thesis using assms by (auto simp: learned_wp_parse_fpn_def Let_def split: prod.split)
qed

theorem first_sighting_kept_witness:
  "learned_wp_lookup (snd (learned_wp_parse_fpn ''TUPAC,N11111W011111''
      (learned_wp_empty\<lparr>cache := [\<lparr>le_ident = ''TUPAC'', le_lat = 27, le_lon = - 84, sightings = 1\<rparr>]\<rparr>))) ''TUPAC'' = Some (27, - 84)"
  by (rule first_sighting_kept) (simp add: learned_wp_lookup_def)

end
