(* ===== verification/AcarsPosition.thy ===== *)
theory AcarsPosition
  imports WaypointDb LearnedWaypoints
begin

text \<open>
  \<open>acars_position.c\<close>: the aircraft position and altitude in the text of an ACARS message, in the formats the program
  knows, and the fallback to waypoint names, which asks the waypoint table and then the learned cache.
  A result is the pair of coordinates in degrees.
\<close>

section \<open>Which messages carry a position\<close>

definition label_is :: "string \<Rightarrow> string \<Rightarrow> bool" where
  "label_is label0 s \<longleftrightarrow> deref label0 0 = s ! 0 \<and> deref label0 1 = s ! 1"

definition position_label :: "string \<Rightarrow> bool" where
  "position_label label0 \<longleftrightarrow> label_is label0 ''H1'' \<or> label_is label0 ''20'' \<or> label_is label0 ''44'' \<or>
     label_is label0 ''4J'' \<or> label_is label0 ''15'' \<or> label_is label0 ''SA''"

definition flight_plan :: "string \<Rightarrow> string \<Rightarrow> bool" where
  "flight_plan label0 msg \<longleftrightarrow> label_is label0 ''H1'' \<and> starts ''FPN'' msg"

section \<open>Coordinates\<close>

definition with_dir :: "char \<Rightarrow> char \<Rightarrow> dbl \<Rightarrow> dbl" where
  "with_dir neg_dir dir x = (if dir = neg_dir then dbl_neg x else x)"

text \<open>Format 1, \<open>POSN43312W123174\<close>: at most so many digits are taken.\<close>

definition digits_upto :: "nat \<Rightarrow> string \<Rightarrow> string" where
  "digits_upto n p = take n (takeWhile is_digit p)"

definition position_pos :: "string \<Rightarrow> (dbl \<times> dbl) option" where
  "position_pos msg =
     (case strstr msg ''POS'' of
        None \<Rightarrow> None
      | Some p0 \<Rightarrow>
          (let p1 = drop 3 p0; lat_dir = deref p1 0
           in if lat_dir \<noteq> CHR ''N'' \<and> lat_dir \<noteq> CHR ''S'' then None
              else (let p2 = tl p1; lat_digits = digits_upto 5 p2; p3 = drop (length lat_digits) p2; lon_dir = deref p3 0
                    in if length lat_digits \<noteq> 5 then None
                       else if lon_dir \<noteq> CHR ''E'' \<and> lon_dir \<noteq> CHR ''W'' then None
                       else (let p4 = tl p3; lon_digits = digits_upto 6 p4
                             in if length lon_digits \<noteq> 6 then None
                                else (let la = round64 (of_nat (digits_val lat_digits) / 1000);
                                          lo = round64 (of_nat (digits_val lon_digits) / 1000)
                                      in if 0 \<le> la \<and> la \<le> 90 \<and> 0 \<le> lo \<and> lo \<le> 180
                                         then Some (with_dir (CHR ''S'') lat_dir (Fin la), with_dir (CHR ''W'') lon_dir (Fin lo))
                                         else None)))))"

text \<open>Format 2, \<open>N33521W084123\<close>, tried at one place \<open>s\<close>, and the scan for it.\<close>

definition position_dm_at :: "string \<Rightarrow> (dbl \<times> dbl) option" where
  "position_dm_at s0 =
     (let lat_dir = deref s0 0; s = tl s0; n = length (takeWhile is_digit s); lon_dir = deref s n
      in if (lat_dir = CHR ''N'' \<or> lat_dir = CHR ''S'') \<and> is_digit (deref s 0) \<and> n = 5 \<and>
            (lon_dir = CHR ''E'' \<or> lon_dir = CHR ''W'')
         then (let lon_start = drop (n + 1) s; m = length (takeWhile is_digit lon_start)
               in if m = 6
                  then (let lat_deg = digits_val (take 2 s); lat_min10 = digits_val (take 3 (drop 2 s));
                            lon_deg = digits_val (take 3 lon_start); lon_min10 = digits_val (take 3 (drop 3 lon_start))
                        in if lat_deg \<le> 90 \<and> lat_min10 < 600 \<and> lon_deg \<le> 180 \<and> lon_min10 < 600
                           then Some (with_dir (CHR ''S'') lat_dir (Fin (round64 (of_nat lat_deg + round64 (of_nat lat_min10 / 600)))),
                                      with_dir (CHR ''W'') lon_dir (Fin (round64 (of_nat lon_deg + round64 (of_nat lon_min10 / 600)))))
                           else None)
                  else None)
         else None)"

fun position_dm :: "string \<Rightarrow> (dbl \<times> dbl) option" where
  "position_dm [] = None"
| "position_dm (c # s) = (case position_dm_at (c # s) of Some r \<Rightarrow> Some r | None \<Rightarrow> position_dm s)"

text \<open>Format 3, \<open>LAT N 33.917/LON W 77.988\<close>.\<close>

definition skip_blanks :: "string \<Rightarrow> string" where
  "skip_blanks p = dropWhile (\<lambda>c. c = CHR '' '') p"

definition position_tagged :: "string \<Rightarrow> (dbl \<times> dbl) option" where
  "position_tagged msg =
     (case strstr msg ''LAT'' of
        None \<Rightarrow> None
      | Some p0 \<Rightarrow>
          (let p1 = skip_blanks (drop 3 p0); lat_dir = deref p1 0
           in if lat_dir \<noteq> CHR ''N'' \<and> lat_dir \<noteq> CHR ''S'' then None
              else (case strtod (skip_blanks (tl p1)) of
                      None \<Rightarrow> None
                    | Some (la, end0) \<Rightarrow>
                        if \<not> dbl_between 0 90 la then None
                        else (case strstr end0 ''LON'' of
                                None \<Rightarrow> None
                              | Some lp0 \<Rightarrow>
                                  (let lp1 = skip_blanks (drop 3 lp0); lon_dir = deref lp1 0
                                   in if lon_dir \<noteq> CHR ''E'' \<and> lon_dir \<noteq> CHR ''W'' then None
                                      else (case strtod (skip_blanks (tl lp1)) of
                                              None \<Rightarrow> None
                                            | Some (lo, end1) \<Rightarrow>
                                                if \<not> dbl_between 0 180 lo then None
                                                else Some (with_dir (CHR ''S'') lat_dir la, with_dir (CHR ''W'') lon_dir lo)))))))"

definition acars_extract_text_position :: "string \<Rightarrow> string \<Rightarrow> (dbl \<times> dbl) option" where
  "acars_extract_text_position label0 msg =
     (if msg = [] then None
      else if \<not> position_label label0 then None
      else if flight_plan label0 msg then None
      else case position_pos msg of
             Some r \<Rightarrow> Some r
           | None \<Rightarrow> (case position_dm msg of Some r \<Rightarrow> Some r | None \<Rightarrow> position_tagged msg))"

section \<open>Altitude\<close>

definition three_digits :: "string \<Rightarrow> int" where
  "three_digits q = int (digits_val (take 3 q))"

text \<open>Format 1, \<open>FL350\<close>: every \<open>FL\<close> of the text in turn.\<close>

function altitude_fl :: "string \<Rightarrow> int option" where
  "altitude_fl msg =
     (case strstr msg ''FL'' of
        None \<Rightarrow> None
      | Some p \<Rightarrow>
          (let q = drop 2 p; fl = three_digits q
           in if is_digit (deref q 0) \<and> is_digit (deref q 1) \<and> is_digit (deref q 2) \<and> \<not> is_digit (deref q 3) \<and> 0 < fl \<and> fl < 600
              then Some (fl * 100)
              else altitude_fl q))"
  by pat_completeness auto

text \<open>Format 2, \<open>289F\<close> as a word of its own; the argument \<open>prev\<close> is the character before.\<close>

definition is_delimiter :: "char \<Rightarrow> bool" where
  "is_delimiter c \<longleftrightarrow> c \<in> {NUL, CHR ''.'', CHR '','', CHR '' '', CHR 0x0D, CHR 0x0A, CHR ''/''}"

fun altitude_nnnf :: "char option \<Rightarrow> string \<Rightarrow> int option" where
  "altitude_nnnf prev s =
     (if length s < 4 then None
      else if (let fl = three_digits s
               in is_digit (s ! 0) \<and> is_digit (s ! 1) \<and> is_digit (s ! 2) \<and> s ! 3 = CHR ''F'' \<and>
                  \<not> (prev \<noteq> None \<and> is_digit (the prev)) \<and> is_delimiter (deref s 4) \<and> 0 < fl \<and> fl < 600)
           then Some (three_digits s * 100)
           else altitude_nnnf (Some (s ! 0)) (tl s))"

text \<open>Format 3, \<open>ALT 35000\<close>: \<open>strtol\<close> takes all digits.\<close>

definition altitude_alt :: "string \<Rightarrow> int option" where
  "altitude_alt msg =
     (case strstr msg ''ALT'' of
        None \<Rightarrow> None
      | Some p0 \<Rightarrow>
          (let p = dropWhile (\<lambda>c. c = CHR '' '' \<or> c = CHR 0x09) (drop 3 p0)
           in if is_digit (deref p 0)
              then (let v = int (digits_val (takeWhile is_digit p)) in if 0 < v \<and> v < 60000 then Some v else None)
              else None))"

text \<open>Format 4, \<open>35000FT\<close>.\<close>

fun altitude_ft :: "char option \<Rightarrow> string \<Rightarrow> int option" where
  "altitude_ft prev s =
     (if length s < 6 then None
      else if (let v = int (digits_val (take 5 s))
               in is_digit (s ! 0) \<and> is_digit (s ! 1) \<and> is_digit (s ! 2) \<and> is_digit (s ! 3) \<and> is_digit (s ! 4) \<and>
                  s ! 5 = CHR ''F'' \<and> deref s 6 = CHR ''T'' \<and>
                  \<not> (prev \<noteq> None \<and> is_digit (the prev)) \<and> 0 < v \<and> v < 60000)
           then Some (int (digits_val (take 5 s)))
           else altitude_ft (Some (s ! 0)) (tl s))"

lemma strstr_length: "strstr s n = Some p \<Longrightarrow> length p \<le> length s"
  by (induction s n rule: strstr.induct) (auto split: if_splits)

lemma strstr_starts: "strstr s n = Some p \<Longrightarrow> starts n p"
  by (induction s n rule: strstr.induct) (auto simp: starts_def split: if_splits)

termination altitude_fl
proof (relation "measure length")
  fix msg p q fl assume p: "strstr msg ''FL'' = Some p" and q: "q = drop 2 p"
  have "take 2 p = ''FL''" using strstr_starts [OF p] by (simp add: starts_def numeral_2_eq_2)
  then have "length (take 2 p) = 2" by simp
  then have "2 \<le> length p" by simp
  with strstr_length [OF p] q show "(q, msg) \<in> measure length" by simp
qed simp

declare altitude_fl.simps [simp del]
declare altitude_nnnf.simps [simp del]
declare altitude_ft.simps [simp del]

definition acars_extract_text_altitude :: "string \<Rightarrow> int option" where
  "acars_extract_text_altitude msg =
     (if msg = [] then None
      else case altitude_fl msg of
             Some a \<Rightarrow> Some a
           | None \<Rightarrow> (case altitude_nnnf None msg of
               Some a \<Rightarrow> Some a
             | None \<Rightarrow> (case altitude_alt msg of Some a \<Rightarrow> Some a | None \<Rightarrow> altitude_ft None msg)))"

section \<open>Waypoint names\<close>

definition is_sep :: "char \<Rightarrow> bool" where
  "is_sep c \<longleftrightarrow> c \<in> {CHR '','', CHR '' '', CHR ''/'', CHR ''.''}"

definition ident_at :: "string \<Rightarrow> string option" where
  "ident_at scan =
     (if is_upper (deref scan 0) \<and> is_upper (deref scan 1) \<and> is_upper (deref scan 2) \<and> is_upper (deref scan 3) \<and>
         is_upper (deref scan 4) \<and> (is_sep (deref scan 5) \<or> deref scan 5 \<in> {NUL, CHR 0x0D, CHR 0x0A})
      then Some (take 5 scan) else None)"

definition fixed_position :: "rat \<times> rat \<Rightarrow> dbl \<times> dbl" where
  "fixed_position = (\<lambda>(lat, lon). (Fin lat, Fin lon))"

definition ident_lookup :: "wp_entry list \<Rightarrow> learned_cache \<Rightarrow> string \<Rightarrow> (dbl \<times> dbl) option" where
  "ident_lookup db c ident =
     (case waypoint_db_lookup db ident of
        Some r \<Rightarrow> Some r
      | None \<Rightarrow> map_option fixed_position (learned_wp_lookup c ident))"

function waypoint_scan :: "wp_entry list \<Rightarrow> learned_cache \<Rightarrow> string \<Rightarrow> (dbl \<times> dbl) option" where
  "waypoint_scan db c scan0 =
     (if scan0 = [] then None
      else (let scan1 = dropWhile (\<lambda>ch. \<not> is_sep ch) scan0;
                scan2 = dropWhile is_sep scan1;
                found = (case ident_at scan2 of None \<Rightarrow> None | Some ident \<Rightarrow> ident_lookup db c ident)
            in case found of
                 Some r \<Rightarrow> Some r
               | None \<Rightarrow> waypoint_scan db c (dropWhile (\<lambda>ch. \<not> is_sep ch) scan2)))"
  by pat_completeness auto

lemma waypoint_scan_progress:
  "s \<noteq> [] \<Longrightarrow> length (dropWhile (\<lambda>ch. \<not> P ch) (dropWhile P (dropWhile (\<lambda>ch. \<not> P ch) s))) < length s"
proof -
  assume s: "s \<noteq> []"
  let ?a = "dropWhile (\<lambda>ch. \<not> P ch) s" and ?b = "dropWhile P (dropWhile (\<lambda>ch. \<not> P ch) s)"
  have le: "length (dropWhile (\<lambda>ch. \<not> P ch) ?b) \<le> length ?b" "length ?b \<le> length ?a"
    by (rule length_dropWhile_le)+
  have "length ?b < length s"
  proof (cases "P (hd s)")
    case True
    then have "?a = s" using s by (cases s) auto
    then have "?b = dropWhile P (tl s)" using s True by (cases s) auto
    also have "length \<dots> \<le> length (tl s)" by (rule length_dropWhile_le)
    finally show ?thesis using s by (cases s) auto
  next
    case False
    then have "?a = dropWhile (\<lambda>ch. \<not> P ch) (tl s)" using s by (cases s) auto
    also have "length \<dots> \<le> length (tl s)" by (rule length_dropWhile_le)
    finally have "length ?a < length s" using s by (cases s) auto
    with le(2) show ?thesis by simp
  qed
  with le show ?thesis by simp
qed

termination waypoint_scan
  by (relation "measure (\<lambda>(db, c, s). length s)") (auto intro: waypoint_scan_progress)

declare waypoint_scan.simps [simp del]

definition acars_extract_waypoint_position ::
  "wp_entry list \<Rightarrow> learned_cache \<Rightarrow> string \<Rightarrow> string \<Rightarrow> (dbl \<times> dbl) option" where
  "acars_extract_waypoint_position db c label0 msg =
     (if msg = [] then None
      else if \<not> position_label label0 then None
      else if flight_plan label0 msg then None
      else waypoint_scan db c (if starts ''POS'' msg then drop 3 msg else msg))"

section \<open>Ranges\<close>

fun dbl_abs_less :: "rat \<Rightarrow> dbl \<Rightarrow> bool" where
  "dbl_abs_less b (Fin x) \<longleftrightarrow> \<bar>x\<bar> < b"
| "dbl_abs_less b _ \<longleftrightarrow> False"

lemma dbl_abs_less_dir: "dbl_abs_less b (with_dir d e x) = dbl_abs_less b x"
  by (cases x) (simp_all add: with_dir_def)

lemma dbl_between_abs: "dbl_between 0 90 x \<Longrightarrow> dbl_abs_less 91 x" "dbl_between 0 180 x \<Longrightarrow> dbl_abs_less 181 x"
  by (cases x; simp)+

lemma dm_range:
  assumes "deg \<le> d" "m < 600" "d \<le> 180"
  shows "dbl_abs_less (of_nat d + 1) (Fin (round64 (of_nat deg + round64 (of_nat m / 600))))"
proof -
  have "dm_value deg m < of_nat deg + 1" "0 \<le> dm_value deg m" using dm_value_bounds [of deg m] assms by simp_all
  moreover have "of_nat deg \<le> (of_nat d :: rat)" using assms(1) by simp
  ultimately show ?thesis by (simp add: dm_value_def)
qed

lemma result_option:
  "(\<And>y. x = Some y \<Longrightarrow> pred_option P (f y)) \<Longrightarrow> pred_option P (case x of None \<Rightarrow> None | Some y \<Rightarrow> f y)"
  by (cases x) auto

lemma result_if: "(\<not> c \<Longrightarrow> pred_option P a) \<Longrightarrow> pred_option P (if c then None else a)"
  by auto

lemma result_then: "(c \<Longrightarrow> pred_option P a) \<Longrightarrow> pred_option P (if c then a else None)"
  by auto

lemma result_prod: "(\<And>a b. x = (a, b) \<Longrightarrow> pred_option P (f a b)) \<Longrightarrow> pred_option P (case x of (a, b) \<Rightarrow> f a b)"
  by (cases x) auto

lemma option_pred_some: "pred_option P x \<Longrightarrow> x = Some y \<Longrightarrow> P y"
  by simp

lemmas result_intros = result_option result_if result_then result_prod

lemma position_dm_range: "pred_option (\<lambda>(la, lo). dbl_abs_less 91 la \<and> dbl_abs_less 181 lo) (position_dm msg)"
proof (induction msg)
  case (Cons c s)
  have "pred_option (\<lambda>(la, lo). dbl_abs_less 91 la \<and> dbl_abs_less 181 lo) (position_dm_at (c # s))"
    unfolding position_dm_at_def Let_def
    by (intro result_intros)
      (use dm_range [of _ 90] dm_range [of _ 180] in \<open>simp add: dbl_abs_less_dir del: dbl_abs_less.simps\<close>)
  with Cons show ?case by (cases "position_dm_at (c # s)") auto
qed simp

lemma position_tagged_range:
  "pred_option (\<lambda>(la, lo). dbl_abs_less 91 la \<and> dbl_abs_less 181 lo) (position_tagged msg)"
  unfolding position_tagged_def Let_def
  by (intro result_intros) (simp add: dbl_abs_less_dir dbl_between_abs)

lemma position_pos_range:
  "pred_option (\<lambda>(la, lo). dbl_abs_less 91 la \<and> dbl_abs_less 181 lo) (position_pos msg)"
  unfolding position_pos_def Let_def
  by (intro result_intros) (simp add: dbl_abs_less_dir)

lemma altitude_fl_range: "altitude_fl msg = Some a \<Longrightarrow> 0 < a \<and> a < 60000"
proof (induction msg rule: altitude_fl.induct)
  case (1 msg)
  show ?case
  proof (cases "strstr msg ''FL''")
    case (Some p)
    let ?fl = "three_digits (drop 2 p)"
    let ?c = "is_digit (deref (drop 2 p) 0) \<and> is_digit (deref (drop 2 p) 1) \<and> is_digit (deref (drop 2 p) 2) \<and>
      \<not> is_digit (deref (drop 2 p) 3) \<and> 0 < ?fl \<and> ?fl < 600"
    have eq: "altitude_fl msg = (if ?c then Some (?fl * 100) else altitude_fl (drop 2 p))"
      by (subst altitude_fl.simps) (simp only: Some option.case Let_def)
    show ?thesis
    proof (cases ?c)
      case True
      then have "a = ?fl * 100" using eq [unfolded if_P [OF True]] "1.prems" by simp
      with True show ?thesis by simp
    next
      case False
      then have "altitude_fl (drop 2 p) = Some a" using eq "1.prems" by (simp only: if_False)
      with False show ?thesis by (rule "1.IH" [OF Some refl refl])
    qed
  qed (use "1.prems" in \<open>simp add: altitude_fl.simps [of msg]\<close>)
qed

lemma altitude_nnnf_range: "altitude_nnnf prev s = Some a \<Longrightarrow> 0 < a \<and> a < 60000"
proof (induction s arbitrary: prev)
  case (Cons c s)
  show ?case
  proof (cases "altitude_nnnf (Some c) s = Some a")
    case False
    then show ?thesis using Cons.prems
      by (subst (asm) altitude_nnnf.simps) (simp only: Let_def list.sel nth_Cons_0 split: if_splits, auto)
  qed (rule Cons.IH)
qed (simp add: altitude_nnnf.simps)

lemma altitude_ft_range: "altitude_ft prev s = Some a \<Longrightarrow> 0 < a \<and> a < 60000"
proof (induction s arbitrary: prev)
  case (Cons c s)
  show ?case
  proof (cases "altitude_ft (Some c) s = Some a")
    case False
    then show ?thesis using Cons.prems
      by (subst (asm) altitude_ft.simps) (simp only: Let_def list.sel nth_Cons_0 split: if_splits, auto)
  qed (rule Cons.IH)
qed (simp add: altitude_ft.simps)

lemma altitude_alt_range: "altitude_alt msg = Some a \<Longrightarrow> 0 < a \<and> a < 60000"
  by (auto simp: altitude_alt_def Let_def split: option.splits if_splits)

section \<open>Position reports\<close>

lemma milli_range:
  assumes "n \<le> 1000 * d" and "d < 256"
  shows "0 \<le> round64 (of_nat n / 1000)" "d \<in> {90, 180} \<Longrightarrow> round64 (of_nat n / 1000) \<le> of_nat d"
proof -
  let ?x = "of_nat n / 1000 :: rat"
  show "0 \<le> round64 ?x" by (rule round64_nonneg) simp
  show "round64 ?x \<le> of_nat d" if d: "d \<in> {90, 180}"
  proof (cases "n = 1000 * d")
    case True
    then have "?x = of_nat d" by simp
    moreover have "round64 90 = 90" "round64 180 = 180" by code_simp+
    ultimately show ?thesis using d by auto
  next
    case False
    then have "n + 1 \<le> 1000 * d" using assms(1) by simp
    then have "of_nat (n + 1) \<le> (of_nat (1000 * d) :: rat)" by (simp only: of_nat_le_iff)
    then have x: "?x \<le> of_nat d - 1 / 1000" by simp
    have "of_nat d < (256 :: rat)" using assms(2) by simp
    then have "?x < pow2 8" using x by (simp add: pow2_def)
    then have "\<bar>round64 ?x - ?x\<bar> \<le> pow2 (8 - 54)" by (intro round64_error) simp_all
    then have "round64 ?x - ?x \<le> 1 / 2 ^ 46" unfolding pow2_def by (simp only: abs_le_iff) simp
    moreover have "(1 :: rat) / 2 ^ 46 \<le> 1 / 1000" by simp
    ultimately show ?thesis using x by linarith
  qed
qed

lemma digits_upto_exact: "list_all is_digit ds \<Longrightarrow> length ds = n \<Longrightarrow> digits_upto n (ds @ rest) = ds"
  by (auto simp: digits_upto_def takeWhile_append list_all_iff)

definition pos_report :: "bool \<Rightarrow> nat \<Rightarrow> bool \<Rightarrow> nat \<Rightarrow> string" where
  "pos_report south lat west lon =
     ''POS'' @ [if south then CHR ''S'' else CHR ''N''] @ pad_str 5 (int lat) @
     [if west then CHR ''W'' else CHR ''E''] @ pad_str 6 (int lon)"

lemma position_pos_report:
  assumes "lat \<le> 90000" and "lon \<le> 180000"
  shows "position_pos (pos_report south lat west lon @ rest) =
    Some (Fin (signed south (round64 (of_nat lat / 1000))), Fin (signed west (round64 (of_nat lon / 1000))))"
proof -
  let ?a = "pad_str 5 (int lat)" and ?b = "pad_str 6 (int lon)" 
  let ?ns = "if south then CHR ''S'' else CHR ''N''" and ?ew = "if west then CHR ''W'' else CHR ''E''"
  have a: "digits_val ?a = lat" "length ?a = 5" "list_all is_digit ?a" using digits_val_pad [of lat 5] assms(1) by simp_all
  have b: "digits_val ?b = lon" "length ?b = 6" "list_all is_digit ?b" using digits_val_pad [of lon 6] assms(2) by simp_all
  have s: "strstr (pos_report south lat west lon @ rest) ''POS'' = Some (''POS'' @ ?ns # ?a @ ?ew # ?b @ rest)"
    by (simp add: pos_report_def starts_def)
  have d: "drop 3 (''POS'' @ ?ns # ?a @ ?ew # ?b @ rest) = ?ns # ?a @ ?ew # ?b @ rest" by simp
  have f: "deref (c # p) 0 = c" "tl (c # p) = p" for c p by (simp_all add: deref_def)
  have u: "digits_upto 5 (?a @ ?ew # ?b @ rest) = ?a" "digits_upto 6 (?b @ rest) = ?b"
    by (rule digits_upto_exact; use a b in simp)+
  have e: "drop (length ?a) (?a @ ?ew # ?b @ rest) = ?ew # ?b @ rest" by simp
  show ?thesis
    unfolding position_pos_def s option.case Let_def d f u e
    using a b milli_range [of lat 90] milli_range [of lon 180] assms
    by (simp add: with_dir_def signed_def)
qed

lemma report_position:
  assumes "position_label label0" and "lat \<le> 90000" and "lon \<le> 180000"
  shows "acars_extract_text_position label0 (pos_report south lat west lon @ rest) =
    Some (Fin (signed south (round64 (of_nat lat / 1000))), Fin (signed west (round64 (of_nat lon / 1000))))"
proof -
  have "\<not> flight_plan label0 (pos_report south lat west lon @ rest)" "pos_report south lat west lon @ rest \<noteq> []"
    by (simp_all add: flight_plan_def starts_def pos_report_def)
  with position_pos_report [OF assms(2,3)] assms(1) show ?thesis by (simp add: acars_extract_text_position_def)
qed

section \<open>Waypoints\<close>

lemma waypoint_scan_source:
  "waypoint_scan db c s = Some r \<Longrightarrow> \<exists>pre ident post. s = pre @ ident @ post \<and> length ident = 5 \<and> list_all is_upper ident \<and>
     ident_lookup db c ident = Some r"
proof (induction db c s rule: waypoint_scan.induct)
  case (1 db c scan0)
  let ?scan1 = "dropWhile (\<lambda>ch. \<not> is_sep ch) scan0"
  let ?scan2 = "dropWhile is_sep ?scan1"
  let ?scan3 = "dropWhile (\<lambda>ch. \<not> is_sep ch) ?scan2"
  have suffix: "\<exists>pre. s = pre @ dropWhile P s" for P and s :: string by (metis takeWhile_dropWhile_id)
  from suffix [of scan0 "\<lambda>ch. \<not> is_sep ch"] suffix [of ?scan1 is_sep]
  obtain p1 p2 where p12: "scan0 = p1 @ ?scan1" "?scan1 = p2 @ ?scan2" by blast
  then have p: "scan0 = (p1 @ p2) @ ?scan2" by (metis append.assoc)
  from "1.prems" have ne: "scan0 \<noteq> []" by (subst (asm) waypoint_scan.simps) (simp split: if_splits)
  let ?found = "case ident_at ?scan2 of None \<Rightarrow> None | Some ident \<Rightarrow> ident_lookup db c ident"
  show ?case
  proof (cases ?found)
    case None
    with "1.prems" ne have r: "waypoint_scan db c ?scan3 = Some r"
      by (subst (asm) waypoint_scan.simps) (simp add: Let_def)
    from "1.IH" [OF ne refl refl refl None r] obtain pre ident post where
      i: "?scan3 = pre @ ident @ post" "length ident = 5" "list_all is_upper ident" "ident_lookup db c ident = Some r" by blast
    from suffix [of ?scan2 "\<lambda>ch. \<not> is_sep ch"] obtain p3 where "?scan2 = p3 @ ?scan3" by blast
    with p i(1) have "scan0 = (p1 @ p2 @ p3 @ pre) @ ident @ post" by (metis append.assoc)
    with i(2-4) show ?thesis by blast
  next
    case (Some r')
    with "1.prems" ne have "r' = r" by (subst (asm) waypoint_scan.simps) (simp add: Let_def)
    with Some obtain ident where i: "ident_at ?scan2 = Some ident" "ident_lookup db c ident = Some r"
      by (auto split: option.splits)
    have t: "ident = take 5 ?scan2" and u: "\<forall>k \<in> {0, 1, 2, 3, 4}. is_upper (deref ?scan2 k)"
      using i(1) by (auto simp: ident_at_def split: if_splits)
    have five: "k \<in> {0, 1, 2, 3, 4}" if "k < 5" for k :: nat using that by auto
    have "\<not> is_upper NUL" by (simp add: is_upper_def NUL_def)
    then have "4 < length ?scan2" using bspec [OF u, of 4] by (simp add: deref_def split: if_splits)
    then have l: "5 \<le> length ?scan2" by simp
    have "is_upper (?scan2 ! k)" if "k < 5" for k
      using bspec [OF u five [OF that]] that l by (simp add: deref_def)
    then have "list_all is_upper ident" using t l by (simp add: list_all_length)
    moreover have "scan0 = (p1 @ p2) @ ident @ drop 5 ?scan2" using p t by (metis append_take_drop_id)
    ultimately show ?thesis using i(2) l t by (metis length_take min.absorb2)
  qed
qed

lemma waypoint_scan_ident:
  assumes ident: "length ident = 5" "list_all is_upper ident" and rest: "rest = [] \<or> is_sep (hd rest)"
    and r: "ident_lookup db c ident = Some r"
  shows "waypoint_scan db c (CHR '','' # ident @ rest) = Some r"
proof -
  have sep: "is_sep (CHR '','')" by (simp add: is_sep_def)
  have u: "is_upper ch \<Longrightarrow> \<not> is_sep ch" for ch by (auto simp: is_sep_def is_upper_def)
  have ne: "ident @ rest \<noteq> []" using ident by auto
  have "is_upper (hd (ident @ rest))" using ident by (cases ident) auto
  with u have s2: "dropWhile is_sep (CHR '','' # ident @ rest) = ident @ rest"
    using sep ne by (cases "ident @ rest") auto
  have s1: "dropWhile (\<lambda>ch. \<not> is_sep ch) (CHR '','' # ident @ rest) = CHR '','' # ident @ rest" using sep by simp
  have k: "is_upper (deref (ident @ rest) k)" if "k < 5" for k
    using ident that by (simp add: deref_def nth_append list_all_length)
  have "is_sep (deref (ident @ rest) 5) \<or> deref (ident @ rest) 5 = NUL"
    using rest ident by (cases rest) (auto simp: deref_def nth_append)
  then have "ident_at (ident @ rest) = Some ident" using k [of 0] k [of 1] k [of 2] k [of 3] k [of 4] ident
    by (auto simp: ident_at_def)
  then show ?thesis using r by (subst waypoint_scan.simps) (simp only: s1 s2 Let_def option.case, simp)
qed

section \<open>Properties\<close>

text \<open>
  Every position taken from a message text is a finite pair of coordinates less than 91 and 181 degrees in
  size, whatever the text.
\<close>

theorem text_position_bounds:
  assumes "acars_extract_text_position label0 msg = Some (la, lo)"
  shows "dbl_abs_less 91 la \<and> dbl_abs_less 181 lo"
proof -
  have "pred_option (\<lambda>(la, lo). dbl_abs_less 91 la \<and> dbl_abs_less 181 lo) (acars_extract_text_position label0 msg)"
    unfolding acars_extract_text_position_def
    by (intro result_intros) (auto simp: position_tagged_range split: option.split
      dest: position_pos_range [THEN option_pred_some] position_dm_range [THEN option_pred_some])
  with assms show ?thesis by simp
qed

theorem text_position_bounds_witness:
  "dbl_abs_less 91 (Fin (signed False (round64 (of_nat 43312 / 1000)))) \<and>
    dbl_abs_less 181 (Fin (signed True (round64 (of_nat 123174 / 1000))))"
  by (rule text_position_bounds [OF report_position [of "''H1''" 43312 123174 _ _ "[]"]])
    (simp_all add: position_label_def label_is_def deref_def)


text \<open>
  C24: a position report \<open>POSN43312W123174\<close> on one of the position labels is read back: the coordinates are those
  written, in thousandths of a degree rounded to \<open>double\<close>, for every latitude up to 90 and longitude up to 180 degrees.
\<close>

theorem position_report_roundtrip:
  assumes "position_label label0" and "lat \<le> 90000" and "lon \<le> 180000"
  shows "acars_extract_text_position label0 (pos_report south lat west lon @ rest) =
    Some (Fin (signed south (round64 (of_nat lat / 1000))), Fin (signed west (round64 (of_nat lon / 1000))))"
  by (rule report_position [OF assms])

theorem position_report_roundtrip_witness:
  "acars_extract_text_position ''20'' (pos_report False 43312 True 123174 @ '',TUPAC'') =
    Some (Fin (signed False (round64 (of_nat 43312 / 1000))), Fin (signed True (round64 (of_nat 123174 / 1000))))"
  by (rule position_report_roundtrip) (simp_all add: position_label_def label_is_def deref_def)

text \<open>An altitude taken from a text is positive and below 60000 feet.\<close>

theorem text_altitude_bounds:
  assumes "acars_extract_text_altitude msg = Some a"
  shows "0 < a \<and> a < 60000"
  using assms altitude_fl_range altitude_nnnf_range altitude_alt_range altitude_ft_range
  unfolding acars_extract_text_altitude_def by (auto split: if_splits option.splits)

theorem text_altitude_bounds_witness: "(0 :: int) < 28900 \<and> (28900 :: int) < 60000"
  by (rule text_altitude_bounds [of "''/TUPAC,289F''"])
    (simp add: acars_extract_text_altitude_def altitude_fl.simps altitude_nnnf.simps starts_def is_digit_def three_digits_def
      digits_val_def digit_val_def deref_def is_delimiter_def)






end
