(* ===== verification/Vita49.thy ===== *)
theory Vita49
  imports CStrings
begin

text \<open>
  \<open>vita49.c\<close>: what the receiver thread makes of a datagram.  The VRL wrapper, the VRT header, context packets, the
  sequence counter and the conversion of the payload to samples; sockets are not modelled.  A read outside
  the datagram is \<^const>\<open>None\<close>.
\<close>

section \<open>Words of a packet\<close>

text \<open>\<open>ntohl\<close> of the four bytes at an offset; the bits \<open>[sh, sh + n)\<close> of a word.\<close>

definition be32 :: "u8 list \<Rightarrow> nat \<Rightarrow> nat option" where
  "be32 buf off =
     (if off + 4 \<le> length buf
      then Some (unat (buf ! off) * 2 ^ 24 + unat (buf ! (off + 1)) * 2 ^ 16 + unat (buf ! (off + 2)) * 2 ^ 8 + unat (buf ! (off + 3)))
      else None)"

definition bits :: "nat \<Rightarrow> nat \<Rightarrow> nat \<Rightarrow> nat" where
  "bits sh n w = w div 2 ^ sh mod 2 ^ n"

section \<open>Wrapper and header\<close>

text \<open>The offset of the VRT packet and the length without the trailer.\<close>

definition vrl_strip :: "u8 list \<Rightarrow> nat \<Rightarrow> (nat \<times> nat) option" where
  "vrl_strip pkt pkt_len =
     (if 12 \<le> pkt_len then do { w0 \<leftarrow> be32 pkt 0; Some (if w0 = 0x56524C50 then (8, pkt_len - 4) else (0, pkt_len)) }
      else Some (0, pkt_len))"

text \<open>The result \<open>-1\<close> of \<open>vrt_parse_header\<close> is the inner \<^const>\<open>None\<close>.\<close>

definition vrt_parse_header :: "u8 list \<Rightarrow> (nat \<times> nat) option option" where
  "vrt_parse_header pkt =
     (if length pkt < 4 then Some None
      else do {
        (vrl_off, pkt_len) \<leftarrow> vrl_strip pkt (length pkt);
        w0 \<leftarrow> be32 pkt vrl_off;
        let pkt_type = bits 28 4 w0; class_id = bits 27 1 w0; trailer = bits 26 1 w0;
            tsi = bits 22 2 w0; tsf = bits 20 2 w0; pkt_size_w = bits 0 16 w0;
            vrt_len = pkt_len - vrl_off; pkt_size_bytes = pkt_size_w * 4;
            hdr_words = 1 + (if pkt_type = 1 then 1 else 0) + (if class_id \<noteq> 0 then 2 else 0) +
                        (if tsi \<noteq> 0 then 1 else 0) + (if tsf \<noteq> 0 then 2 else 0);
            trailer_words = (if trailer \<noteq> 0 then 1 else 0)
        in Some (if pkt_type \<noteq> 0 \<and> pkt_type \<noteq> 1 then None
                 else if vrt_len < pkt_size_bytes \<or> pkt_size_bytes < 4 then None
                 else if pkt_size_w \<le> hdr_words + trailer_words then None
                 else Some (vrl_off + hdr_words * 4, (pkt_size_w - hdr_words - trailer_words) * 4)) })"

section \<open>Context packets\<close>

datatype cif_field = CifOther | CifRfRefFreq | CifSampleRate

text \<open>The indicator bits, from the highest, with the number of words of their field.\<close>

definition cif_fields :: "(nat \<times> nat \<times> cif_field) list" where
  "cif_fields = [(31, 1, CifOther), (30, 1, CifOther), (29, 2, CifOther), (28, 2, CifOther), (27, 2, CifRfRefFreq),
     (26, 2, CifOther), (25, 2, CifOther), (24, 1, CifOther), (23, 1, CifOther), (22, 1, CifOther), (21, 2, CifSampleRate)]"

definition read_be64 :: "u8 list \<Rightarrow> nat \<Rightarrow> nat option" where
  "read_be64 buf off = do { hi \<leftarrow> be32 buf off; lo \<leftarrow> be32 buf (off + 4); Some (hi * 2 ^ 32 + lo) }"

text \<open>A 64-bit fixed-point number with 20 fraction bits, as a \<open>double\<close>.\<close>

definition fixed20 :: "nat \<Rightarrow> rat" where
  "fixed20 val = round64 (of_int (if val < 2 ^ 63 then int val else int val - 2 ^ 64)) / 2 ^ 20"

text \<open>
  The loop over the fields: the reports for the RF frequency and the sample rate.  A field that does not fit
  ends the handler; the inner \<^const>\<open>None\<close>.
\<close>

type_synonym report = "rat option \<times> rat option"

fun cif_loop :: "u8 list \<Rightarrow> nat \<Rightarrow> nat \<Rightarrow> (nat \<times> nat \<times> cif_field) list \<Rightarrow> nat \<Rightarrow> report \<Rightarrow> report option option" where
  "cif_loop vrt pkt_size_w cif0 [] off_w r = Some (Some r)"
| "cif_loop vrt pkt_size_w cif0 ((b, nwords, f) # fs) off_w (rf, sr) =
     (if bits b 1 cif0 = 0 then cif_loop vrt pkt_size_w cif0 fs off_w (rf, sr)
      else if pkt_size_w < off_w + nwords then Some None
      else (case f of
              CifOther \<Rightarrow> cif_loop vrt pkt_size_w cif0 fs (off_w + nwords) (rf, sr)
            | CifRfRefFreq \<Rightarrow> read_be64 vrt (off_w * 4) \<bind> (\<lambda>val. cif_loop vrt pkt_size_w cif0 fs (off_w + nwords) (Some (fixed20 val), sr))
            | CifSampleRate \<Rightarrow> read_be64 vrt (off_w * 4) \<bind> (\<lambda>val. cif_loop vrt pkt_size_w cif0 fs (off_w + nwords) (rf, Some (fixed20 val)))))"

text \<open>
  \<open>vrt_handle_context\<close>: the report that is printed, if any.  \<open>ctx_logged\<close> is set with the first report and
  suppresses all later ones.
\<close>

definition vrt_handle_context :: "u8 list \<Rightarrow> bool \<Rightarrow> (report option \<times> bool) option" where
  "vrt_handle_context vrt ctx_logged =
     (if length vrt < 8 then Some (None, ctx_logged)
      else do {
        w0 \<leftarrow> be32 vrt 0;
        let class_id = bits 27 1 w0; tsi = bits 22 2 w0; tsf = bits 20 2 w0; pkt_size_w = bits 0 16 w0;
            off_w = 2 + (if class_id \<noteq> 0 then 2 else 0) + (if tsi \<noteq> 0 then 1 else 0) + (if tsf \<noteq> 0 then 2 else 0)
        in if length vrt < pkt_size_w * 4 \<or> pkt_size_w < 2 then Some (None, ctx_logged)
           else if pkt_size_w \<le> off_w then Some (None, ctx_logged)
           else do {
             cif0 \<leftarrow> be32 vrt (off_w * 4);
             r \<leftarrow> cif_loop vrt pkt_size_w cif0 cif_fields (off_w + 1) (None, None);
             Some (case r of
                     None \<Rightarrow> (None, ctx_logged)
                   | Some (rf, sr) \<Rightarrow>
                       if rf = None \<and> sr = None then (None, ctx_logged)
                       else if ctx_logged then (None, ctx_logged)
                       else (Some (rf, sr), True)) } })"

section \<open>Datagrams\<close>

datatype iq_format = FMT_CI8 | FMT_CU8 | FMT_CI16 | FMT_CF32

text \<open>Samples as the pipeline takes them: pairs of signed bytes, or of binary32 patterns in host order.\<close>

datatype sample_buf = Int8Samples "i8 list" | FloatSamples "nat list"

record vita49_state =
  last_count :: nat
  have_count :: bool
  logged :: bool
  total_pkts :: nat
  skipped_pkts :: nat
  gap_pkts :: nat

definition vita49_init :: vita49_state where
  "vita49_init = \<lparr>last_count = 0, have_count = False, logged = False, total_pkts = 0, skipped_pkts = 0, gap_pkts = 0\<rparr>"

fun be32_list :: "u8 list \<Rightarrow> nat \<Rightarrow> nat \<Rightarrow> nat list option" where
  "be32_list buf off 0 = Some []"
| "be32_list buf off (Suc n) = do { w \<leftarrow> be32 buf off; ws \<leftarrow> be32_list buf (off + 4) n; Some (w # ws) }"

text \<open>The high byte of each big-endian 16-bit number.\<close>

fun high_bytes :: "u8 list \<Rightarrow> nat \<Rightarrow> nat \<Rightarrow> i8 list option" where
  "high_bytes buf off 0 = Some []"
| "high_bytes buf off (Suc n) =
     (if off + 2 \<le> length buf then map_option ((#) (buf ! off)) (high_bytes buf (off + 2) n) else None)"

definition convert_payload :: "iq_format \<Rightarrow> u8 list \<Rightarrow> nat \<Rightarrow> nat \<Rightarrow> sample_buf option option" where
  "convert_payload fmt pkt off n =
     (case fmt of
        FMT_CF32 \<Rightarrow> if n div 8 = 0 then Some None else map_option (Some \<circ> FloatSamples) (be32_list pkt off (n div 8 * 2))
      | FMT_CI16 \<Rightarrow> if n div 4 = 0 then Some None else map_option (Some \<circ> Int8Samples) (high_bytes pkt off (n div 4 * 2))
      | _ \<Rightarrow> if n div 2 = 0 then Some None
                  else map_option (Some \<circ> Int8Samples) (rd_block pkt (int off) (int (n div 2 * 2))))"

definition is_context :: "u8 list \<Rightarrow> bool option" where
  "is_context pkt = do {
     (ctx_off, ctx_len) \<leftarrow> vrl_strip pkt (length pkt);
     if ctx_off + 4 < ctx_len
     then do { cw0 \<leftarrow> be32 pkt ctx_off; Some (bits 28 4 cw0 = 4 \<or> bits 28 4 cw0 = 5) }
     else Some False }"

text \<open>One round of the receive loop: the state, and the samples pushed into the pipeline.\<close>

definition vita49_packet :: "iq_format \<Rightarrow> u8 list \<Rightarrow> vita49_state \<Rightarrow> (vita49_state \<times> sample_buf option) option" where
  "vita49_packet fmt pkt st = do {
     ctx \<leftarrow> is_context pkt;
     if ctx
     then do {
       (ctx_off, ctx_len) \<leftarrow> vrl_strip pkt (length pkt);
       (r, lg) \<leftarrow> vrt_handle_context (take (ctx_len - ctx_off) (drop ctx_off pkt)) (logged st);
       Some (st\<lparr>logged := lg\<rparr>, None) }
     else do {
       hdr \<leftarrow> vrt_parse_header pkt;
       (case hdr of
          None \<Rightarrow> Some (st\<lparr>skipped_pkts := skipped_pkts st + 1\<rparr>, None)
        | Some (payload_off, payload_bytes) \<Rightarrow> do {
            w \<leftarrow> be32 pkt 0;
            w0_seq \<leftarrow> be32 pkt (if w = 0x56524C50 then 8 else 0);
            let count = bits 16 4 w0_seq;
                gap = have_count st \<and> count \<noteq> (last_count st + 1) mod 16;
                st' = st\<lparr>last_count := count, have_count := True, total_pkts := total_pkts st + 1,
                         gap_pkts := gap_pkts st + (if gap then 1 else 0)\<rparr>
            in map_option (\<lambda>s. (st', s)) (convert_payload fmt pkt payload_off payload_bytes) }) } }"

section \<open>No read outside the datagram\<close>

lemma be32_Some: "off + 4 \<le> length buf \<Longrightarrow> \<exists>w. be32 buf off = Some w"
  by (simp add: be32_def)

lemma read_be64_Some: "off + 8 \<le> length buf \<Longrightarrow> \<exists>w. read_be64 buf off = Some w"
  using be32_Some [of off buf] be32_Some [of "off + 4" buf] by (auto simp: read_be64_def)

lemma vrl_strip_result:
  "vrl_strip pkt (length pkt) = Some (0, length pkt) \<or>
     12 \<le> length pkt \<and> be32 pkt 0 = Some 0x56524C50 \<and> vrl_strip pkt (length pkt) = Some (8, length pkt - 4)"
proof (cases "12 \<le> length pkt")
  case True
  then obtain w where "be32 pkt 0 = Some w" using be32_Some [of 0 pkt] by auto
  with True show ?thesis by (auto simp: vrl_strip_def)
qed (simp add: vrl_strip_def)

text \<open>What the header parser accepts: the payload lies inside the datagram, in whole words.\<close>

lemma vrt_parse_header_range:
  "\<exists>r. vrt_parse_header pkt = Some r \<and>
    (case r of None \<Rightarrow> True | Some (off, n) \<Rightarrow> 4 \<le> off \<and> 0 < n \<and> off + n \<le> length pkt \<and> n mod 4 = 0 \<and>
       (be32 pkt 0 = Some 0x56524C50 \<longrightarrow> 12 \<le> length pkt))"
proof (cases "length pkt < 4")
  case False
  obtain off len where s: "vrl_strip pkt (length pkt) = Some (off, len)" "off + 4 \<le> length pkt" "len \<le> length pkt"
    and vrl: "be32 pkt 0 = Some 0x56524C50 \<Longrightarrow> off = 0 \<Longrightarrow> length pkt < 12"
  proof (cases "12 \<le> length pkt \<and> be32 pkt 0 = Some 0x56524C50")
    case True
    then have "vrl_strip pkt (length pkt) = Some (8, length pkt - 4)" by (simp add: vrl_strip_def)
    with True that show ?thesis by auto
  next
    case f: False
    with vrl_strip_result [of pkt] have "vrl_strip pkt (length pkt) = Some (0, length pkt)" by auto
    with f False that show ?thesis by auto
  qed
  obtain w0 where w0: "be32 pkt off = Some w0" using be32_Some [OF s(2)] by auto
  have "12 \<le> length pkt" if "be32 pkt 0 = Some 0x56524C50" "bits 28 4 w0 = 0 \<or> bits 28 4 w0 = 1"
  proof (rule ccontr)
    assume "\<not> 12 \<le> length pkt"
    then have "off = 0" using s(1) by (simp add: vrl_strip_def)
    with that w0 show False by (auto simp: bits_def)
  qed
  with s w0 False show ?thesis
    by (auto simp: vrt_parse_header_def Let_def algebra_simps)
qed (simp add: vrt_parse_header_def)

lemma cif_loop_safe:
  assumes "pkt_size_w * 4 \<le> length vrt" and "\<forall>(b, n, f) \<in> set fs. f \<noteq> CifOther \<longrightarrow> n = 2"
  shows "\<exists>x. cif_loop vrt pkt_size_w cif0 fs off_w r = Some x"
  using assms(2)
proof (induction fs arbitrary: off_w r)
  case (Cons fl fs)
  obtain b n f where fl: "fl = (b, n, f)" by (cases fl)
  obtain rf sr where r: "r = (rf, sr)" by fastforce
  have IH: "\<exists>x. cif_loop vrt pkt_size_w cif0 fs o' r' = Some x" for o' r' using Cons by simp
  have read: "\<exists>v. read_be64 vrt (off_w * 4) = Some v" if "\<not> pkt_size_w < off_w + n" "n = 2"
    using that assms(1) by (intro read_be64_Some) linarith
  show ?case
  proof (cases "bits b 1 cif0 = 0 \<or> pkt_size_w < off_w + n")
    case True
    then show ?thesis using IH by (auto simp: fl r)
  next
    case False
    then show ?thesis using IH read Cons.prems by (cases f) (auto simp: fl r)
  qed
qed (cases r, simp)

lemma vrt_handle_context_safe: "\<exists>x. vrt_handle_context vrt lg = Some x"
proof (cases "length vrt < 8")
  case False
  then obtain w0 where w0: "be32 vrt 0 = Some w0" using be32_Some [of 0 vrt] by auto
  define size where "size = bits 0 16 w0"
  define off_w :: nat where "off_w = 2 + (if bits 27 1 w0 \<noteq> 0 then 2 else 0) + (if bits 22 2 w0 \<noteq> 0 then 1 else 0) +
    (if bits 20 2 w0 \<noteq> 0 then 2 else 0)"
  note eq = vrt_handle_context_def [of vrt lg, unfolded w0 Option.bind.bind_lunit Let_def, folded size_def off_w_def]
  show ?thesis
  proof (cases "length vrt < size * 4 \<or> size < 2 \<or> size \<le> off_w")
    case False
    then have "off_w * 4 + 4 \<le> length vrt" by linarith
    then obtain cif0 where c: "be32 vrt (off_w * 4) = Some cif0" using be32_Some by blast
    have "\<exists>x. cif_loop vrt size cif0 cif_fields (off_w + 1) (None, None) = Some x"
      by (rule cif_loop_safe) (use False in \<open>auto simp: cif_fields_def\<close>)
    with c \<open>\<not> length vrt < 8\<close> show ?thesis unfolding eq by (auto split: if_splits)
  qed (use eq \<open>\<not> length vrt < 8\<close> in auto)
qed (simp add: vrt_handle_context_def)

lemma be32_list_Some: "off + 4 * n \<le> length buf \<Longrightarrow> \<exists>ws. be32_list buf off n = Some ws"
proof (induction n arbitrary: off)
  case (Suc n)
  from Suc.prems have l: "off + 4 + 4 * n \<le> length buf" "off + 4 \<le> length buf" by simp_all
  from Suc.IH [OF l(1)] be32_Some [OF l(2)] show ?case by auto
qed simp

lemma high_bytes_Some: "off + 2 * n \<le> length buf \<Longrightarrow> high_bytes buf off n = Some (map (\<lambda>i. buf ! (off + 2 * i)) [0..<n])"
proof (induction n arbitrary: off)
  case (Suc n)
  have "map (\<lambda>i. buf ! (off + 2 * i)) [0..<Suc n] = buf ! off # map (\<lambda>i. buf ! (off + 2 + 2 * i)) [0..<n]"
    by (simp add: upt_conv_Cons map_Suc_upt [symmetric] comp_def del: upt_Suc)
  with Suc show ?case by simp
qed simp

lemma convert_payload_safe: "off + n \<le> length pkt \<Longrightarrow> \<exists>s. convert_payload fmt pkt off n = Some s"
proof -
  assume l: "off + n \<le> length pkt"
  have "off + 4 * (n div 8 * 2) \<le> length pkt" "off + 2 * (n div 4 * 2) \<le> length pkt" "off + n div 2 * 2 \<le> length pkt"
    using l div_times_less_eq_dividend [of n 8] div_times_less_eq_dividend [of n 4] div_times_less_eq_dividend [of n 2]
    by linarith+
  then show ?thesis
    using be32_list_Some [of off "n div 8 * 2" pkt] high_bytes_Some [of off "n div 4 * 2" pkt]
      rd_block_Some [of "int off" "int (n div 2 * 2)" pkt]
    by (cases fmt) (auto simp: convert_payload_def)
qed

lemma is_context_safe: "\<exists>c. is_context pkt = Some c"
  using vrl_strip_result [of pkt] be32_Some [of 0 pkt] be32_Some [of 8 pkt]
  by (cases "is_context pkt") (auto simp: is_context_def split: if_splits)

lemma vita49_packet_total: "\<exists>r. vita49_packet fmt pkt st = Some r"
proof -
  obtain ctx where ctx: "is_context pkt = Some ctx" using is_context_safe by blast
  obtain coff clen where s: "vrl_strip pkt (length pkt) = Some (coff, clen)" using vrl_strip_result [of pkt] by blast
  show ?thesis
  proof (cases ctx)
    case True
    obtain r lg where "vrt_handle_context (take (clen - coff) (drop coff pkt)) (logged st) = Some (r, lg)"
      using vrt_handle_context_safe [of "take (clen - coff) (drop coff pkt)" "logged st"] by auto
    with ctx s True show ?thesis by (simp add: vita49_packet_def)
  next
    case False
    obtain hdr where h: "vrt_parse_header pkt = Some hdr"
      and hr: "case hdr of None \<Rightarrow> True | Some (off, n) \<Rightarrow> 4 \<le> off \<and> 0 < n \<and> off + n \<le> length pkt \<and> n mod 4 = 0 \<and>
       (be32 pkt 0 = Some 0x56524C50 \<longrightarrow> 12 \<le> length pkt)"
      using vrt_parse_header_range [of pkt] by blast
    show ?thesis
    proof (cases hdr)
      case None
      with ctx False h show ?thesis by (simp add: vita49_packet_def)
    next
      case (Some p)
      obtain off n where p: "p = (off, n)" by fastforce
      with Some hr have l: "4 \<le> off" "off + n \<le> length pkt" "be32 pkt 0 = Some 0x56524C50 \<Longrightarrow> 12 \<le> length pkt" by auto
      then obtain w where w: "be32 pkt 0 = Some w" using be32_Some [of 0 pkt] by auto
      have "(if w = 0x56524C50 then 8 else 0) + 4 \<le> length pkt" using l w by auto
      then obtain w2 where w2: "be32 pkt (if w = 0x56524C50 then 8 else 0) = Some w2" using be32_Some by blast
      obtain s2 where "convert_payload fmt pkt off n = Some s2" using convert_payload_safe l(2) by blast
      with ctx False h Some p w w2 show ?thesis by (simp add: vita49_packet_def Let_def)
    qed
  qed
qed


section \<open>Round trip\<close>

text \<open>A sender: the word as big-endian bytes, the first word of a packet, the packet, and the VRL wrapper.\<close>

definition word_bytes :: "nat \<Rightarrow> u8 list" where
  "word_bytes w = [of_nat (w div 2 ^ 24), of_nat (w div 2 ^ 16 mod 256), of_nat (w div 2 ^ 8 mod 256), of_nat (w mod 256)]"

record vrt_packet =
  vp_sid :: bool
  vp_class :: bool
  vp_tsi :: nat
  vp_tsf :: nat
  vp_count :: nat
  vp_fields :: "u8 list" \<comment> \<open>stream id, class id and timestamps\<close>
  vp_payload :: "u8 list"
  vp_trailer :: "u8 list"

definition vp_size :: "vrt_packet \<Rightarrow> nat" where
  "vp_size p = 1 + (length (vp_fields p) + length (vp_payload p) + length (vp_trailer p)) div 4"

definition vp_word :: "vrt_packet \<Rightarrow> nat" where
  "vp_word p = ((((((of_bool (vp_sid p) * 2 + of_bool (vp_class p)) * 2 + of_bool (vp_trailer p \<noteq> [])) * 16 + vp_tsi p) * 4 +
     vp_tsf p) * 16) + vp_count p) * 65536 + vp_size p"

definition vp_bytes :: "vrt_packet \<Rightarrow> u8 list" where
  "vp_bytes p = word_bytes (vp_word p) @ vp_fields p @ vp_payload p @ vp_trailer p"

definition vrl_wrap :: "u8 list \<Rightarrow> u8 list \<Rightarrow> u8 list \<Rightarrow> u8 list" where
  "vrl_wrap frame_word vrt crc = word_bytes 0x56524C50 @ frame_word @ vrt @ crc"

definition vp_wf :: "vrt_packet \<Rightarrow> bool" where
  "vp_wf p \<longleftrightarrow> vp_tsi p < 4 \<and> vp_tsf p < 4 \<and> vp_count p < 16 \<and> vp_size p < 65536 \<and>
     length (vp_fields p) = 4 * (of_bool (vp_sid p) + 2 * of_bool (vp_class p) + of_bool (vp_tsi p \<noteq> 0) + 2 * of_bool (vp_tsf p \<noteq> 0)) \<and>
     0 < length (vp_payload p) \<and> length (vp_payload p) mod 4 = 0 \<and>
     (vp_trailer p = [] \<or> length (vp_trailer p) = 4)"

lemma be32_word_bytes: "w < 2 ^ 32 \<Longrightarrow> be32 (pre @ word_bytes w @ rest) (length pre) = Some w"
proof -
  assume w: "w < 2 ^ 32"
  have u: "unat (of_nat x :: u8) = x" if "x < 256" for x using that by (simp add: unat_of_nat)
  have "w div 2 ^ 24 < 256" using w by (simp add: less_mult_imp_div_less)
  moreover have "w div 2 ^ 24 * 2 ^ 24 + w div 2 ^ 16 mod 256 * 2 ^ 16 + w div 2 ^ 8 mod 256 * 2 ^ 8 + w mod 256 = w"
  proof -
    have "w = w div 256 * 256 + w mod 256" "w div 256 = w div 256 div 256 * 256 + w div 256 mod 256"
      "w div 256 div 256 = w div 256 div 256 div 256 * 256 + w div 256 div 256 mod 256" by simp_all
    moreover have "w div 2 ^ 8 = w div 256" "w div 2 ^ 16 = w div 256 div 256" "w div 2 ^ 24 = w div 256 div 256 div 256"
      by (simp_all add: div_mult2_eq [symmetric])
    moreover have "(2 :: nat) ^ 24 = 16777216" "(2 :: nat) ^ 16 = 65536" "(2 :: nat) ^ 8 = 256" by simp_all
    ultimately show ?thesis by (simp only:)
  qed
  ultimately show ?thesis by (simp add: be32_def word_bytes_def u nth_append)
qed

lemma bits_at: "w = (hi * 2 ^ n + x) * 2 ^ sh + low \<Longrightarrow> x < 2 ^ n \<Longrightarrow> low < 2 ^ sh \<Longrightarrow> bits sh n w = x"
  by (simp add: bits_def)

lemma vp_word_bits:
  assumes "vp_tsi p < 4" "vp_tsf p < 4" "vp_count p < 16" "vp_size p < 65536"
  shows "vp_word p < 2 ^ 29" "bits 28 4 (vp_word p) = of_bool (vp_sid p)" "bits 27 1 (vp_word p) = of_bool (vp_class p)"
    "bits 26 1 (vp_word p) = of_bool (vp_trailer p \<noteq> [])" "bits 22 2 (vp_word p) = vp_tsi p" "bits 20 2 (vp_word p) = vp_tsf p"
    "bits 16 4 (vp_word p) = vp_count p" "bits 0 16 (vp_word p) = vp_size p"
proof -
  define s :: nat where "s = of_bool (vp_sid p)"
  define c :: nat where "c = of_bool (vp_class p)"
  define t :: nat where "t = of_bool (vp_trailer p \<noteq> [])"
  have b: "s < 2" "c < 2" "t < 2" by (simp_all add: s_def c_def t_def)
  have w: "vp_word p = s * 2 ^ 28 + c * 2 ^ 27 + t * 2 ^ 26 + vp_tsi p * 2 ^ 22 + vp_tsf p * 2 ^ 20 + vp_count p * 2 ^ 16 + vp_size p"
    by (simp add: vp_word_def s_def [symmetric] c_def [symmetric] t_def [symmetric])
  show "vp_word p < 2 ^ 29" unfolding w using assms b by simp
  show "bits 28 4 (vp_word p) = of_bool (vp_sid p)" unfolding s_def [symmetric]
    by (rule bits_at [of _ 0 _ _ _ "c * 2 ^ 27 + t * 2 ^ 26 + vp_tsi p * 2 ^ 22 + vp_tsf p * 2 ^ 20 + vp_count p * 2 ^ 16 + vp_size p"])
      (use assms b in \<open>simp_all add: w\<close>)
  show "bits 27 1 (vp_word p) = of_bool (vp_class p)" unfolding c_def [symmetric]
    by (rule bits_at [of _ s _ _ _ "t * 2 ^ 26 + vp_tsi p * 2 ^ 22 + vp_tsf p * 2 ^ 20 + vp_count p * 2 ^ 16 + vp_size p"])
      (use assms b in \<open>simp_all add: w\<close>)
  show "bits 26 1 (vp_word p) = of_bool (vp_trailer p \<noteq> [])" unfolding t_def [symmetric]
    by (rule bits_at [of _ "s * 2 + c" _ _ _ "vp_tsi p * 2 ^ 22 + vp_tsf p * 2 ^ 20 + vp_count p * 2 ^ 16 + vp_size p"])
      (use assms b in \<open>simp_all add: w\<close>)
  show "bits 22 2 (vp_word p) = vp_tsi p"
    by (rule bits_at [of _ "s * 16 + c * 8 + t * 4" _ _ _ "vp_tsf p * 2 ^ 20 + vp_count p * 2 ^ 16 + vp_size p"])
      (use assms b in \<open>simp_all add: w\<close>)
  show "bits 20 2 (vp_word p) = vp_tsf p"
    by (rule bits_at [of _ "s * 64 + c * 32 + t * 16 + vp_tsi p" _ _ _ "vp_count p * 2 ^ 16 + vp_size p"])
      (use assms b in \<open>simp_all add: w\<close>)
  show "bits 16 4 (vp_word p) = vp_count p"
    by (rule bits_at [of _ "s * 256 + c * 128 + t * 64 + vp_tsi p * 4 + vp_tsf p" _ _ _ "vp_size p"])
      (use assms b in \<open>simp_all add: w\<close>)
  show "bits 0 16 (vp_word p) = vp_size p"
    by (rule bits_at [of _ "s * 4096 + c * 2048 + t * 1024 + vp_tsi p * 64 + vp_tsf p * 16 + vp_count p" _ _ _ 0])
      (use assms b in \<open>simp_all add: w\<close>)
qed


lemma div_mod_4: "n mod 4 = 0 \<Longrightarrow> (4 * k + n) div 4 * 4 = 4 * k + (n :: nat)"
  by presburger

lemma vp_size_bytes: "vp_wf p \<Longrightarrow> length (vp_bytes p) = vp_size p * 4"
proof -
  assume p: "vp_wf p"
  obtain k where k: "length (vp_fields p) = 4 * k" using p unfolding vp_wf_def by blast
  obtain m where m: "length (vp_payload p) = 4 * m" using p by (auto simp: vp_wf_def elim: dvdE)
  obtain j where j: "length (vp_trailer p) = 4 * j" using p by (auto simp: vp_wf_def)
  have "(4 * k + 4 * m + 4 * j) div 4 = k + m + j" by (simp add: algebra_simps flip: distrib_left)
  then show ?thesis by (simp add: vp_bytes_def vp_size_def word_bytes_def k m j)
qed

definition vp_hdr :: "vrt_packet \<Rightarrow> nat" where
  "vp_hdr p = 4 + length (vp_fields p)"

lemma vrt_parse_header_built:
  assumes p: "vp_wf p" and len: "length pkt = length pre + length (vp_bytes p) + k" and pkt: "pkt = pre @ vp_bytes p @ post"
    and strip: "vrl_strip pkt (length pkt) = Some (length pre, length pre + length (vp_bytes p))"
  shows "vrt_parse_header pkt = Some (Some (length pre + vp_hdr p, length (vp_payload p)))"
proof -
  have wf: "vp_tsi p < 4" "vp_tsf p < 4" "vp_count p < 16" "vp_size p < 65536" using p by (simp_all add: vp_wf_def)
  note b = vp_word_bits [OF wf]
  have w: "be32 pkt (length pre) = Some (vp_word p)"
    unfolding pkt vp_bytes_def append_assoc by (rule be32_word_bytes) (use b(1) in simp)
  have l: "length (vp_bytes p) = vp_size p * 4" by (rule vp_size_bytes [OF p])
  have sz: "vp_size p * 4 = 4 + length (vp_fields p) + length (vp_payload p) + length (vp_trailer p)"
    unfolding l [symmetric] by (simp add: vp_bytes_def word_bytes_def)
  have f: "length (vp_fields p) = 4 * (of_bool (vp_sid p) + 2 * of_bool (vp_class p) + of_bool (vp_tsi p \<noteq> 0) + 2 * of_bool (vp_tsf p \<noteq> 0))"
    and pl: "0 < length (vp_payload p)" "length (vp_payload p) mod 4 = 0"
    and tr: "vp_trailer p = [] \<or> length (vp_trailer p) = 4" using p by (simp_all add: vp_wf_def)
  define h where "h = 1 + (if vp_sid p then 1 else 0) + (if vp_class p then 2 else 0) + (if vp_tsi p \<noteq> 0 then 1 else 0) +
    (if vp_tsf p \<noteq> 0 then 2 else (0 :: nat))"
  have h: "4 + length (vp_fields p) = h * 4" unfolding f h_def by auto
  define tw where "tw = (if vp_trailer p \<noteq> [] then 1 else (0 :: nat))"
  have t: "length (vp_trailer p) = tw * 4" using tr by (auto simp: tw_def)
  have pw: "length (vp_payload p) = (vp_size p - h - tw) * 4" "h + tw < vp_size p"
    using sz h t pl by linarith+
  have sid: "(if bits 28 4 (vp_word p) = 1 then 1 else 0) = (if vp_sid p then 1 else (0 :: nat))"
    "bits 28 4 (vp_word p) \<noteq> 0 \<and> bits 28 4 (vp_word p) \<noteq> 1 \<longleftrightarrow> False"
    "bits 27 1 (vp_word p) \<noteq> 0 \<longleftrightarrow> vp_class p" "bits 26 1 (vp_word p) \<noteq> 0 \<longleftrightarrow> vp_trailer p \<noteq> []"
    unfolding b by simp_all
  have "\<not> length pkt < 4" using len l sz by simp
  moreover have "\<not> (length pre + length (vp_bytes p) - length pre < vp_size p * 4 \<or> vp_size p * 4 < 4)" using l sz by simp
  ultimately show ?thesis
    unfolding vrt_parse_header_def strip Option.bind.bind_lunit prod.case w Let_def sid b(5-8)
    unfolding h_def [symmetric] tw_def [symmetric]
    using pw h by (simp add: vp_hdr_def)
qed

lemma vp_payload_at: "take (length (vp_payload p)) (drop (vp_hdr p) (vp_bytes p)) = vp_payload p"
proof -
  have "length (word_bytes (vp_word p)) = 4" by (simp add: word_bytes_def)
  then show ?thesis by (simp add: vp_bytes_def vp_hdr_def)
qed

lemma vrl_strip_plain:
  assumes "vp_wf p" shows "vrl_strip (vp_bytes p) (length (vp_bytes p)) = Some (0, length (vp_bytes p))"
proof -
  have "vp_word p < 2 ^ 29" using vp_word_bits(1) [of p] assms by (simp add: vp_wf_def)
  moreover from this have "be32 (vp_bytes p) 0 = Some (vp_word p)"
    using be32_word_bytes [of "vp_word p" "[]"] by (simp add: vp_bytes_def)
  ultimately show ?thesis by (simp add: vrl_strip_def)
qed

lemma vrl_strip_wrapped:
  assumes "length fw = 4" "length crc = 4"
  shows "vrl_strip (vrl_wrap fw vrt crc) (length (vrl_wrap fw vrt crc)) = Some (8, 8 + length vrt)"
  using assms be32_word_bytes [of "0x56524C50" "[]" "fw @ vrt @ crc"] by (simp add: vrl_strip_def vrl_wrap_def word_bytes_def)

section \<open>The sequence counter\<close>

fun run_packets :: "iq_format \<Rightarrow> u8 list list \<Rightarrow> vita49_state \<Rightarrow> (vita49_state \<times> sample_buf list) option" where
  "run_packets fmt [] st = Some (st, [])"
| "run_packets fmt (p # ps) st = do {
     (st1, s) \<leftarrow> vita49_packet fmt p st;
     (st2, ss) \<leftarrow> run_packets fmt ps st1;
     Some (st2, (case s of None \<Rightarrow> ss | Some b \<Rightarrow> b # ss)) }"

text \<open>The packets that are missing between consecutive counters.\<close>

fun count_gaps :: "nat list \<Rightarrow> nat" where
  "count_gaps (a # b # cs) = (if b \<noteq> (a + 1) mod 16 then 1 else 0) + count_gaps (b # cs)"
| "count_gaps cs = 0"

lemma not_context:
  assumes p: "vp_wf p"
  shows "is_context (vp_bytes p) = Some False"
proof -
  have b: "vp_word p < 2 ^ 29" "bits 28 4 (vp_word p) = of_bool (vp_sid p)"
    using vp_word_bits(1,2) [of p] p by (simp_all add: vp_wf_def)
  have "be32 (vp_bytes p) 0 = Some (vp_word p)"
    using be32_word_bytes [of "vp_word p" "[]"] b by (simp add: vp_bytes_def)
  then show ?thesis using vrl_strip_plain [OF p] b(2) by (auto simp: is_context_def)
qed

lemma vita49_packet_built:
  assumes p: "vp_wf p"
  shows "vita49_packet FMT_CI8 (vp_bytes p) st =
    Some (st\<lparr>last_count := vp_count p, have_count := True, total_pkts := total_pkts st + 1,
             gap_pkts := gap_pkts st + (if have_count st \<and> vp_count p \<noteq> (last_count st + 1) mod 16 then 1 else 0)\<rparr>,
          Some (Int8Samples (vp_payload p)))"
proof -
  have h: "vrt_parse_header (vp_bytes p) = Some (Some (vp_hdr p, length (vp_payload p)))"
    using vrt_parse_header_built [OF p, of "vp_bytes p" "[]" 0 "[]"] vrl_strip_plain [OF p] by simp
  have b: "vp_word p < 2 ^ 29" "bits 16 4 (vp_word p) = vp_count p"
    using vp_word_bits(1,7) [of p] p by (simp_all add: vp_wf_def)
  have w: "be32 (vp_bytes p) 0 = Some (vp_word p)"
    using be32_word_bytes [of "vp_word p" "[]"] b by (simp add: vp_bytes_def)
  have w0: "vp_word p \<noteq> 0x56524C50" using b(1) by auto
  have pl: "0 < length (vp_payload p)" "length (vp_payload p) mod 4 = 0" using p by (simp_all add: vp_wf_def)
  then have n: "length (vp_payload p) div 2 * 2 = length (vp_payload p)" "length (vp_payload p) div 2 \<noteq> 0"
    by presburger+
  have c: "convert_payload FMT_CI8 (vp_bytes p) (vp_hdr p) (length (vp_payload p)) = Some (Some (Int8Samples (vp_payload p)))"
    unfolding convert_payload_def iq_format.case if_not_P [OF n(2)] n(1)
    by (subst rd_block_Some) (simp_all add: vp_payload_at, simp add: vp_hdr_def vp_bytes_def word_bytes_def)
  show ?thesis
    unfolding vita49_packet_def not_context [OF p] h
    by (simp add: Let_def w w0 b(2) c)
qed

lemma run_packets_built:
  assumes "\<forall>p \<in> set ps. vp_wf p"
  shows "\<exists>st'. run_packets FMT_CI8 (map vp_bytes ps) st = Some (st', map (\<lambda>p. Int8Samples (vp_payload p)) ps) \<and>
    total_pkts st' = total_pkts st + length ps \<and> skipped_pkts st' = skipped_pkts st \<and>
    gap_pkts st' = gap_pkts st + count_gaps ((if have_count st then [last_count st] else []) @ map vp_count ps)"
  using assms
proof (induction ps arbitrary: st)
  case (Cons p ps)
  define st1 where "st1 = st\<lparr>last_count := vp_count p, have_count := True, total_pkts := total_pkts st + 1,
     gap_pkts := gap_pkts st + (if have_count st \<and> vp_count p \<noteq> (last_count st + 1) mod 16 then 1 else 0)\<rparr>"
  have 1: "vita49_packet FMT_CI8 (vp_bytes p) st = Some (st1, Some (Int8Samples (vp_payload p)))"
    unfolding st1_def by (rule vita49_packet_built) (use Cons.prems in simp)
  from Cons.IH [of st1] Cons.prems obtain st' where
    "run_packets FMT_CI8 (map vp_bytes ps) st1 = Some (st', map (\<lambda>p. Int8Samples (vp_payload p)) ps)"
    "total_pkts st' = total_pkts st1 + length ps" "skipped_pkts st' = skipped_pkts st1"
    "gap_pkts st' = gap_pkts st1 + count_gaps ([last_count st1] @ map vp_count ps)" by (auto simp: st1_def)
  with 1 show ?case by (cases "have_count st") (auto simp: st1_def)
qed simp

section \<open>Properties\<close>

text \<open>
  C27: whatever bytes a datagram holds, handling it reads nothing outside of it: neither the wrapper, the header and
  the context fields nor the payload.
\<close>

theorem vita49_memory_safe: "\<exists>st' s. vita49_packet fmt pkt st = Some (st', s)"
  using vita49_packet_total [of fmt pkt st] by auto

text \<open>
  C28: the header parser finds the payload of a signal data packet, with any combination of stream id, class
  id, timestamps and trailer, also inside a VRL wrapper.
\<close>

theorem vrl_packet_roundtrip:
  assumes "vp_wf p" and "length fw = 4" and "length crc = 4"
  shows "\<exists>off. vrt_parse_header (vrl_wrap fw (vp_bytes p) crc) = Some (Some (off, length (vp_payload p))) \<and>
    take (length (vp_payload p)) (drop off (vrl_wrap fw (vp_bytes p) crc)) = vp_payload p"
proof (intro exI conjI)
  have w: "vrl_wrap fw (vp_bytes p) crc = (word_bytes 0x56524C50 @ fw) @ vp_bytes p @ crc" by (simp add: vrl_wrap_def)
  have l: "length (word_bytes 0x56524C50 @ fw) = 8" using assms(2) by (simp add: word_bytes_def)
  have vl: "length (vrl_wrap fw (vp_bytes p) crc) = 8 + length (vp_bytes p) + 4" unfolding w using l assms(3) by simp
  show "vrt_parse_header (vrl_wrap fw (vp_bytes p) crc) = Some (Some (8 + vp_hdr p, length (vp_payload p)))"
    using vrt_parse_header_built [OF assms(1) _ w, of 4] vrl_strip_wrapped [OF assms(2,3), of "vp_bytes p"] l vl by simp
  have "drop (8 + vp_hdr p) (vrl_wrap fw (vp_bytes p) crc) = drop (vp_hdr p) (vp_bytes p @ crc)"
    unfolding w using l by (simp add: drop_append)
  moreover have "vp_hdr p \<le> length (vp_bytes p)" by (simp add: vp_hdr_def vp_bytes_def word_bytes_def)
  moreover have "length (vp_payload p) \<le> length (vp_bytes p) - vp_hdr p" by (simp add: vp_hdr_def vp_bytes_def word_bytes_def)
  ultimately show "take (length (vp_payload p)) (drop (8 + vp_hdr p) (vrl_wrap fw (vp_bytes p) crc)) = vp_payload p"
    using vp_payload_at [of p] by (simp add: take_append)
qed

theorem vrl_packet_roundtrip_witness:
  "let p = \<lparr>vp_sid = True, vp_class = False, vp_tsi = 1, vp_tsf = 0, vp_count = 5, vp_fields = replicate 8 0,
            vp_payload = [1, 2, 3, 4], vp_trailer = []\<rparr>
   in \<exists>off. vrt_parse_header (vrl_wrap [0, 0, 0, 0] (vp_bytes p) [9, 9, 9, 9]) = Some (Some (off, 4))"
  using vrl_packet_roundtrip [of "\<lparr>vp_sid = True, vp_class = False, vp_tsi = 1, vp_tsf = 0, vp_count = 5, vp_fields = replicate 8 0,
            vp_payload = [1, 2, 3, 4], vp_trailer = []\<rparr>" "[0, 0, 0, 0]" "[9, 9, 9, 9]"]
  by (auto simp: Let_def vp_wf_def vp_size_def)

text \<open>
  C29: a stream of signal data packets.  Every packet's payload is pushed, in order and unchanged (in the byte
  format), every packet is counted, and the gap counter counts exactly the places where the four-bit
  sequence number does not follow its predecessor.
\<close>

theorem vita49_stream:
  assumes "\<forall>p \<in> set ps. vp_wf p"
  shows "\<exists>st'. run_packets FMT_CI8 (map vp_bytes ps) vita49_init = Some (st', map (\<lambda>p. Int8Samples (vp_payload p)) ps) \<and>
    total_pkts st' = length ps \<and> skipped_pkts st' = 0 \<and> gap_pkts st' = count_gaps (map vp_count ps)"
  using run_packets_built [OF assms, of vita49_init] by (simp add: vita49_init_def)

theorem vita49_stream_witness:
  "\<exists>st'. run_packets FMT_CI8 (map (\<lambda>c. vp_bytes \<lparr>vp_sid = False, vp_class = False, vp_tsi = 0, vp_tsf = 0, vp_count = c, vp_fields = [],
            vp_payload = [1, 2, 3, 4], vp_trailer = []\<rparr>) [15, 0, 2]) vita49_init = Some (st', [Int8Samples [1, 2, 3, 4], Int8Samples [1, 2, 3, 4], Int8Samples [1, 2, 3, 4]]) \<and>
    gap_pkts st' = 1"
  using vita49_stream [of "map (\<lambda>c. \<lparr>vp_sid = False, vp_class = False, vp_tsi = 0, vp_tsf = 0, vp_count = c, vp_fields = [],
            vp_payload = [1, 2, 3, 4], vp_trailer = []\<rparr>) [15, 0, 2]"]
  by (simp add: vp_wf_def vp_size_def del: run_packets.simps) blast

end
