(* ===== verification/AircraftDb.thy ===== *)
theory AircraftDb
  imports CStrings
begin

text \<open>
  \<open>aircraft_db.c\<close>: the aircraft database, a table sorted by registration with an index sorted by ICAO address,
  and the text fields in one growing buffer that the entries point into.  Memory allocation is taken to
  succeed; the download is not modelled.
\<close>

section \<open>The string buffer\<close>

text \<open>Appending a string gives its index, \<open>-1\<close> for an absent or empty one.\<close>

definition strings_add :: "string option \<Rightarrow> string \<Rightarrow> int \<times> string" where
  "strings_add s buf = (case s of None \<Rightarrow> (- 1, buf) | Some t \<Rightarrow> if t = [] then (- 1, buf) else (int (length buf), buf @ t @ [NUL]))"

definition strings_get :: "string \<Rightarrow> int \<Rightarrow> string option" where
  "strings_get buf idx = (if 0 \<le> idx then Some (c_str (drop (nat idx) buf)) else None)"

section \<open>Registrations\<close>

text \<open>The loop of \<open>normalize_reg\<close>, with room for so many characters.\<close>

fun normalize_loop :: "nat \<Rightarrow> string \<Rightarrow> string" where
  "normalize_loop 0 s = []"
| "normalize_loop (Suc n) [] = []"
| "normalize_loop (Suc n) (c # s) =
     (if c = CHR ''-'' \<or> c = CHR '' '' then normalize_loop (Suc n) s else toupper_c c # normalize_loop n s)"

definition normalize_reg :: "string \<Rightarrow> nat \<Rightarrow> string" where
  "normalize_reg src dstlen = normalize_loop (dstlen - 1) (dropWhile (\<lambda>c. c = CHR ''.'') src)"

section \<open>Loading\<close>

record db_entry =
  reg :: string
  hex :: string
  type_idx :: int
  desc_idx :: int
  op_idx :: int

record aircraft_db =
  db :: "db_entry list"
  strings :: string
  by_hex :: "nat list"

definition aircraft_db_empty :: aircraft_db where
  "aircraft_db_empty = \<lparr>db = [], strings = [], by_hex = []\<rparr>"

text \<open>The fields of a line: at most \<open>n\<close>, the last one unsplit, with the end of line cut off.\<close>

definition cut_at :: "char \<Rightarrow> string \<Rightarrow> string" where
  "cut_at c s = takeWhile (\<lambda>d. d \<noteq> c) s"

fun split_fields :: "nat \<Rightarrow> string \<Rightarrow> string list" where
  "split_fields 0 s = [cut_at (CHR 0x0D) (cut_at (CHR 0x0A) s)]"
| "split_fields (Suc n) s =
     (case split_at (CHR '';'') s of
        None \<Rightarrow> [cut_at (CHR 0x0D) (cut_at (CHR 0x0A) s)]
      | Some (a, b) \<Rightarrow> a # split_fields n b)"

definition field :: "string list \<Rightarrow> nat \<Rightarrow> string option" where
  "field fs i = (if i < length fs then Some (fs ! i) else None)"

definition is_hex_address :: "string \<Rightarrow> bool" where
  "is_hex_address s \<longleftrightarrow> length s = 6 \<and> list_all is_hex s"

text \<open>One line: it is skipped, or adds an entry and its strings.\<close>

definition load_line :: "string \<Rightarrow> db_entry list \<times> string \<Rightarrow> db_entry list \<times> string" where
  "load_line line = (\<lambda>(entries, buf0).
     let fields = split_fields 7 line; hex_field = fields ! 0
     in if \<not> is_hex_address hex_field then (entries, buf0)
        else (case field fields 1 of
                None \<Rightarrow> (entries, buf0)
              | Some reg_field \<Rightarrow>
                  if reg_field = [] then (entries, buf0)
                  else (let r = normalize_reg reg_field 12
                        in if r = [] then (entries, buf0)
                           else (let (ti, buf1) = strings_add (field fields 2) buf0;
                                     (di, buf2) = strings_add (field fields 4) buf1;
                                     (oi, buf3) = strings_add (field fields 6) buf2
                                 in (entries @ [\<lparr>reg = r, hex = map toupper_c hex_field, type_idx = ti, desc_idx = di, op_idx = oi\<rparr>],
                                     buf3)))))"

text \<open>
  \<open>aircraft_db_load\<close> on the contents of the file, with the two sorts (of entries by registration, of indices
  by the address they point to).
\<close>

definition aircraft_db_load ::
  "(db_entry list \<Rightarrow> db_entry list) \<Rightarrow> (db_entry list \<Rightarrow> nat list \<Rightarrow> nat list) \<Rightarrow> string option \<Rightarrow> aircraft_db \<Rightarrow> int \<times> aircraft_db" where
  "aircraft_db_load qsort_reg qsort_hex file d =
     (case file of
        None \<Rightarrow> (- 1, d)
      | Some content \<Rightarrow>
          (let (entries, buf) = fold load_line (file_lines 1023 content) ([], []);
               sorted_db = qsort_reg entries
           in (int (length entries), \<lparr>db = sorted_db, strings = buf, by_hex = qsort_hex sorted_db [0..<length entries]\<rparr>)))"

section \<open>Lookup\<close>

definition reg_search :: "db_entry list \<Rightarrow> string \<Rightarrow> db_entry option" where
  "reg_search entries key = bsearch (\<lambda>e. strcmp key (reg e)) entries"

definition aircraft_db_lookup :: "aircraft_db \<Rightarrow> string \<Rightarrow> string option" where
  "aircraft_db_lookup d registration =
     (if db d = [] \<or> registration = [] then None
      else (let norm = normalize_reg registration 12
            in if norm = [] then None else map_option hex (reg_search (db d) norm)))"

record aircraft_info =
  registration :: string
  ac_type :: "string option"
  description :: "string option"
  operator_ :: "string option"

text \<open>The binary search over the index.\<close>

function hex_loop :: "db_entry list \<Rightarrow> nat list \<Rightarrow> string \<Rightarrow> int \<Rightarrow> int \<Rightarrow> nat option" where
  "hex_loop entries index key lo hi =
     (if lo \<le> hi then
        (let mid = (lo + hi) div 2; cmp = strcmp (hex (entries ! (index ! nat mid))) key
         in if cmp = 0 then Some (index ! nat mid)
            else if cmp < 0 then hex_loop entries index key (mid + 1) hi
            else hex_loop entries index key lo (mid - 1))
      else None)"
  by pat_completeness auto

termination
  by (relation "measure (\<lambda>(entries, index, key, lo, hi). nat (hi + 1 - lo))") auto

declare hex_loop.simps [simp del]

definition hex_search :: "db_entry list \<Rightarrow> nat list \<Rightarrow> string \<Rightarrow> nat option" where
  "hex_search entries index key = hex_loop entries index key 0 (int (length index) - 1)"

definition entry_info :: "string \<Rightarrow> db_entry \<Rightarrow> aircraft_info" where
  "entry_info buf e = \<lparr>registration = reg e, ac_type = strings_get buf (type_idx e),
     description = strings_get buf (desc_idx e), operator_ = strings_get buf (op_idx e)\<rparr>"

text \<open>
  The key is a buffer of six characters of which only those of the argument are written: an argument shorter
  than six characters makes the comparison read uninitialised bytes, the outer \<^const>\<open>None\<close>.
\<close>

definition aircraft_db_lookup_by_hex :: "aircraft_db \<Rightarrow> string \<Rightarrow> aircraft_info option option" where
  "aircraft_db_lookup_by_hex d hex6 =
     (if length hex6 < 6 \<and> db d \<noteq> [] then None
      else Some (map_option (\<lambda>i. entry_info (strings d) (db d ! i)) (hex_search (db d) (by_hex d) (map toupper_c (take 6 hex6)))))"

definition aircraft_db_lookup_by_aes :: "aircraft_db \<Rightarrow> u32 \<Rightarrow> aircraft_info option option" where
  "aircraft_db_lookup_by_aes d aes_id = aircraft_db_lookup_by_hex d (snprintf 7 (hex_pad 6 (unat (aes_id AND 0xFFFFFF))))"

section \<open>The string buffer keeps its strings\<close>

text \<open>
  A store that hands out references: what was added is found under its reference, also after more was added.
  \<open>norm\<close> is what the store makes of a value.
\<close>

locale arena =
  fixes add :: "'v \<Rightarrow> 's \<Rightarrow> 'i \<times> 's" and get :: "'s \<Rightarrow> 'i \<Rightarrow> 'v" and norm :: "'v \<Rightarrow> 'v"
    and ok :: "'v \<Rightarrow> bool" and live :: "'s \<Rightarrow> 'i \<Rightarrow> bool"
  assumes add_live: "ok v \<Longrightarrow> add v s = (i, s') \<Longrightarrow> live s' i \<and> get s' i = norm v"
    and add_stable: "ok v \<Longrightarrow> add v s = (i, s') \<Longrightarrow> live s j \<Longrightarrow> live s' j \<and> get s' j = get s j"
begin

lemma add_three:
  assumes "ok u" "ok v" "ok w" "add u s = (i, s1)" "add v s1 = (j, s2)" "add w s2 = (k, s3)"
  shows "live s3 i \<and> live s3 j \<and> live s3 k \<and> get s3 i = norm u \<and> get s3 j = norm v \<and> get s3 k = norm w"
  using add_live [OF assms(1,4)] add_live [OF assms(2,5)] add_live [OF assms(3,6)]
    add_stable [OF assms(2,5)] add_stable [OF assms(3,6)] by metis

lemma stable_three:
  assumes "ok u" "ok v" "ok w" "add u s = (i, s1)" "add v s1 = (j, s2)" "add w s2 = (k, s3)" "live s l"
  shows "live s3 l \<and> get s3 l = get s l"
  using add_stable [OF assms(1,4,7)] add_stable [OF assms(2,5)] add_stable [OF assms(3,6)] by metis

end

definition some_text :: "string option \<Rightarrow> string option" where
  "some_text v = (if v = Some [] then None else v)"

definition plain_text :: "string option \<Rightarrow> bool" where
  "plain_text v \<longleftrightarrow> (case v of None \<Rightarrow> True | Some t \<Rightarrow> NUL \<notin> set t)"

definition live_string :: "string \<Rightarrow> int \<Rightarrow> bool" where
  "live_string buf i \<longleftrightarrow> i = - 1 \<or> (0 \<le> i \<and> nat i < length buf \<and> NUL \<in> set (drop (nat i) buf))"

lemma c_str_append: "NUL \<in> set s \<Longrightarrow> c_str (s @ t) = c_str s"
  by (simp add: c_str_def takeWhile_append1)

lemma c_str_terminated: "NUL \<notin> set t \<Longrightarrow> c_str (t @ NUL # rest) = t"
  by (auto simp: c_str_def takeWhile_append)

interpretation strbuf: arena strings_add strings_get some_text plain_text live_string
proof
  fix v s i s' j
  assume v: "plain_text v" and add: "strings_add v s = (i, s')"
  show "live_string s' i \<and> strings_get s' i = some_text v"
    using v add by (auto simp: strings_add_def strings_get_def some_text_def plain_text_def live_string_def c_str_terminated
      split: option.splits if_splits)
  assume j: "live_string s j"
  have "\<exists>t. s' = s @ t" using add by (auto simp: strings_add_def split: option.splits if_splits)
  then show "live_string s' j \<and> strings_get s' j = strings_get s j"
    using j by (auto simp: live_string_def strings_get_def c_str_append)
qed

section \<open>The table of a file\<close>

text \<open>What a line says of an aircraft: the address, and the information.\<close>

definition aircraft_of_line :: "string \<Rightarrow> (string \<times> aircraft_info) option" where
  "aircraft_of_line line =
     (let fields = split_fields 7 line
      in if \<not> is_hex_address (fields ! 0) then None
         else (case field fields 1 of
                 None \<Rightarrow> None
               | Some reg_field \<Rightarrow>
                   if normalize_reg reg_field 12 = [] then None
                   else Some (map toupper_c (fields ! 0),
                     \<lparr>registration = normalize_reg reg_field 12, ac_type = some_text (field fields 2),
                      description = some_text (field fields 4), operator_ = some_text (field fields 6)\<rparr>)))"

definition live_entry :: "string \<Rightarrow> db_entry \<Rightarrow> bool" where
  "live_entry buf e \<longleftrightarrow> live_string buf (type_idx e) \<and> live_string buf (desc_idx e) \<and> live_string buf (op_idx e)"

definition view :: "string \<Rightarrow> db_entry \<Rightarrow> string \<times> aircraft_info" where
  "view buf e = (hex e, entry_info buf e)"

lemma normalize_empty: "normalize_reg [] n = []"
  by (cases "n - 1") (simp_all add: normalize_reg_def)

lemma split_at_set: "split_at c s = Some (a, b) \<Longrightarrow> set a \<subseteq> set s \<and> set b \<subseteq> set s"
proof -
  assume s: "split_at c s = Some (a, b)"
  then have "a = takeWhile (\<lambda>d. d \<noteq> c) s" "b = tl (dropWhile (\<lambda>d. d \<noteq> c) s)"
    by (auto simp: split_at_def split: if_splits)
  moreover have "set (tl xs) \<subseteq> set xs" for xs :: string by (cases xs) auto
  ultimately show ?thesis using set_takeWhileD set_dropWhileD by (metis subset_eq)
qed

lemma split_fields_set: "f \<in> set (split_fields n s) \<Longrightarrow> set f \<subseteq> set s"
proof (induction n s rule: split_fields.induct)
  case (1 s)
  then show ?case by (auto simp: cut_at_def dest!: set_takeWhileD)
next
  case (2 n s)
  show ?case
  proof (cases "split_at (CHR '';'') s")
    case None
    with 2(2) show ?thesis by (auto simp: cut_at_def dest!: set_takeWhileD)
  next
    case (Some p)
    obtain a b where p: "p = (a, b)" by fastforce
    with Some 2(2) have "f = a \<or> f \<in> set (split_fields n b)" by auto
    with 2(1) [OF Some p [symmetric]] split_at_set [of "CHR '';''" s a b] Some p show ?thesis by auto
  qed
qed

lemma field_plain: "NUL \<notin> set line \<Longrightarrow> plain_text (field (split_fields n line) i)"
  using split_fields_set [of _ n line] by (auto simp: field_def plain_text_def dest!: nth_mem)

lemma load_line_view:
  assumes line: "NUL \<notin> set line" and live: "\<forall>e \<in> set es. live_entry buf e" and load: "load_line line (es, buf) = (es', buf')"
  shows "(\<forall>e \<in> set es'. live_entry buf' e) \<and>
    map (view buf') es' = map (view buf) es @ (case aircraft_of_line line of None \<Rightarrow> [] | Some a \<Rightarrow> [a])"
proof -
  let ?fs = "split_fields 7 line"
  show ?thesis
  proof (cases "is_hex_address (?fs ! 0) \<and> (\<exists>r. field ?fs 1 = Some r \<and> normalize_reg r 12 \<noteq> [])")
    case True
    then obtain r where r: "field ?fs 1 = Some r" "normalize_reg r 12 \<noteq> []" by blast
    then have r0: "r \<noteq> []" using normalize_empty by auto
    obtain ti b1 where t: "strings_add (field ?fs 2) buf = (ti, b1)" by fastforce
    obtain di b2 where d: "strings_add (field ?fs 4) b1 = (di, b2)" by fastforce
    obtain oi b3 where o: "strings_add (field ?fs 6) b2 = (oi, b3)" by fastforce
    let ?e = "\<lparr>reg = normalize_reg r 12, hex = map toupper_c (?fs ! 0), type_idx = ti, desc_idx = di, op_idx = oi\<rparr>"
    have l: "es' = es @ [?e]" "buf' = b3" using load True r r0 t d o by (auto simp: load_line_def Let_def)
    note plain = field_plain [OF line, of 7 2] field_plain [OF line, of 7 4] field_plain [OF line, of 7 6]
    note new = strbuf.add_three [OF plain t d o]
    note old = strbuf.stable_three [OF plain t d o]
    have "live_entry b3 e" "view b3 e = view buf e" if "e \<in> set es" for e
      using live that old by (auto simp: live_entry_def view_def entry_info_def)
    moreover have "live_entry b3 ?e" using new by (simp add: live_entry_def)
    moreover have "aircraft_of_line line = Some (view b3 ?e)"
      using True r new by (simp add: aircraft_of_line_def Let_def view_def entry_info_def)
    ultimately show ?thesis by (auto simp: l)
  next
    case False
    then have "load_line line (es, buf) = (es, buf)" "aircraft_of_line line = None"
      by (auto simp: load_line_def aircraft_of_line_def Let_def split: option.splits)
    with load live show ?thesis by simp
  qed
qed

lemma load_lines_view:
  assumes "\<forall>line \<in> set lines. NUL \<notin> set line" and "\<forall>e \<in> set es. live_entry buf e"
    and "fold load_line lines (es, buf) = (es', buf')"
  shows "map (view buf') es' = map (view buf) es @ List.map_filter aircraft_of_line lines"
  using assms
proof (induction lines arbitrary: es buf)
  case (Cons line lines)
  obtain es1 buf1 where 1: "load_line line (es, buf) = (es1, buf1)" by fastforce
  note v = load_line_view [OF _ Cons.prems(2) 1]
  from Cons.IH [of es1 buf1] Cons.prems 1 v show ?case
    by (auto simp: map_filter_simps split: option.splits)
qed (simp add: map_filter_simps)

lemma c_str_no_NUL: "NUL \<notin> set (c_str s)"
  by (auto simp: c_str_def dest: set_takeWhileD)

lemma file_lines_plain: "\<forall>line \<in> set (file_lines n s). NUL \<notin> set line"
proof (induction n s rule: file_lines.induct)
  case (1 n s)
  then show ?case
    by (subst file_lines.simps) (auto simp: c_str_no_NUL split: prod.splits)
qed

section \<open>Searching\<close>

interpretation regtab: string_table reg reg_search
  unfolding reg_search_def by (rule bsearch_table)

lemma hex_loop_found:
  "hex_loop es ix key lo hi = Some i \<Longrightarrow> 0 \<le> lo \<Longrightarrow> hi < int (length ix) \<Longrightarrow> i \<in> set ix \<and> hex (es ! i) = key"
proof (induction es ix key lo hi rule: hex_loop.induct)
  case (1 es ix key lo hi)
  let ?m = "(lo + hi) div 2"
  let ?c = "strcmp (hex (es ! (ix ! nat ?m))) key"
  show ?case
  proof (cases "lo \<le> hi")
    case True
    then have m: "0 \<le> ?m" "?m \<le> hi" "lo \<le> ?m" using "1.prems" by auto
    consider "?c = 0" | "?c < 0" | "0 < ?c" by linarith
    then show ?thesis
    proof cases
      case 1
      then have "i = ix ! nat ?m" using "1.prems"(1) True by (subst (asm) hex_loop.simps) (simp add: Let_def)
      with 1 m "1.prems"(3) show ?thesis by simp
    next
      case 2
      then have ne: "hex (es ! (ix ! nat ?m)) \<noteq> key" by (metis less_irrefl strcmp_eq)
      from 2 ne have "hex_loop es ix key (?m + 1) hi = Some i" using "1.prems"(1) True
        by (subst (asm) hex_loop.simps) (simp add: Let_def)
      with 2 ne m "1.IH"(1) [OF True refl refl] "1.prems" show ?thesis by simp
    next
      case 3
      then have ne: "hex (es ! (ix ! nat ?m)) \<noteq> key" by (metis less_irrefl strcmp_eq)
      from 3 ne have "hex_loop es ix key lo (?m - 1) = Some i" using "1.prems"(1) True
        by (subst (asm) hex_loop.simps) (simp add: Let_def)
      with 3 ne m "1.IH"(2) [OF True refl refl] "1.prems" show ?thesis by simp
    qed
  next
    case False
    with "1.prems" show ?thesis by (subst (asm) hex_loop.simps) simp
  qed
qed

lemma hex_loop_complete:
  assumes "sorted (map (\<lambda>i. hex (es ! i)) ix)" and "0 \<le> lo" "hi < int (length ix)" "lo \<le> int j" "int j \<le> hi"
    and "hex (es ! (ix ! j)) = key"
  shows "hex_loop es ix key lo hi \<noteq> None"
  using assms(2-6)
proof (induction "nat (hi + 1 - lo)" arbitrary: lo hi rule: less_induct)
  case less
  let ?m = "(lo + hi) div 2"
  let ?k = "\<lambda>i. hex (es ! i)"
  have lh: "lo \<le> hi" and m: "0 \<le> ?m" "?m \<le> hi" "lo \<le> ?m" using less.prems by auto
  have mj: "nat ?m < length ix" "j < length ix" using m less.prems by linarith+
  note eq = hex_loop.simps [of es ix key lo hi]
  consider "strcmp (?k (ix ! nat ?m)) key = 0" | "strcmp (?k (ix ! nat ?m)) key < 0" | "0 < strcmp (?k (ix ! nat ?m)) key"
    by linarith
  then show ?case
  proof cases
    case 1
    with lh eq show ?thesis by (simp add: Let_def)
  next
    case 2
    then have "?k (ix ! nat ?m) < ?k (ix ! j)" using less.prems(5) by (simp add: strcmp_less)
    then have "nat ?m < j" using sorted_key_less [OF assms(1), of j "nat ?m"] mj by (meson leD leI)
    then have "hex_loop es ix key (?m + 1) hi \<noteq> None" using less.prems m lh by (intro less.hyps) linarith+
    with 2 lh eq show ?thesis by (simp add: Let_def)
  next
    case 3
    then have "?k (ix ! j) < ?k (ix ! nat ?m)" using less.prems(5) by (simp add: strcmp_greater)
    then have "j < nat ?m" using sorted_key_less [OF assms(1), of "nat ?m" j] mj by (meson leD leI)
    then have "hex_loop es ix key lo (?m - 1) \<noteq> None" using less.prems m lh by (intro less.hyps) linarith+
    with 3 lh eq show ?thesis by (simp add: Let_def)
  qed
qed

interpretation hextab: string_table "\<lambda>i. hex (es ! i)" "hex_search es" for es :: "db_entry list"
proof
  fix t :: "nat list" and k :: string and i :: nat
  assume s: "sorted (map (\<lambda>i. hex (es ! i)) t)"
  show "hex_search es t k = Some i \<Longrightarrow> i \<in> set t \<and> hex (es ! i) = k"
    using hex_loop_found [of es t k 0 "int (length t) - 1" i] by (simp add: hex_search_def)
  show "i \<in> set t \<Longrightarrow> hex (es ! i) = k \<Longrightarrow> hex_search es t k \<noteq> None"
    using hex_loop_complete [OF s, of 0 "int (length t) - 1" _ k] by (auto simp: hex_search_def in_set_conv_nth)
qed

section \<open>Addresses\<close>

definition hex_upper :: "string \<Rightarrow> bool" where
  "hex_upper s \<longleftrightarrow> (\<forall>c \<in> set s. toupper_c c = c)"

lemma hex_str_props: "n < 16 ^ k \<Longrightarrow> 0 < k \<Longrightarrow> length (hex_str n) \<le> k \<and> hex_upper (hex_str n)"
proof (induction n arbitrary: k rule: hex_str.induct)
  case (1 n)
  have d: "hex_upper [digit_char m]" if "m < 16" for m
  proof -
    have "\<forall>m \<in> {0, 1, 2, 3, 4, 5, 6, 7, 8, 9, 10, 11, 12, 13, 14, 15}. hex_upper [digit_char m]"
      by (simp add: digit_char_def hex_upper_def toupper_c_def)
    moreover have "m \<in> {0, 1, 2, 3, 4, 5, 6, 7, 8, 9, 10, 11, 12, 13, 14, 15}"
      using that by (simp only: insert_iff empty_iff) arith
    ultimately show ?thesis by (rule bspec)
  qed
  show ?case
  proof (cases "n < 16")
    case True
    with "1.prems" d show ?thesis by (subst (1 2) hex_str.simps) simp
  next
    case False
    with "1.prems" obtain j where k: "k = Suc j" and j: "0 < j" by (cases k; cases "k = 1") auto
    have "n div 16 < 16 ^ j" using "1.prems" k by (simp add: less_mult_imp_div_less)
    from "1.IH" [OF False this j] False k d [of "n mod 16"] show ?thesis
      by (subst (1 2) hex_str.simps) (auto simp: hex_upper_def)
  qed
qed

definition aes_hex :: "u32 \<Rightarrow> string" where
  "aes_hex aes_id = hex_pad 6 (unat (aes_id AND 0xFFFFFF))"

lemma aes_hex_props: "length (aes_hex aes_id) = 6" "map toupper_c (aes_hex aes_id) = aes_hex aes_id"
proof -
  have "unat (aes_id AND 0xFFFFFF) \<le> unat (0xFFFFFF :: u32)" 
    using word_and_le1 [of aes_id "0xFFFFFF"] unfolding word_le_nat_alt by simp
  then have "unat (aes_id AND 0xFFFFFF) < 16 ^ 6" by simp
  from hex_str_props [OF this] show "length (aes_hex aes_id) = 6" "map toupper_c (aes_hex aes_id) = aes_hex aes_id"
    by (simp_all add: aes_hex_def hex_pad_def Let_def hex_upper_def toupper_c_def map_idI)
qed


lemma set_map_filter_eq: "set (List.map_filter f xs) = {y. \<exists>x \<in> set xs. f x = Some y}"
  by (induction xs) (auto simp: map_filter_simps split: option.splits)

lemma loaded_entries:
  assumes "fold load_line (file_lines 1023 content) ([], []) = (es, buf)"
  shows "e \<in> set es \<Longrightarrow> \<exists>line \<in> set (file_lines 1023 content). aircraft_of_line line = Some (hex e, entry_info buf e)"
    and "line \<in> set (file_lines 1023 content) \<Longrightarrow> aircraft_of_line line = Some (h, info) \<Longrightarrow>
      \<exists>e \<in> set es. hex e = h \<and> entry_info buf e = info"
proof -
  have m: "view buf ` set es = {a. \<exists>line \<in> set (file_lines 1023 content). aircraft_of_line line = Some a}"
    using arg_cong [OF load_lines_view [OF file_lines_plain _ assms], of set] by (simp add: set_map_filter_eq)
  show "e \<in> set es \<Longrightarrow> \<exists>line \<in> set (file_lines 1023 content). aircraft_of_line line = Some (hex e, entry_info buf e)"
    using m by (auto simp: view_def)
  show "line \<in> set (file_lines 1023 content) \<Longrightarrow> aircraft_of_line line = Some (h, info) \<Longrightarrow>
      \<exists>e \<in> set es. hex e = h \<and> entry_info buf e = info"
  proof -
    assume "line \<in> set (file_lines 1023 content)" "aircraft_of_line line = Some (h, info)"
    then have "(h, info) \<in> view buf ` set es" unfolding m by blast
    then show ?thesis by (auto simp: view_def)
  qed
qed

section \<open>Properties\<close>





text \<open>
  A lookup by an address string of fewer than six characters compares uninitialised bytes.
\<close>

lemma short_address_reads_junk:
  assumes "length hex6 < 6" and "db d \<noteq> []"
  shows "aircraft_db_lookup_by_hex d hex6 = None"
  using assms by (simp add: aircraft_db_lookup_by_hex_def)

lemma short_address_example:
  "aircraft_db_lookup_by_hex (snd (aircraft_db_load (sort_key reg) (\<lambda>es. sort_key (\<lambda>i. hex (es ! i))) (Some ''a98539;N712TW;B738'') aircraft_db_empty)) ''A9853'' = None"
proof (rule short_address_reads_junk)
  show "db (snd (aircraft_db_load (sort_key reg) (\<lambda>es. sort_key (\<lambda>i. hex (es ! i))) (Some ''a98539;N712TW;B738'') aircraft_db_empty)) \<noteq> []"
    by code_simp
qed simp

end
