(* ===== verification/ChanRing.thy ===== *)
theory ChanRing
  imports Prelude
begin

text \<open>
  The ring buffers of \<open>main.c\<close> between the channelizer and the demodulator threads: \<open>chan_push\<close> and the body of
  \<open>chan_worker_fn\<close> up to the call of the demodulator.  One thread pushes and one pops, without locks; the head and
  the tail are 32-bit counters that wrap around.  A sample is any value.
\<close>

unbundle bit_operations_syntax

section \<open>The operations\<close>

definition CHAN_RING_SIZE :: u32 where "CHAN_RING_SIZE = 0x40000"

definition RSIZE :: nat where "RSIZE = 2 ^ 18"

record 'a chan =
  ring :: "'a list" \<comment> \<open>\<open>CHAN_RING_SIZE\<close> samples\<close>
  ring_head :: u32
  ring_tail :: u32
  drops :: u64

text \<open>\<open>memcpy\<close> of a list to \<open>ring[pos ..]\<close>, going on at \<open>ring[0]\<close> after the end.\<close>

definition overwrite :: "'a list \<Rightarrow> nat \<Rightarrow> 'a list \<Rightarrow> 'a list" where
  "overwrite r pos xs = take pos r @ xs @ drop (pos + length xs) r"

definition copy_in :: "'a list \<Rightarrow> nat \<Rightarrow> 'a list \<Rightarrow> 'a list" where
  "copy_in r pos xs =
     (let first = min (RSIZE - pos) (length xs)
      in overwrite (overwrite r pos (take first xs)) 0 (drop first xs))"

definition copy_out :: "'a list \<Rightarrow> nat \<Rightarrow> nat \<Rightarrow> 'a list" where
  "copy_out r pos n =
     (let first = min (RSIZE - pos) n in take first (drop pos r) @ take (n - first) r)"

definition ring_pos :: "u32 \<Rightarrow> nat" where
  "ring_pos counter = unat (counter AND (CHAN_RING_SIZE - 1))"

text \<open>How many of \<open>n\<close> samples fit, and whether some are dropped.\<close>

definition push_room :: "u32 \<Rightarrow> u32 \<Rightarrow> nat \<Rightarrow> nat \<times> bool" where
  "push_room head tail n =
     (let free = unat (CHAN_RING_SIZE - (head - tail)) in if free < n then (free, True) else (n, False))"

definition chan_push :: "'a list \<Rightarrow> 'a chan \<Rightarrow> 'a chan" where
  "chan_push samples jc =
     (let (n, dropped) = push_room (ring_head jc) (ring_tail jc) (length samples);
          jc1 = (if dropped then jc\<lparr>drops := drops jc + 1\<rparr> else jc)
      in if dropped \<and> n = 0 then jc1
         else jc1\<lparr>ring := copy_in (ring jc1) (ring_pos (ring_head jc1)) (take n samples),
                  ring_head := ring_head jc1 + of_nat n\<rparr>)"

text \<open>One round of the worker: the batch for the demodulator, empty when there is nothing to do.\<close>

definition BATCH :: nat where "BATCH = 4096"

definition worker_take :: "u32 \<Rightarrow> u32 \<Rightarrow> nat" where
  "worker_take head tail = min (unat (head - tail)) BATCH"

definition worker_round :: "'a chan \<Rightarrow> 'a chan \<times> 'a list" where
  "worker_round jc =
     (let n = worker_take (ring_head jc) (ring_tail jc)
      in (jc\<lparr>ring_tail := ring_tail jc + of_nat n\<rparr>, copy_out (ring jc) (ring_pos (ring_tail jc)) n))"

section \<open>The threads\<close>

text \<open>
  The accesses to the shared fields as the threads interleave them: the producer loads both counters, copies, and
  stores the head; the worker loads both counters, copies, and stores the tail.  \<open>accepted\<close> and \<open>fed\<close> record
  the samples whose head was published and the samples given to the demodulator.
\<close>

datatype 'a producer = PIdle | PLoaded "'a list" | PCopied "'a list"
datatype 'a worker = WIdle | WLoaded nat | WCopied "'a list"

record 'a system =
  chan :: "'a chan"
  producer :: "'a producer"
  worker :: "'a worker"
  accepted :: "'a list"
  fed :: "'a list"

inductive chan_step :: "'a system \<Rightarrow> 'a system \<Rightarrow> bool" where
  push_full: "producer s = PIdle \<Longrightarrow> push_room (ring_head (chan s)) (ring_tail (chan s)) (length (samples :: 'a list)) = (0, True) \<Longrightarrow>
    chan_step s (s\<lparr>chan := (chan s)\<lparr>drops := drops (chan s) + 1\<rparr>\<rparr>)"
| push_load: "producer s = PIdle \<Longrightarrow> push_room (ring_head (chan s)) (ring_tail (chan s)) (length samples) = (n, dropped) \<Longrightarrow>
    \<not> (dropped \<and> n = 0) \<Longrightarrow>
    chan_step s (s\<lparr>chan := (if dropped then (chan s)\<lparr>drops := drops (chan s) + 1\<rparr> else chan s), producer := PLoaded (take n samples)\<rparr>)"
| push_copy: "producer s = PLoaded xs \<Longrightarrow>
    chan_step s (s\<lparr>chan := (chan s)\<lparr>ring := copy_in (ring (chan s)) (ring_pos (ring_head (chan s))) xs\<rparr>, producer := PCopied xs\<rparr>)"
| push_store: "producer s = PCopied xs \<Longrightarrow>
    chan_step s (s\<lparr>chan := (chan s)\<lparr>ring_head := ring_head (chan s) + of_nat (length xs)\<rparr>, producer := PIdle,
      accepted := accepted s @ xs\<rparr>)"
| take_load: "worker s = WIdle \<Longrightarrow> worker_take (ring_head (chan s)) (ring_tail (chan s)) = n \<Longrightarrow> 0 < n \<Longrightarrow>
    chan_step s (s\<lparr>worker := WLoaded n\<rparr>)"
| take_copy: "worker s = WLoaded n \<Longrightarrow>
    chan_step s (s\<lparr>worker := WCopied (copy_out (ring (chan s)) (ring_pos (ring_tail (chan s))) n)\<rparr>)"
| take_store: "worker s = WCopied xs \<Longrightarrow>
    chan_step s (s\<lparr>chan := (chan s)\<lparr>ring_tail := ring_tail (chan s) + of_nat (length xs)\<rparr>, worker := WIdle, fed := fed s @ xs\<rparr>)"

definition chan_init :: "'a list \<Rightarrow> 'a system" where
  "chan_init r = \<lparr>chan = \<lparr>ring = r, ring_head = 0, ring_tail = 0, drops = 0\<rparr>, producer = PIdle, worker = WIdle, accepted = [], fed = []\<rparr>"

inductive chan_reachable :: "'a list \<Rightarrow> 'a system \<Rightarrow> bool" for r where
  start: "chan_reachable r (chan_init r)"
| step: "chan_reachable r s \<Longrightarrow> chan_step s s' \<Longrightarrow> chan_reachable r s'"

inductive_cases chan_stepE: "chan_step s s'"

section \<open>Positions\<close>

lemma RSIZE_pos [simp]: "0 < RSIZE"
  by (simp add: RSIZE_def)

lemma unat_CHAN_RING_SIZE: "unat CHAN_RING_SIZE = RSIZE"
  by (simp add: CHAN_RING_SIZE_def RSIZE_def)

lemma ring_pos_of_nat: "ring_pos (of_nat k) = k mod RSIZE"
proof -
  have "CHAN_RING_SIZE - 1 = mask 18" by (simp add: CHAN_RING_SIZE_def mask_eq_exp_minus_1)
  then have "ring_pos (of_nat k) = take_bit 18 (unat (of_nat k :: u32))"
    by (simp add: ring_pos_def take_bit_eq_mask [symmetric] unsigned_take_bit_eq)
  also have "\<dots> = k mod RSIZE"
    by (simp add: unat_of_nat take_bit_eq_mod RSIZE_def mod_mod_cancel)
  finally show ?thesis .
qed

lemma length_overwrite: "pos + length xs \<le> length r \<Longrightarrow> length (overwrite r pos xs) = length r"
  by (simp add: overwrite_def)

lemma nth_overwrite:
  "pos + length xs \<le> length r \<Longrightarrow> i < length r \<Longrightarrow>
    overwrite r pos xs ! i = (if pos \<le> i \<and> i < pos + length xs then xs ! (i - pos) else r ! i)"
  by (auto simp: overwrite_def nth_append min_def)

lemma length_copy_in: "length r = RSIZE \<Longrightarrow> pos < RSIZE \<Longrightarrow> length xs \<le> RSIZE \<Longrightarrow> length (copy_in r pos xs) = RSIZE"
  unfolding copy_in_def Let_def by (subst length_overwrite; (subst length_overwrite)?) (auto simp: min_def)

lemma nth_copy_in:
  assumes "length r = RSIZE" and "length xs \<le> RSIZE" and "p < RSIZE" and "i < RSIZE" and f: "f = min (RSIZE - p) (length xs)"
  shows "copy_in r p xs ! i =
    (if i < length xs - f then xs ! (f + i) else if p \<le> i \<and> i < p + f then xs ! (i - p) else r ! i)"
proof -
  define r1 where "r1 = overwrite r p (take f xs)"
  have fl: "f \<le> length xs" "p + f \<le> RSIZE" using assms(3) unfolding f by (simp, simp add: min_def, linarith)
  then have o1: "p + length (take f xs) \<le> length r" using assms(1) by simp
  have l1: "length r1 = RSIZE" unfolding r1_def using length_overwrite [OF o1] assms(1) by simp
  have o2: "0 + length (drop f xs) \<le> length r1" using l1 assms(2) by simp
  have "copy_in r p xs ! i = overwrite r1 0 (drop f xs) ! i"
    by (simp only: copy_in_def Let_def r1_def f)
  also have "\<dots> = (if i < length xs - f then xs ! (f + i) else r1 ! i)"
    using nth_overwrite [OF o2, of i] l1 assms(4) fl(1) by simp
  also have "r1 ! i = (if p \<le> i \<and> i < p + f then xs ! (i - p) else r ! i)"
    unfolding r1_def using nth_overwrite [OF o1, of i] assms(1,4) fl(1) by (auto simp: min.absorb2)
  finally show ?thesis .
qed

text \<open>What the two copies do, by absolute sample numbers: \<open>k\<close> is the number of the first sample.\<close>

lemma ring_index:
  assumes "j < RSIZE"
  shows "(k + j) mod RSIZE = (if k mod RSIZE + j < RSIZE then k mod RSIZE + j else k mod RSIZE + j - RSIZE)"
proof -
  define p where "p = k mod RSIZE"
  have m: "(k + j) mod RSIZE = (p + j) mod RSIZE" unfolding p_def by (simp add: mod_add_left_eq)
  have p: "p < RSIZE" unfolding p_def by simp
  have "(p + j) mod RSIZE = p + j - RSIZE" if "RSIZE \<le> p + j"
    using that p assms by (simp add: le_mod_geq)
  with m show ?thesis unfolding p_def [symmetric] by simp
qed

lemma copy_in_at:
  assumes "length r = RSIZE" and "length xs \<le> RSIZE" and "j < length xs"
  shows "copy_in r (k mod RSIZE) xs ! ((k + j) mod RSIZE) = xs ! j"
proof -
  define p f where "p = k mod RSIZE" and f: "f = min (RSIZE - p) (length xs)"
  have p: "p < RSIZE" unfolding p_def by simp
  have "(k + j) mod RSIZE < RSIZE" by simp
  note n = nth_copy_in [OF assms(1,2) p this f] and x = ring_index [of j k, folded p_def]
  show ?thesis
  proof (cases "p + j < RSIZE")
    case True
    then have "(k + j) mod RSIZE = p + j" "\<not> p + j < length xs - f" "j < f"
      using x assms(2,3) by (auto simp: f min_def split: if_splits)
    then show ?thesis unfolding p_def [symmetric] n by simp
  next
    case False
    then have "(k + j) mod RSIZE = p + j - RSIZE" "f = RSIZE - p" using x assms(2,3) by (auto simp: f min_def)
    moreover from this have "p + j - RSIZE < length xs - f" "f + (p + j - RSIZE) = j" using assms(3) p False by linarith+
    ultimately show ?thesis unfolding p_def [symmetric] n by simp
  qed
qed

lemma copy_in_beyond:
  assumes "length r = RSIZE" and "length xs \<le> j" and "j < RSIZE"
  shows "copy_in r (k mod RSIZE) xs ! ((k + j) mod RSIZE) = r ! ((k + j) mod RSIZE)"
proof -
  define p f where "p = k mod RSIZE" and f: "f = min (RSIZE - p) (length xs)"
  have p: "p < RSIZE" unfolding p_def by simp
  have i: "(k + j) mod RSIZE < RSIZE" and l: "length xs \<le> RSIZE" using assms by simp_all
  note n = nth_copy_in [OF assms(1) l p i f] and x = ring_index [OF assms(3), of k, folded p_def]
  have "\<not> (k + j) mod RSIZE < length xs - f" "\<not> (p \<le> (k + j) mod RSIZE \<and> (k + j) mod RSIZE < p + f)"
    unfolding x using assms(2,3) p by (auto simp: f min_def)
  then show ?thesis unfolding p_def [symmetric] n by meson
qed

lemma length_copy_out: "length r = RSIZE \<Longrightarrow> n \<le> RSIZE \<Longrightarrow> length (copy_out r (k mod RSIZE) n) = n"
  using mod_less_divisor [OF RSIZE_pos, of k] by (simp add: copy_out_def Let_def min_def del: mod_less_divisor) linarith

lemma copy_out_at:
  assumes "length r = RSIZE" and "n \<le> RSIZE" and "j < n"
  shows "copy_out r (k mod RSIZE) n ! j = r ! ((k + j) mod RSIZE)"
proof -
  define p where "p = k mod RSIZE"
  have p: "p < RSIZE" unfolding p_def by simp
  note m = ring_index [of j k, folded p_def]
  define f where "f = min (RSIZE - p) n"
  have c: "copy_out r p n = take f (drop p r) @ take (n - f) r" by (simp add: copy_out_def Let_def f_def)
  have lf: "length (take f (drop p r)) = f" using assms(1) by (simp add: f_def)
  show ?thesis
  proof (cases "j < f")
    case True
    then have "p + j < RSIZE" "j < RSIZE - p" unfolding f_def by linarith+
    then show ?thesis using True assms(1) by (simp add: p_def [symmetric] c nth_append lf m assms)
  next
    case False
    then have f: "f = RSIZE - p" and "RSIZE \<le> p + j" using assms(3) by (auto simp: f_def min_def split: if_splits)
    then have "(k + j) mod RSIZE = j - f"
      using ring_index [of j k, folded p_def] assms(2,3) p by simp
    moreover have "j - f < n - f" using assms(3) False by linarith
    ultimately show ?thesis using False by (simp add: p_def [symmetric] c nth_append lf del: length_take length_drop)
  qed
qed

text \<open>The wrapped difference of two counters is the difference of the sample numbers behind them.\<close>

lemma unat_counter_diff:
  assumes "T \<le> H" and "H \<le> T + RSIZE"
  shows "unat (of_nat H - of_nat T :: u32) = H - T"
proof -
  have "(of_nat H - of_nat T :: u32) = of_nat (H - T)" using assms(1) by (simp add: of_nat_diff)
  moreover have "H - T < 2 ^ 32" using assms(2) by (simp add: RSIZE_def)
  ultimately show ?thesis by (simp add: unat_of_nat)
qed

lemma push_room_counters:
  assumes "T \<le> H" and "H \<le> T + RSIZE"
  shows "push_room (of_nat H) (of_nat T) n = (min (T + RSIZE - H) n, T + RSIZE - H < n)"
proof -
  have "(of_nat H - of_nat T :: u32) = of_nat (H - T)" using assms(1) by (simp add: of_nat_diff)
  then have "unat (CHAN_RING_SIZE - (of_nat H - of_nat T)) = RSIZE - (H - T)"
    using unat_counter_diff [of "H - T" RSIZE] assms by (simp add: CHAN_RING_SIZE_def RSIZE_def)
  moreover have "RSIZE - (H - T) = T + RSIZE - H" using assms by linarith
  ultimately show ?thesis by (simp add: push_room_def Let_def)
qed

section \<open>The invariant of the threads\<close>

text \<open>
  \<open>H\<close> and \<open>T\<close> count all samples ever published and all ever taken: the counters are their low 32 bits.  What lies
  between is in the ring; a producer that has begun to push has found room, a worker that has begun to take
  has found samples, whatever the other thread does in between.
\<close>

fun producer_ok :: "nat \<Rightarrow> nat \<Rightarrow> 'a list \<Rightarrow> 'a producer \<Rightarrow> bool" where
  "producer_ok H T r PIdle = True"
| "producer_ok H T r (PLoaded xs) = (H + length xs \<le> T + RSIZE)"
| "producer_ok H T r (PCopied xs) = (H + length xs \<le> T + RSIZE \<and> (\<forall>j < length xs. r ! ((H + j) mod RSIZE) = xs ! j))"

fun worker_ok :: "nat \<Rightarrow> 'a list \<Rightarrow> 'a worker \<Rightarrow> bool" where
  "worker_ok T acc WIdle = True"
| "worker_ok T acc (WLoaded n) = (T + n \<le> length acc)"
| "worker_ok T acc (WCopied xs) = (xs = take (length xs) (drop T acc))"

definition ring_holds :: "nat \<Rightarrow> nat \<Rightarrow> 'a list \<Rightarrow> 'a chan \<Rightarrow> bool" where
  "ring_holds H T acc c \<longleftrightarrow> ring_head c = of_nat H \<and> ring_tail c = of_nat T \<and> length (ring c) = RSIZE \<and>
     length acc = H \<and> T \<le> H \<and> H \<le> T + RSIZE \<and> (\<forall>j. T + j < H \<longrightarrow> ring c ! ((T + j) mod RSIZE) = acc ! (T + j))"

definition chan_inv :: "'a system \<Rightarrow> bool" where
  "chan_inv s \<longleftrightarrow> (\<exists>H T. ring_holds H T (accepted s) (chan s) \<and> fed s = take T (accepted s) \<and>
     producer_ok H T (ring (chan s)) (producer s) \<and> worker_ok T (accepted s) (worker s))"

lemma chan_invI:
  "ring_holds H T (accepted s) (chan s) \<Longrightarrow> fed s = take T (accepted s) \<Longrightarrow> producer_ok H T (ring (chan s)) (producer s) \<Longrightarrow>
    worker_ok T (accepted s) (worker s) \<Longrightarrow> chan_inv s"
  by (auto simp: chan_inv_def)

lemma ring_holds_drops [simp]: "ring_holds H T acc (c\<lparr>drops := d\<rparr>) = ring_holds H T acc c"
  by (simp add: ring_holds_def)

lemma ring_holds_copy_in:
  assumes "ring_holds H T acc c" and "H + length xs \<le> T + RSIZE"
  shows "ring_holds H T acc (c\<lparr>ring := copy_in (ring c) (ring_pos (ring_head c)) xs\<rparr>)"
    and "\<forall>j < length xs. copy_in (ring c) (ring_pos (ring_head c)) xs ! ((H + j) mod RSIZE) = xs ! j"
proof -
  from assms have h: "ring_head c = of_nat H" "length (ring c) = RSIZE" "T \<le> H" "length xs \<le> RSIZE"
    by (auto simp: ring_holds_def)
  show "\<forall>j < length xs. copy_in (ring c) (ring_pos (ring_head c)) xs ! ((H + j) mod RSIZE) = xs ! j"
    using copy_in_at [OF h(2,4)] by (simp add: h(1) ring_pos_of_nat)
  have "copy_in (ring c) (ring_pos (ring_head c)) xs ! ((T + j) mod RSIZE) = ring c ! ((T + j) mod RSIZE)" if "T + j < H" for j
  proof -
    have "(T + j) mod RSIZE = (H + (T + j + RSIZE - H)) mod RSIZE" using that assms by (simp add: ring_holds_def)
    moreover have "length xs \<le> T + j + RSIZE - H" "T + j + RSIZE - H < RSIZE" using that assms(2) h(3) by auto
    ultimately show ?thesis using copy_in_beyond [OF h(2), of xs "T + j + RSIZE - H" H] by (simp add: h(1) ring_pos_of_nat)
  qed
  then show "ring_holds H T acc (c\<lparr>ring := copy_in (ring c) (ring_pos (ring_head c)) xs\<rparr>)"
    using assms(1) h length_copy_in [OF h(2) _ h(4), of "H mod RSIZE"] by (simp add: ring_holds_def ring_pos_of_nat)
qed

lemma ring_holds_publish:
  assumes "ring_holds H T acc c" and "H + length xs \<le> T + RSIZE" and "\<forall>j < length xs. ring c ! ((H + j) mod RSIZE) = xs ! j"
  shows "ring_holds (H + length xs) T (acc @ xs) (c\<lparr>ring_head := ring_head c + of_nat (length xs)\<rparr>)"
proof -
  have "ring c ! ((T + j) mod RSIZE) = (acc @ xs) ! (T + j)" if "T + j < H + length xs" for j
  proof (cases "T + j < H")
    case False
    then have "T + j = H + (T + j - H)" "T + j - H < length xs" using that by auto
    with assms(3) have "ring c ! ((T + j) mod RSIZE) = xs ! (T + j - H)" by metis
    then show ?thesis using assms(1) False by (simp add: ring_holds_def nth_append)
  qed (use assms(1) in \<open>simp add: ring_holds_def nth_append\<close>)
  then show ?thesis using assms(1,2) by (simp add: ring_holds_def)
qed

lemma ring_holds_copy_out:
  assumes "ring_holds H T acc c" and "T + n \<le> H"
  shows "copy_out (ring c) (ring_pos (ring_tail c)) n = take n (drop T acc)"
proof (rule nth_equalityI)
  have h: "length (ring c) = RSIZE" "n \<le> RSIZE" "ring_tail c = of_nat T" using assms by (auto simp: ring_holds_def)
  show l: "length (copy_out (ring c) (ring_pos (ring_tail c)) n) = length (take n (drop T acc))"
    using length_copy_out [OF h(1,2)] assms by (simp add: h(3) ring_pos_of_nat ring_holds_def)
  show "copy_out (ring c) (ring_pos (ring_tail c)) n ! i = take n (drop T acc) ! i"
    if "i < length (copy_out (ring c) (ring_pos (ring_tail c)) n)" for i
  proof -
    have "i < n" using that l assms by (simp add: ring_holds_def)
    then show ?thesis using copy_out_at [OF h(1,2), of i T] assms by (simp add: h(3) ring_pos_of_nat ring_holds_def)
  qed
qed

lemma ring_holds_release:
  "ring_holds H T acc c \<Longrightarrow> T + n \<le> H \<Longrightarrow> ring_holds H (T + n) acc (c\<lparr>ring_tail := ring_tail c + of_nat n\<rparr>)"
  by (auto simp: ring_holds_def add.assoc)

lemma producer_ok_release: "producer_ok H T r p \<Longrightarrow> producer_ok H (T + n) r p"
  by (cases p) auto

lemma worker_ok_publish: "worker_ok T acc w \<Longrightarrow> worker_ok T (acc @ xs) w"
proof (cases w)
  case (WCopied ys)
  assume "worker_ok T acc w"
  with WCopied have y: "ys = take (length ys) (drop T acc)" by simp
  from arg_cong [OF this, of length] have "length ys \<le> length (drop T acc)" by simp
  with y WCopied show ?thesis by simp
qed auto

lemma chan_inv_step: "chan_step s s' \<Longrightarrow> chan_inv s \<Longrightarrow> chan_inv s'"
proof (induction rule: chan_step.induct)
  case (push_full s samples)
  then show ?case by (auto simp: chan_inv_def)
next
  case (push_load s samples n dropped)
  then obtain H T where i: "ring_holds H T (accepted s) (chan s)" "fed s = take T (accepted s)" "worker_ok T (accepted s) (worker s)"
    by (auto simp: chan_inv_def)
  then have "n = min (T + RSIZE - H) (length samples)" and "H \<le> T + RSIZE"
    using push_load.hyps(2) push_room_counters [of T H "length samples"] by (auto simp: ring_holds_def)
  then have "H + length (take n samples) \<le> T + RSIZE" by simp
  then show ?case using i by (auto simp: chan_inv_def)
next
  case (push_copy s xs)
  then obtain H T where i: "ring_holds H T (accepted s) (chan s)" "fed s = take T (accepted s)" "worker_ok T (accepted s) (worker s)"
    and r: "H + length xs \<le> T + RSIZE" by (auto simp: chan_inv_def)
  show ?case by (rule chan_invI [of H T]) (use ring_holds_copy_in [OF i(1) r] i(2,3) r in simp_all)
next
  case (push_store s xs)
  then obtain H T where i: "ring_holds H T (accepted s) (chan s)" "fed s = take T (accepted s)" "worker_ok T (accepted s) (worker s)"
    and r: "H + length xs \<le> T + RSIZE" "\<forall>j < length xs. ring (chan s) ! ((H + j) mod RSIZE) = xs ! j" by (auto simp: chan_inv_def)
  have "T \<le> length (accepted s)" using i(1) by (simp add: ring_holds_def)
  then show ?case
    by (intro chan_invI [of "H + length xs" T]) (use ring_holds_publish [OF i(1) r] i(2) worker_ok_publish [OF i(3)] in simp_all)
next
  case (take_load s n)
  then obtain H T where i: "ring_holds H T (accepted s) (chan s)" "fed s = take T (accepted s)" "producer_ok H T (ring (chan s)) (producer s)"
    by (auto simp: chan_inv_def)
  then have "T + n \<le> length (accepted s)"
    using take_load.hyps(2) unat_counter_diff [of T H] by (auto simp: worker_take_def ring_holds_def)
  then show ?case using i by (auto simp: chan_inv_def)
next
  case (take_copy s n)
  then obtain H T where i: "ring_holds H T (accepted s) (chan s)" "fed s = take T (accepted s)" "producer_ok H T (ring (chan s)) (producer s)"
    and n: "T + n \<le> length (accepted s)" by (auto simp: chan_inv_def)
  have c: "copy_out (ring (chan s)) (ring_pos (ring_tail (chan s))) n = take n (drop T (accepted s))"
    using ring_holds_copy_out [OF i(1)] n i(1) by (simp add: ring_holds_def)
  show ?case by (rule chan_invI [of H T]) (use i n c in simp_all)
next
  case (take_store s xs)
  then obtain H T where i: "ring_holds H T (accepted s) (chan s)" "fed s = take T (accepted s)" "producer_ok H T (ring (chan s)) (producer s)"
    and x: "xs = take (length xs) (drop T (accepted s))" by (auto simp: chan_inv_def)
  have "length xs \<le> length (accepted s) - T" using arg_cong [OF x, of length] by simp
  then have l: "T + length xs \<le> H" using i(1) by (auto simp: ring_holds_def)
  have "fed s @ xs = take (T + length xs) (accepted s)" using i(2) x by (simp add: take_add)
  then show ?case
    by (intro chan_invI [of H "T + length xs"]) (use ring_holds_release [OF i(1) l] producer_ok_release [OF i(3)] in simp_all)
qed

lemma chan_inv_reachable: "chan_reachable r s \<Longrightarrow> length r = RSIZE \<Longrightarrow> chan_inv s"
proof (induction rule: chan_reachable.induct)
  case start
  then show ?case by (intro chan_invI [of 0 0]) (auto simp: chan_init_def ring_holds_def)
qed (use chan_inv_step in blast)

section \<open>The ring as a bounded queue\<close>

text \<open>
  A bounded queue that is taken in batches: what it holds, its capacity and the size of a batch.  A push takes what
  there is room for, a round removes a batch from the front.
\<close>

locale batch_queue =
  fixes ok :: "'s \<Rightarrow> bool"
    and content :: "'s \<Rightarrow> 'a list"
    and push :: "'a list \<Rightarrow> 's \<Rightarrow> 's"
    and round :: "'s \<Rightarrow> 's \<times> 'a list"
    and capacity batch :: nat
  assumes push_ok: "ok s \<Longrightarrow> ok (push xs s)"
    and push_content: "ok s \<Longrightarrow> content (push xs s) = content s @ take (capacity - length (content s)) xs"
    and capacity_bound: "ok s \<Longrightarrow> length (content s) \<le> capacity"
    and round_ok: "ok s \<Longrightarrow> ok (fst (round s))"
    and round_batch: "ok s \<Longrightarrow> snd (round s) = take batch (content s)"
    and round_content: "ok s \<Longrightarrow> content (fst (round s)) = drop batch (content s)"
begin

lemma rounds:
  assumes "\<And>s. run 0 s = (s, [])"
    and "\<And>k s. run (Suc k) s = (let (s1, xs) = round s; (s2, ys) = run k s1 in (s2, xs @ ys))"
    and "ok s"
  shows "ok (fst (run k s)) \<and> snd (run k s) = take (k * batch) (content s) \<and> content (fst (run k s)) = drop (k * batch) (content s)"
  using assms(3)
proof (induction k arbitrary: s)
  case 0
  then show ?case by (simp add: assms(1))
next
  case (Suc k)
  from Suc.IH [OF round_ok [OF Suc.prems]]
  show ?case
    using Suc.prems by (simp add: assms(2) round_batch round_content Let_def split_beta take_add add.commute)
qed

lemma pushed_rounds:
  assumes "\<And>s. run 0 s = (s, [])"
    and "\<And>k s. run (Suc k) s = (let (s1, xs) = round s; (s2, ys) = run k s1 in (s2, xs @ ys))"
    and "ok s" and "capacity \<le> k * batch"
  shows "snd (run k (push xs s)) = content s @ take (capacity - length (content s)) xs \<and>
    content (fst (run k (push xs s))) = []"
proof -
  note p = push_ok [OF assms(3), of xs]
  have "length (content (push xs s)) \<le> k * batch" using capacity_bound [OF p] assms(4) by linarith
  then have "take (k * batch) (content (push xs s)) = content (push xs s)" "drop (k * batch) (content (push xs s)) = []"
    by simp_all
  then show ?thesis
    using rounds [OF assms(1,2) p, of k] push_content [OF assms(3), of xs] by simp
qed

end

text \<open>What the ring of the model holds, and when its counters make sense.\<close>

definition chan_content :: "'a chan \<Rightarrow> 'a list" where
  "chan_content c = copy_out (ring c) (ring_pos (ring_tail c)) (unat (ring_head c - ring_tail c))"

definition chan_ok :: "'a chan \<Rightarrow> bool" where
  "chan_ok c \<longleftrightarrow> length (ring c) = RSIZE \<and> unat (ring_head c - ring_tail c) \<le> RSIZE"

lemma chan_ok_holds:
  assumes "chan_ok c"
  obtains acc T where "ring_holds (T + length (chan_content c)) T acc c" "drop T acc = chan_content c"
proof -
  define T n where "T = unat (ring_tail c)" and "n = unat (ring_head c - ring_tail c)"
  have r: "length (ring c) = RSIZE" "n \<le> RSIZE" using assms by (simp_all add: chan_ok_def n_def)
  have t: "ring_tail c = of_nat T" and h: "ring_head c = of_nat (T + n)" by (simp_all add: T_def n_def)
  have c: "chan_content c = copy_out (ring c) (T mod RSIZE) n"
    unfolding chan_content_def n_def [symmetric] by (simp add: t ring_pos_of_nat)
  have l: "length (chan_content c) = n" using length_copy_out [OF r] by (simp add: c)
  let ?acc = "replicate T (ring c ! 0) @ chan_content c"
  have "ring_holds (T + length (chan_content c)) T ?acc c"
    using r copy_out_at [OF r, of _ T] by (auto simp: ring_holds_def t h l nth_append) (simp add: c)
  then show thesis using that [of T ?acc] by simp
qed

lemma holds_content: "ring_holds H T acc c \<Longrightarrow> chan_content c = drop T acc"
  using ring_holds_copy_out [of H T acc c "H - T"] unat_counter_diff [of T H]
  by (simp add: chan_content_def ring_holds_def)

lemma holds_ok: "ring_holds H T acc c \<Longrightarrow> chan_ok c"
  using unat_counter_diff [of T H] by (auto simp: chan_ok_def ring_holds_def)

lemma ring_holds_push:
  assumes "ring_holds H T acc c"
  shows "\<exists>H'. ring_holds H' T (acc @ take (T + RSIZE - H) xs) (chan_push xs c)"
proof -
  have h: "ring_head c = of_nat H" "ring_tail c = of_nat T" "T \<le> H" "H \<le> T + RSIZE" using assms by (auto simp: ring_holds_def)
  let ?n = "min (T + RSIZE - H) (length xs)"
  have n: "H + length (take ?n xs) \<le> T + RSIZE" using h by simp
  define c1 where "c1 = (if T + RSIZE - H < length xs then c\<lparr>drops := drops c + 1\<rparr> else c)"
  have c1: "ring_holds H T acc c1" using assms by (simp add: c1_def)
  from ring_holds_publish [OF ring_holds_copy_in(1) [OF c1 n] n] ring_holds_copy_in(2) [OF c1 n]
  have "ring_holds (H + ?n) T (acc @ take ?n xs)
    (c1\<lparr>ring := copy_in (ring c1) (ring_pos (ring_head c1)) (take ?n xs), ring_head := ring_head c1 + of_nat ?n\<rparr>)"
    by (simp add: min.commute)
  moreover have "take ?n xs = take (T + RSIZE - H) xs" by (simp add: min_def)
  ultimately show ?thesis
    using c1 by (cases "T + RSIZE - H < length xs \<and> ?n = 0")
      (auto simp: chan_push_def Let_def h push_room_counters c1_def split_beta intro: exI [of _ H])
qed

lemma ring_holds_round:
  assumes "ring_holds H T acc c"
  shows "snd (worker_round c) = take BATCH (drop T acc)"
    and "ring_holds H (T + min (H - T) BATCH) acc (fst (worker_round c))"
proof -
  have n: "worker_take (ring_head c) (ring_tail c) = min (H - T) BATCH" and l: "length acc = H" "T \<le> H"
    using assms unat_counter_diff [of T H] by (auto simp: worker_take_def ring_holds_def)
  show "snd (worker_round c) = take BATCH (drop T acc)"
    using ring_holds_copy_out [OF assms, of "min (H - T) BATCH"] l
    by (cases "H - T \<le> BATCH") (simp_all add: worker_round_def Let_def n)
  show "ring_holds H (T + min (H - T) BATCH) acc (fst (worker_round c))"
    using ring_holds_release [OF assms, of "min (H - T) BATCH"] l by (simp add: worker_round_def Let_def n)
qed

lemma chan_push_queue:
  assumes "chan_ok c"
  shows "chan_ok (chan_push xs c)" and "chan_content (chan_push xs c) = chan_content c @ take (RSIZE - length (chan_content c)) xs"
proof -
  obtain acc T where h: "ring_holds (T + length (chan_content c)) T acc c" "drop T acc = chan_content c" by (rule chan_ok_holds [OF assms])
  obtain H' where p: "ring_holds H' T (acc @ take (T + RSIZE - (T + length (chan_content c))) xs) (chan_push xs c)"
    using ring_holds_push [OF h(1)] by blast
  show "chan_ok (chan_push xs c)" by (rule holds_ok [OF p])
  have "T \<le> length acc" using h(1) by (simp add: ring_holds_def)
  then show "chan_content (chan_push xs c) = chan_content c @ take (RSIZE - length (chan_content c)) xs"
    using holds_content [OF p] h(2) by simp
qed

lemma worker_round_queue:
  assumes "chan_ok c"
  shows "chan_ok (fst (worker_round c))" and "snd (worker_round c) = take BATCH (chan_content c)"
    and "chan_content (fst (worker_round c)) = drop BATCH (chan_content c)"
proof -
  obtain acc T where h: "ring_holds (T + length (chan_content c)) T acc c" "drop T acc = chan_content c" by (rule chan_ok_holds [OF assms])
  note r = ring_holds_round [OF h(1)]
  show "chan_ok (fst (worker_round c))" by (rule holds_ok [OF r(2)])
  show "snd (worker_round c) = take BATCH (chan_content c)" using r(1) h(2) by simp
  have "chan_content (fst (worker_round c)) = drop (min (length (chan_content c)) BATCH) (drop T acc)"
    using holds_content [OF r(2)] by (simp add: add.commute)
  then show "chan_content (fst (worker_round c)) = drop BATCH (chan_content c)"
    unfolding h(2) by (cases "length (chan_content c) \<le> BATCH") simp_all
qed

lemma chan_content_bound: "chan_ok c \<Longrightarrow> length (chan_content c) \<le> RSIZE"
  using chan_ok_holds [of c] by (metis add_le_cancel_left ring_holds_def)

interpretation ringq: batch_queue chan_ok chan_content chan_push worker_round RSIZE BATCH
  using chan_content_bound by unfold_locales (simp_all add: chan_push_queue worker_round_queue)

text \<open>So many rounds of a worker, and all that it gives to the demodulator.\<close>

fun worker_run :: "nat \<Rightarrow> 'a chan \<Rightarrow> 'a chan \<times> 'a list" where
  "worker_run 0 c = (c, [])"
| "worker_run (Suc k) c = (let (c1, xs) = worker_round c; (c2, ys) = worker_run k c1 in (c2, xs @ ys))"

lemmas worker_run_rounds = ringq.pushed_rounds [of worker_run, OF worker_run.simps]

lemma copies_of_push:
  assumes "producer s = PIdle"
  shows "\<exists>acc. chan_step\<^sup>*\<^sup>* s (s\<lparr>chan := chan_push xs (chan s), producer := PIdle, accepted := acc\<rparr>)"
proof -
  have s: "s\<lparr>chan := c, producer := PIdle, accepted := accepted s\<rparr> = s\<lparr>chan := c\<rparr>" for c using assms by simp
  obtain n dropped where n: "push_room (ring_head (chan s)) (ring_tail (chan s)) (length xs) = (n, dropped)" by fastforce
  have le: "n \<le> length xs" using n by (auto simp: push_room_def Let_def split: if_splits)
  show ?thesis
  proof (cases "dropped \<and> n = 0")
    case True
    then have "chan_step s (s\<lparr>chan := chan_push xs (chan s)\<rparr>)"
      using chan_step.push_full [of s xs] assms n by (simp add: chan_push_def Let_def)
    then show ?thesis by (intro exI [of _ "accepted s"]) (simp only: s r_into_rtranclp)
  next
    case False
    from chan_step.push_load [OF assms n False]
    have "chan_step\<^sup>*\<^sup>* s (s\<lparr>chan := (if dropped then (chan s)\<lparr>drops := drops (chan s) + 1\<rparr> else chan s), producer := PLoaded (take n xs)\<rparr>)" ..
    from rtranclp.rtrancl_into_rtrancl [OF rtranclp.rtrancl_into_rtrancl [OF this chan_step.push_copy] chan_step.push_store]
    show ?thesis using False le n assms
      by (intro exI [of _ "accepted s @ take n xs"]) (simp add: chan_push_def Let_def min.absorb2 split: if_splits)
  qed
qed

section \<open>Properties\<close>

text \<open>
  C39: between the channelizer and a demodulator nothing is lost, repeated or reordered.  In every
  interleaving of the pushing thread and the worker thread the samples given to the demodulator are a prefix of the samples
  accepted into the ring, at most a ring full of them is outstanding, and the batch that the worker has copied out
  is the next part of the stream, even when counters and positions wrap around.
\<close>

theorem chan_stream_in_order:
  assumes "chan_reachable r s" and "length r = RSIZE"
  shows "\<exists>rest. accepted s = fed s @ rest \<and> length rest \<le> RSIZE \<and>
    (\<forall>xs. worker s = WCopied xs \<longrightarrow> take (length xs) rest = xs)"
proof -
  obtain H T where i: "ring_holds H T (accepted s) (chan s)" "fed s = take T (accepted s)" "worker_ok T (accepted s) (worker s)"
    using chan_inv_reachable [OF assms] by (auto simp: chan_inv_def)
  show ?thesis
    by (rule exI [of _ "drop T (accepted s)"]) (use i in \<open>auto simp: ring_holds_def\<close>)
qed

theorem chan_stream_in_order_witness:
  "\<exists>s :: nat system. producer s = PIdle \<and> chan s = chan_push [1, 2, 3 :: nat] (chan (chan_init (replicate RSIZE 0))) \<and>
    (\<exists>rest. accepted s = fed s @ rest \<and> length rest \<le> RSIZE \<and> (\<forall>xs. worker s = WCopied xs \<longrightarrow> take (length xs) rest = xs))"
proof -
  let ?r = "replicate RSIZE (0 :: nat)"
  obtain s where s: "chan_step\<^sup>*\<^sup>* (chan_init ?r) s" "producer s = PIdle" "chan s = chan_push [1, 2, 3] (chan (chan_init ?r))"
    using copies_of_push [of "chan_init ?r" "[1, 2, 3]"] by (force simp: chan_init_def)
  from s(1) have "chan_reachable ?r s" by (induction rule: rtranclp_induct) (auto intro: chan_reachable.intros)
  with s(2,3) chan_stream_in_order [OF this length_replicate] show ?thesis by blast
qed

text \<open>
  C40: a worker catches up.  Whatever a consistent ring holds and whatever is pushed, 64 rounds of the worker give the
  demodulator all that was in the ring and as much of the push as there was room for, and leave the ring empty; a
  push that does not fit is counted.
\<close>

theorem chan_worker_catches_up:
  assumes "chan_ok c"
  shows "snd (worker_run 64 (chan_push xs c)) = chan_content c @ take (RSIZE - length (chan_content c)) xs \<and>
    chan_content (fst (worker_run 64 (chan_push xs c))) = [] \<and>
    drops (chan_push xs c) = drops c + (if RSIZE - length (chan_content c) < length xs then 1 else 0)"
proof -
  have "RSIZE \<le> 64 * BATCH" by (simp add: RSIZE_def BATCH_def)
  note r = worker_run_rounds [OF assms this, of xs]
  obtain acc T where h: "ring_holds (T + length (chan_content c)) T acc c" by (rule chan_ok_holds [OF assms])
  then have "push_room (ring_head c) (ring_tail c) (length xs) =
      (min (RSIZE - length (chan_content c)) (length xs), RSIZE - length (chan_content c) < length xs)"
    using push_room_counters [of T "T + length (chan_content c)" "length xs"] by (simp add: ring_holds_def)
  then have "drops (chan_push xs c) = drops c + (if RSIZE - length (chan_content c) < length xs then 1 else 0)"
    by (simp add: chan_push_def Let_def)
  with r show ?thesis by simp
qed

theorem chan_worker_catches_up_witness:
  "snd (worker_run 64 (chan_push [7, 8] \<lparr>ring = replicate RSIZE (0 :: nat), ring_head = 0xFFFFFFFF, ring_tail = 0xFFFFFFFF, drops = 0\<rparr>)) = [7, 8]"
  using chan_worker_catches_up [of "\<lparr>ring = replicate RSIZE (0 :: nat), ring_head = 0xFFFFFFFF, ring_tail = 0xFFFFFFFF, drops = 0\<rparr>" "[7, 8]"]
  by (simp add: chan_ok_def chan_content_def copy_out_def RSIZE_def)

end
