(* ===== verification/Satellites.thy ===== *)
theory Satellites
  imports CStrings
begin

text \<open>
  \<open>satellites.c\<close>: the channel tables of the known satellites and the lookup by designator or alias.  Frequencies
  and rates are in Hz; all of them are integers or halves, which \<open>double\<close> represents exactly.
\<close>

section \<open>Types\<close>

datatype channel_type = CHAN_STDC_EGC | CHAN_AERO_600 | CHAN_AERO_1200 | CHAN_AERO_10500 | CHAN_AERO_8400

record channel_def =
  frequency :: rat
  ch_type :: channel_type
  channel_id :: nat

record satellite =
  sat_name :: string
  designator :: string
  position :: rat
  region :: string
  stdc_egc_freq :: rat
  channels :: "channel_def list"
  freq_min :: rat
  freq_max :: rat
  preferred_rate_rtl :: rat
  preferred_rate_sdrplay :: rat
  preferred_rate_hackrf :: rat

definition channel :: "rat \<Rightarrow> channel_type \<Rightarrow> nat \<Rightarrow> channel_def" where
  "channel f t i = \<lparr>frequency = f, ch_type = t, channel_id = i\<rparr>"

section \<open>Channel tables\<close>

definition channels_4f3 :: "channel_def list" where
  "channels_4f3 = [
     channel 1537700000 CHAN_STDC_EGC 0,
     channel 1545020000 CHAN_AERO_600 1,
     channel 1545050000 CHAN_AERO_600 2,
     channel 1545060000 CHAN_AERO_600 3,
     channel 1545065000 CHAN_AERO_600 4,
     channel 1545080000 CHAN_AERO_600 5,
     channel 1545085000 CHAN_AERO_600 6,
     channel 1545090000 CHAN_AERO_600 7,
     channel 1545100000 CHAN_AERO_600 8,
     channel 1545110000 CHAN_AERO_600 9,
     channel 1545170000 CHAN_AERO_600 10,
     channel 1545175000 CHAN_AERO_600 11,
     channel 1545205000 CHAN_AERO_600 12,
     channel 1545075000 CHAN_AERO_1200 13,
     channel 1546005000 CHAN_AERO_10500 14,
     channel 1546020000 CHAN_AERO_10500 15,
     channel 1546062500 CHAN_AERO_10500 16,
     channel 1546077500 CHAN_AERO_10500 17,
     channel 1542937500 CHAN_AERO_8400 18,
     channel 1542942500 CHAN_AERO_8400 19,
     channel 1542947500 CHAN_AERO_8400 20,
     channel 1542952500 CHAN_AERO_8400 21,
     channel 1542957500 CHAN_AERO_8400 22,
     channel 1542977500 CHAN_AERO_8400 23,
     channel 1542982500 CHAN_AERO_8400 24,
     channel 1542987500 CHAN_AERO_8400 25,
     channel 1542992500 CHAN_AERO_8400 26]"

definition channels_3f5 :: "channel_def list" where
  "channels_3f5 = [
     channel 1541450000 CHAN_STDC_EGC 0,
     channel 1545025000 CHAN_AERO_600 1,
     channel 1545030000 CHAN_AERO_600 2,
     channel 1545035000 CHAN_AERO_600 3,
     channel 1545040000 CHAN_AERO_600 4,
     channel 1546055000 CHAN_AERO_10500 5,
     channel 1546070000 CHAN_AERO_10500 6,
     channel 1542975000 CHAN_AERO_8400 7,
     channel 1542980000 CHAN_AERO_8400 8,
     channel 1542985000 CHAN_AERO_8400 9]"

definition channels_af1 :: "channel_def list" where
  "channels_af1 = [
     channel 1537100000 CHAN_STDC_EGC 0,
     channel 1545115000 CHAN_AERO_600 12,
     channel 1545120000 CHAN_AERO_600 1,
     channel 1545130000 CHAN_AERO_600 2,
     channel 1545125000 CHAN_AERO_1200 3,
     channel 1546012500 CHAN_AERO_10500 4,
     channel 1546027500 CHAN_AERO_10500 5,
     channel 1546142500 CHAN_AERO_8400 6,
     channel 1546147500 CHAN_AERO_8400 7,
     channel 1546152500 CHAN_AERO_8400 8,
     channel 1546182500 CHAN_AERO_8400 9,
     channel 1546187500 CHAN_AERO_8400 10,
     channel 1546192500 CHAN_AERO_8400 11]"

definition channels_f1 :: "channel_def list" where
  "channels_f1 = [
     channel 1545160000 CHAN_AERO_600 1,
     channel 1545165000 CHAN_AERO_600 2,
     channel 1545185000 CHAN_AERO_600 3,
     channel 1545215000 CHAN_AERO_600 4,
     channel 1545220000 CHAN_AERO_600 5,
     channel 1545225000 CHAN_AERO_600 6,
     channel 1546042500 CHAN_AERO_10500 7,
     channel 1546092500 CHAN_AERO_10500 8,
     channel 1546107500 CHAN_AERO_10500 9,
     channel 1546122500 CHAN_AERO_10500 10,
     channel 1546157500 CHAN_AERO_8400 11,
     channel 1546162500 CHAN_AERO_8400 12,
     channel 1546167500 CHAN_AERO_8400 13,
     channel 1546172500 CHAN_AERO_8400 14,
     channel 1546177500 CHAN_AERO_8400 15]"

section \<open>Satellites\<close>

text \<open>Fields that an initialiser leaves out are zero.\<close>

definition satellites :: "satellite list" where
  "satellites = [
     \<lparr>sat_name = ''I4-F3'', designator = ''4F3'', position = - 98, region = ''AORW'',
      stdc_egc_freq = 1537700000, channels = channels_4f3, freq_min = 1537700000, freq_max = 1546186430,
      preferred_rate_rtl = 1536000, preferred_rate_sdrplay = 3072000, preferred_rate_hackrf = 6000000\<rparr>,
     \<lparr>sat_name = ''I3-F5'', designator = ''3F5'', position = - 54, region = ''AORE'',
      stdc_egc_freq = 1541450000, channels = channels_3f5, freq_min = 1541450000, freq_max = 1546070000,
      preferred_rate_rtl = 1920000, preferred_rate_sdrplay = 3072000, preferred_rate_hackrf = 6000000\<rparr>,
     \<lparr>sat_name = ''Alphasat (I-4A F4)'', designator = ''AF1'', position = 25, region = ''EMEA'',
      stdc_egc_freq = 1537100000, channels = channels_af1, freq_min = 1537100000, freq_max = 1546192500,
      preferred_rate_rtl = 1536000, preferred_rate_sdrplay = 3072000, preferred_rate_hackrf = 6000000\<rparr>,
     \<lparr>sat_name = ''I-6 F1'', designator = ''F1'', position = 167 / 2, region = ''IOE'',
      stdc_egc_freq = 0, channels = channels_f1, freq_min = 1545160000, freq_max = 1546177500,
      preferred_rate_rtl = 0, preferred_rate_sdrplay = 0, preferred_rate_hackrf = 0\<rparr>]"

definition aliases :: "(string \<times> string) list" where
  "aliases = [(''98W'', ''4F3''), (''54W'', ''3F5''), (''25E'', ''AF1''), (''AF4'', ''AF1''), (''4AF4'', ''AF1''), (''alphasat'', ''AF1''), (''143E'', ''F1''), (''143.5E'', ''F1''), (''4F1'', ''F1'')]"

section \<open>Lookup\<close>

text \<open>\<open>strcasecmp(a, b) == 0\<close> in the C locale.\<close>

definition case_eq :: "string \<Rightarrow> string \<Rightarrow> bool" where
  "case_eq a b \<longleftrightarrow> map toupper_c a = map toupper_c b"

definition by_designator :: "string \<Rightarrow> satellite option" where
  "by_designator d = List.find (\<lambda>s. case_eq (designator s) d) satellites"

fun alias_lookup :: "(string \<times> string) list \<Rightarrow> string \<Rightarrow> satellite option" where
  "alias_lookup [] d = None"
| "alias_lookup ((a, target) # as) d =
     (if case_eq a d
      then (case by_designator target of Some s \<Rightarrow> Some s | None \<Rightarrow> alias_lookup as d)
      else alias_lookup as d)"

definition satellite_lookup :: "string \<Rightarrow> satellite option" where
  "satellite_lookup d = (case by_designator d of Some s \<Rightarrow> Some s | None \<Rightarrow> alias_lookup aliases d)"

text \<open>The columns of the list: aeronautical and STD-C channels.\<close>

definition aero_count :: "satellite \<Rightarrow> nat" where
  "aero_count s = length (filter (\<lambda>c. ch_type c \<noteq> CHAN_STDC_EGC) (channels s))"

section \<open>Facts\<close>

definition table_ok :: "satellite \<Rightarrow> bool" where
  "table_ok s \<longleftrightarrow> distinct (map channel_id (channels s)) \<and> distinct (map frequency (channels s)) \<and>
     (\<forall>c \<in> set (channels s). freq_min s \<le> frequency c \<and> frequency c \<le> freq_max s \<and>
        1525000000 \<le> frequency c \<and> frequency c \<le> 1559000000 \<and>
        (ch_type c = CHAN_STDC_EGC \<longrightarrow> frequency c = stdc_egc_freq s))"

lemmas tables = channels_4f3_def channels_3f5_def channels_af1_def channels_f1_def

lemma tables_ok: "s \<in> set satellites \<Longrightarrow> table_ok s"
  by (auto simp: satellites_def table_ok_def tables channel_def)

lemma by_designator_range: "by_designator d = Some s \<Longrightarrow> s \<in> set satellites \<and> case_eq (designator s) d"
  by (auto simp: by_designator_def find_Some_iff)

lemma alias_lookup_range: "alias_lookup as d = Some s \<Longrightarrow>
    s \<in> set satellites \<and> (\<exists>(a, t) \<in> set as. case_eq a d \<and> case_eq (designator s) t)"
  by (induction as d rule: alias_lookup.induct) (auto split: if_splits option.splits dest: by_designator_range)

lemma lookup_table: "list_all (\<lambda>(a, t). map_option designator (satellite_lookup a) = Some t)
   (aliases @ map (\<lambda>d. (d, d)) [''4F3'', ''3F5'', ''AF1'', ''F1''])"
  by code_simp

lemma designators: "map designator satellites = [''4F3'', ''3F5'', ''AF1'', ''F1'']"
  by (simp add: satellites_def)

section \<open>Properties\<close>





end
