(* ===== verification/Channelizer.thy ===== *)
theory Channelizer
  imports Satellites
begin

text \<open>
  \<open>channelizer.c\<close>: two stages of mixing and decimation.  A band shifts a group of neighbouring channels to zero
  frequency and decimates to an intermediate rate; a channel does the same with the output of its band.  Frequencies
  and rates are \<open>double\<close>: the rational number with a rounding after every operation; samples are \<open>float complex\<close>: pairs
  of rationals with a rounding to binary32 after every operation.  Memory allocation is taken to succeed, so every
  band and channel below the counters is active.
\<close>

section \<open>Arithmetic\<close>

abbreviation dadd :: "rat \<Rightarrow> rat \<Rightarrow> rat" where "dadd a b \<equiv> round64 (a + b)"
abbreviation dsub :: "rat \<Rightarrow> rat \<Rightarrow> rat" where "dsub a b \<equiv> round64 (a - b)"
abbreviation dmul :: "rat \<Rightarrow> rat \<Rightarrow> rat" where "dmul a b \<equiv> round64 (a * b)"
abbreviation ddiv :: "rat \<Rightarrow> rat \<Rightarrow> rat" where "ddiv a b \<equiv> round64 (a / b)"

type_synonym cf = "rat \<times> rat"

definition cadd :: "cf \<Rightarrow> cf \<Rightarrow> cf" where
  "cadd x y = (round32 (fst x + fst y), round32 (snd x + snd y))"

definition cmul :: "cf \<Rightarrow> cf \<Rightarrow> cf" where
  "cmul x y = (round32 (round32 (fst x * fst y) - round32 (snd x * snd y)), round32 (round32 (fst x * snd y) + round32 (snd x * fst y)))"

definition cscale :: "cf \<Rightarrow> rat \<Rightarrow> cf" where
  "cscale x t = (round32 (fst x * t), round32 (snd x * t))"

text \<open>The functions of the C library that are used, as parameters.\<close>

record libm =
  sin_d :: "rat \<Rightarrow> rat"
  cos_d :: "rat \<Rightarrow> rat"
  sin_f :: "rat \<Rightarrow> rat"
  cos_f :: "rat \<Rightarrow> rat"
  cabs_f :: "cf \<Rightarrow> rat"

definition M_PI :: rat where "M_PI = 884279719003555 / 281474976710656"

definition c01 :: rat where "c01 = round64 (1 / 10)"
definition c001 :: rat where "c001 = round64 (1 / 100)"
definition c005 :: rat where "c005 = round64 (5 / 100)"
definition c04 :: rat where "c04 = round64 (4 / 10)"

section \<open>State\<close>

definition MAX_STAGES :: nat where "MAX_STAGES = 4"
definition STAGE_FIR_TAPS :: nat where "STAGE_FIR_TAPS = 63"
definition CLEANUP_FIR_TAPS :: nat where "CLEANUP_FIR_TAPS = 127"
definition MAX_BANDS :: nat where "MAX_BANDS = 8"
definition MAX_CHANNELS :: nat where "MAX_CHANNELS = 32"

record decim_stage =
  decimation :: nat
  st_count :: nat
  fir_taps :: "rat list"
  fir_hist :: "cf list"
  fir_idx :: nat

record nco =
  nco_freq :: rat
  nco_phasor :: cf
  nco_current :: cf
  nco_renorm :: nat

record band_state =
  band_center :: rat
  intermediate_rate :: rat
  band_nco :: nco
  band_stages :: "decim_stage list"
  inter_buf :: "cf list" \<comment> \<open>the first \<open>inter_len\<close> entries\<close>
  inter_cap :: nat
  channel_indices :: "nat list"
  family :: nat

record channel_state =
  chan_id :: nat
  chan_type :: channel_type
  band_idx :: nat
  chan_nco :: nco
  chan_stages :: "decim_stage list"
  cleanup_taps :: "rat list"
  cleanup_hist :: "cf list"
  cleanup_idx :: nat
  has_cleanup :: bool
  gain :: rat
  out_buf :: "cf list" \<comment> \<open>the first \<open>out_len\<close> entries\<close>
  out_cap :: nat

record channelizer =
  center_freq :: rat
  samp_rate :: rat
  chans :: "channel_state list"
  bands :: "band_state list"

section \<open>Filter design\<close>

definition lowpass_raw :: "libm \<Rightarrow> nat \<Rightarrow> rat \<Rightarrow> nat \<Rightarrow> rat" where
  "lowpass_raw m M cutoff i =
     (let n = dsub (of_nat i) (ddiv (of_nat M) 2);
          h = (if \<bar>n\<bar> < round64 (1 / 10 ^ 10) then dmul 2 cutoff
               else ddiv (sin_d m (dmul (dmul (dmul 2 M_PI) cutoff) n)) (dmul M_PI n));
          w = dadd (dsub (round64 (42 / 100)) (dmul (1 / 2) (cos_d m (ddiv (dmul (dmul 2 M_PI) (of_nat i)) (of_nat M)))))
                (dmul (round64 (8 / 100)) (cos_d m (ddiv (dmul (dmul 4 M_PI) (of_nat i)) (of_nat M))))
      in dmul h w)"

definition design_lowpass :: "libm \<Rightarrow> nat \<Rightarrow> rat \<Rightarrow> rat list" where
  "design_lowpass m num_taps cutoff =
     (let hs = map (lowpass_raw m (num_taps - 1) cutoff) [0..<num_taps]; fir_sum = foldl dadd 0 hs
      in map (\<lambda>h. round32 (round32 h / round32 fir_sum)) hs)"

section \<open>Decimation\<close>

text \<open>The loop of a stage's filter, from the newest sample back through the ring.\<close>

fun fir_loop :: "rat list \<Rightarrow> cf list \<Rightarrow> nat \<Rightarrow> cf \<Rightarrow> cf" where
  "fir_loop [] hist idx acc = acc"
| "fir_loop (t # ts) hist idx acc =
     (let idx1 = (if idx = 0 then STAGE_FIR_TAPS - 1 else idx - 1)
      in fir_loop ts hist idx1 (cadd acc (cscale (hist ! idx1) t)))"

definition decim_stage_process :: "decim_stage \<Rightarrow> cf \<Rightarrow> decim_stage \<times> cf option" where
  "decim_stage_process st x =
     (let st1 = st\<lparr>fir_hist := (fir_hist st)[fir_idx st := x], fir_idx := (fir_idx st + 1) mod STAGE_FIR_TAPS, st_count := st_count st + 1\<rparr>
      in if st_count st1 < decimation st1 then (st1, None)
         else (st1\<lparr>st_count := 0\<rparr>, Some (fir_loop (fir_taps st1) (fir_hist st1) (fir_idx st1) (0, 0))))"

text \<open>The divisor that a stage gets when the rest is more than one stage can do.\<close>

fun divisor_loop :: "nat \<Rightarrow> nat \<Rightarrow> nat" where
  "divisor_loop remaining 0 = 2"
| "divisor_loop remaining (Suc d) =
     (if Suc d < 2 then 2 else if remaining mod Suc d = 0 then Suc d else divisor_loop remaining d)"

text \<open>The loop with so many stages left; it gives the stages and the rest.\<close>

fun plan_loop :: "nat \<Rightarrow> nat \<Rightarrow> nat \<Rightarrow> nat list \<times> nat" where
  "plan_loop 0 max_per_stage remaining = ([], remaining)"
| "plan_loop (Suc k) max_per_stage remaining =
     (if remaining \<le> 1 then ([], remaining)
      else if remaining \<le> max_per_stage then (let (ds, r) = plan_loop k max_per_stage 1 in (remaining # ds, r))
      else (let best = divisor_loop remaining max_per_stage; (ds, r) = plan_loop k max_per_stage (remaining div best)
            in (best # ds, r)))"

definition plan_decimation :: "nat \<Rightarrow> nat \<Rightarrow> nat \<Rightarrow> nat list" where
  "plan_decimation target max_per_stage max_stages =
     (let (ds, remaining) = plan_loop max_stages max_per_stage target
      in if 1 < remaining \<and> length ds < max_stages then ds @ [remaining] else ds)"

section \<open>Channel types\<close>

fun target_output_rate :: "channel_type \<Rightarrow> rat" where
  "target_output_rate CHAN_STDC_EGC = 19200"
| "target_output_rate CHAN_AERO_600 = 48000"
| "target_output_rate CHAN_AERO_1200 = 48000"
| "target_output_rate CHAN_AERO_10500 = 48000"
| "target_output_rate CHAN_AERO_8400 = 48000"

fun modulation_family :: "channel_type \<Rightarrow> nat" where
  "modulation_family CHAN_STDC_EGC = 0"
| "modulation_family CHAN_AERO_600 = 1"
| "modulation_family CHAN_AERO_1200 = 1"
| "modulation_family CHAN_AERO_10500 = 2"
| "modulation_family CHAN_AERO_8400 = 3"

fun target_intermediate_rate :: "channel_type \<Rightarrow> rat" where
  "target_intermediate_rate CHAN_AERO_10500 = 200000"
| "target_intermediate_rate CHAN_AERO_8400 = 200000"
| "target_intermediate_rate _ = 400000"

fun signal_bandwidth :: "channel_type \<Rightarrow> rat" where
  "signal_bandwidth CHAN_STDC_EGC = 4800"
| "signal_bandwidth CHAN_AERO_600 = 6000"
| "signal_bandwidth CHAN_AERO_1200 = 6000"
| "signal_bandwidth CHAN_AERO_10500 = 21000"
| "signal_bandwidth CHAN_AERO_8400 = 14000"

definition channel_gain :: "channel_type \<Rightarrow> rat" where "channel_gain t = 1"

text \<open>The loop over the divisors up to the square root.\<close>

function factor_loop :: "nat \<Rightarrow> nat \<Rightarrow> nat \<Rightarrow> nat \<Rightarrow> nat" where
  "factor_loop n limit d best =
     (if d * d \<le> n then
        (if n mod d \<noteq> 0 then factor_loop n limit (d + 1) best
         else (let best1 = (if d \<le> limit \<and> best < d then d else best); other = n div d;
                   best2 = (if other \<le> limit \<and> best1 < other then other else best1)
               in factor_loop n limit (d + 1) best2))
      else best)"
  by pat_completeness auto

termination
proof (relation "measure (\<lambda>(n, limit, d, best). n + 1 - d)")
  show "((n, limit, d + 1, best), (n, limit, d, best)) \<in> measure (\<lambda>(n, limit, d, best). n + 1 - d)"
    if "d * d \<le> n" for n limit d best :: nat
    using order.trans [OF le_square that] by simp
  show "((n, limit, d + 1, best2), (n, limit, d, best)) \<in> measure (\<lambda>(n, limit, d, best). n + 1 - d)"
    if "d * d \<le> n" for n limit d best best2 :: nat
    using order.trans [OF le_square that] by simp
qed simp

declare factor_loop.simps [simp del]

definition largest_factor_leq :: "nat \<Rightarrow> nat \<Rightarrow> nat" where
  "largest_factor_leq n limit =
     (if n \<le> 1 then 1
      else (let best = factor_loop n limit 2 1 in if n \<le> limit \<and> best < n then n else best))"

section \<open>Bands and channels\<close>

definition new_stage :: "libm \<Rightarrow> nat \<Rightarrow> decim_stage" where
  "new_stage m d = \<lparr>decimation = d, st_count = 0, fir_taps = design_lowpass m STAGE_FIR_TAPS (ddiv c04 (of_nat d)),
     fir_hist = replicate STAGE_FIR_TAPS (0, 0), fir_idx = 0\<rparr>"

definition phasor :: "libm \<Rightarrow> rat \<Rightarrow> rat \<Rightarrow> cf" where
  "phasor m freq rate = (let phase_inc = round32 (ddiv (dmul (dmul (- 2) M_PI) freq) rate) in (cos_f m phase_inc, sin_f m phase_inc))"

definition new_nco :: "libm \<Rightarrow> rat \<Rightarrow> rat \<Rightarrow> nco" where
  "new_nco m freq rate = \<lparr>nco_freq = freq, nco_phasor = phasor m freq rate, nco_current = (1, 0), nco_renorm = 0\<rparr>"

text \<open>\<open>init_band\<close>, with the oscillator that \<open>find_or_create_band\<close> gives to the new band.\<close>

definition buffer_cap :: "rat \<Rightarrow> nat" where
  "buffer_cap rate = nat (trunc (dmul rate c01)) + 512"

definition init_band :: "libm \<Rightarrow> rat \<Rightarrow> rat \<Rightarrow> nat \<Rightarrow> band_state" where
  "init_band m freq rate s1_decim0 =
     (let s1_decim = max 1 s1_decim0; inter = ddiv rate (of_nat s1_decim)
      in \<lparr>band_center = freq, intermediate_rate = inter, band_nco = \<lparr>nco_freq = 0, nco_phasor = (1, 0), nco_current = (1, 0), nco_renorm = 0\<rparr>,
          band_stages = map (new_stage m) (plan_decimation s1_decim 16 MAX_STAGES), inter_buf = [], inter_cap = buffer_cap inter,
          channel_indices = [], family = 0\<rparr>)"

definition band_fits :: "rat \<Rightarrow> nat \<Rightarrow> rat \<Rightarrow> band_state \<Rightarrow> bool" where
  "band_fits freq fam actual_inter bd \<longleftrightarrow>
     family bd = fam \<and> \<bar>dsub (intermediate_rate bd) actual_inter\<bar> \<le> dmul actual_inter c001 \<and>
     \<bar>dsub (band_center bd) freq\<bar> \<le> dmul actual_inter c04 \<and> length (channel_indices bd) < MAX_CHANNELS"

fun find_band :: "(band_state \<Rightarrow> bool) \<Rightarrow> band_state list \<Rightarrow> nat \<Rightarrow> nat option" where
  "find_band P [] b = None"
| "find_band P (bd # bds) b = (if P bd then Some b else find_band P bds (b + 1))"

definition join_band :: "nat \<Rightarrow> band_state \<Rightarrow> band_state" where
  "join_band slot bd = bd\<lparr>channel_indices := channel_indices bd @ [slot]\<rparr>"

definition find_or_create_band ::
  "libm \<Rightarrow> channelizer \<Rightarrow> rat \<Rightarrow> channel_type \<Rightarrow> nat \<Rightarrow> nat \<Rightarrow> nat option \<times> channelizer" where
  "find_or_create_band m ch freq type slot s1_decim =
     (let actual_inter = ddiv (samp_rate ch) (of_nat s1_decim); fam = modulation_family type
      in case find_band (band_fits freq fam actual_inter) (bands ch) 0 of
           Some b \<Rightarrow> (Some b, ch\<lparr>bands := (bands ch)[b := join_band slot (bands ch ! b)]\<rparr>)
         | None \<Rightarrow>
             if MAX_BANDS \<le> length (bands ch) then (None, ch)
             else (let bd = (init_band m freq (samp_rate ch) s1_decim)
                              \<lparr>family := fam, band_nco := new_nco m (dsub freq (center_freq ch)) (samp_rate ch)\<rparr>
                   in (Some (length (bands ch)), ch\<lparr>bands := bands ch @ [join_band slot bd]\<rparr>)))"

definition channelizer_create :: "rat \<Rightarrow> rat \<Rightarrow> channelizer" where
  "channelizer_create center rate = \<lparr>center_freq = center, samp_rate = rate, chans = [], bands = []\<rparr>"

definition stage1_decim :: "rat \<Rightarrow> channel_type \<Rightarrow> nat \<times> nat" where
  "stage1_decim rate type =
     (let total_decim = max 1 (nat (trunc (ddiv rate (target_output_rate type))));
          max_s1 = max 1 (nat (trunc (ddiv rate (target_intermediate_rate type))));
          s1 = largest_factor_leq total_decim max_s1
      in (s1, max 1 (total_decim div s1)))"

definition decimated_rate :: "rat \<Rightarrow> nat list \<Rightarrow> rat" where
  "decimated_rate rate ds = foldl (\<lambda>r d. ddiv r (of_nat d)) rate ds"

definition new_channel :: "libm \<Rightarrow> nat \<Rightarrow> channel_type \<Rightarrow> nat \<Rightarrow> band_state \<Rightarrow> rat \<Rightarrow> nat \<Rightarrow> channel_state" where
  "new_channel m cid type bidx bd freq s2_decim =
     (let inter_rate = intermediate_rate bd; stage_decims = plan_decimation s2_decim 16 MAX_STAGES;
          stage_rate = decimated_rate inter_rate stage_decims; sig_bw = signal_bandwidth type;
          cleanup = 0 < sig_bw \<and> sig_bw < dmul stage_rate (round64 (8 / 10))
      in \<lparr>chan_id = cid, chan_type = type, band_idx = bidx, chan_nco = new_nco m (dsub freq (band_center bd)) inter_rate,
          chan_stages = map (new_stage m) stage_decims,
          cleanup_taps = (if cleanup then design_lowpass m CLEANUP_FIR_TAPS (ddiv sig_bw (dmul 2 stage_rate)) else replicate CLEANUP_FIR_TAPS 0),
          cleanup_hist = replicate (CLEANUP_FIR_TAPS * 2) (0, 0), cleanup_idx = 0, has_cleanup = cleanup, gain = channel_gain type,
          out_buf = [], out_cap = buffer_cap stage_rate\<rparr>)"

definition channelizer_add_channel :: "libm \<Rightarrow> channelizer \<Rightarrow> rat \<Rightarrow> channel_type \<Rightarrow> nat \<Rightarrow> int \<times> channelizer" where
  "channelizer_add_channel m ch freq type cid =
     (if MAX_CHANNELS \<le> length (chans ch) then (- 1, ch)
      else (let slot = length (chans ch); (s1, s2) = stage1_decim (samp_rate ch) type
            in case find_or_create_band m ch freq type slot s1 of
                 (None, ch1) \<Rightarrow> (- 1, ch1)
               | (Some bidx, ch1) \<Rightarrow> (0, ch1\<lparr>chans := chans ch1 @ [new_channel m cid type bidx (bands ch1 ! bidx) freq s2]\<rparr>)))"

section \<open>Processing\<close>

definition nco_step :: "libm \<Rightarrow> nco \<Rightarrow> nco" where
  "nco_step m n =
     (let current = cmul (nco_current n) (nco_phasor n); renorm = nco_renorm n + 1
      in if 1024 \<le> renorm
         then (let mag = cabs_f m current
               in n\<lparr>nco_current := (if 0 < mag then (round32 (fst current / mag), round32 (snd current / mag)) else current), nco_renorm := 0\<rparr>)
         else n\<lparr>nco_current := current, nco_renorm := renorm\<rparr>)"

fun cascade :: "decim_stage list \<Rightarrow> cf \<Rightarrow> decim_stage list \<times> cf option" where
  "cascade [] x = ([], Some x)"
| "cascade (st # sts) x =
     (case decim_stage_process st x of
        (st1, None) \<Rightarrow> (st1 # sts, None)
      | (st1, Some y) \<Rightarrow> (let (sts1, r) = cascade sts y in (st1 # sts1, r)))"

definition band_step :: "libm \<Rightarrow> cf \<Rightarrow> band_state \<Rightarrow> band_state" where
  "band_step m input bd =
     (let x = cmul input (nco_current (band_nco bd)); (sts, r) = cascade (band_stages bd) x;
          bd1 = bd\<lparr>band_nco := nco_step m (band_nco bd), band_stages := sts\<rparr>
      in case r of
           None \<Rightarrow> bd1
         | Some y \<Rightarrow> if length (inter_buf bd1) < inter_cap bd1 then bd1\<lparr>inter_buf := inter_buf bd1 @ [y]\<rparr> else bd1)"

text \<open>\<open>generic_fir_ccf\<close> for one output.\<close>

definition fir_ccf :: "rat list \<Rightarrow> cf list \<Rightarrow> cf" where
  "fir_ccf taps xs = foldl cadd (0, 0) (map2 (\<lambda>t x. cscale x t) taps xs)"

definition cleanup_step :: "cf \<Rightarrow> channel_state \<Rightarrow> channel_state \<times> cf" where
  "cleanup_step x cs =
     (if has_cleanup cs
      then (let cs1 = cs\<lparr>cleanup_hist := (cleanup_hist cs)[cleanup_idx cs := x, cleanup_idx cs + CLEANUP_FIR_TAPS := x],
                         cleanup_idx := (cleanup_idx cs + 1) mod CLEANUP_FIR_TAPS\<rparr>
            in (cs1, fir_ccf (cleanup_taps cs1) (take CLEANUP_FIR_TAPS (drop (cleanup_idx cs1) (cleanup_hist cs1)))))
      else (cs, x))"

definition channel_step :: "libm \<Rightarrow> cf \<Rightarrow> channel_state \<Rightarrow> channel_state" where
  "channel_step m isamp cs =
     (let x = cmul isamp (nco_current (chan_nco cs)); (sts, r) = cascade (chan_stages cs) x;
          cs1 = cs\<lparr>chan_nco := nco_step m (chan_nco cs), chan_stages := sts\<rparr>
      in case r of
           None \<Rightarrow> cs1
         | Some y \<Rightarrow> (let (cs2, z) = cleanup_step y cs1
                     in if length (out_buf cs2) < out_cap cs2 then cs2\<lparr>out_buf := out_buf cs2 @ [cscale z (gain cs2)]\<rparr> else cs2))"

text \<open>The second stage: all samples of a band, each to all channels of the band.\<close>

definition band_channels :: "libm \<Rightarrow> band_state \<Rightarrow> channel_state list \<Rightarrow> channel_state list" where
  "band_channels m bd cs =
     foldl (\<lambda>cs y. foldl (\<lambda>cs cidx. cs[cidx := channel_step m y (cs ! cidx)]) cs (channel_indices bd)) cs (inter_buf bd)"

type_synonym output_event = "nat \<times> channel_type \<times> cf list"

definition flush_channel :: "channel_state \<Rightarrow> channel_state \<times> output_event list" where
  "flush_channel cs =
     (if 32 \<le> length (out_buf cs) then (cs\<lparr>out_buf := []\<rparr>, [(chan_id cs, chan_type cs, out_buf cs)]) else (cs, []))"

definition process_block :: "libm \<Rightarrow> channelizer \<Rightarrow> cf list \<Rightarrow> channelizer \<times> output_event list" where
  "process_block m ch samples =
     (let bds = foldl (\<lambda>bds x. map (band_step m x) bds) (bands ch) samples;
          cs = foldl (\<lambda>cs bd. band_channels m bd cs) (chans ch) bds;
          flushed = map flush_channel cs
      in (ch\<lparr>bands := map (\<lambda>bd. bd\<lparr>inter_buf := []\<rparr>) bds, chans := map fst flushed\<rparr>, concat (map snd flushed)))"

definition max_block :: "channelizer \<Rightarrow> nat" where
  "max_block ch = max 1 (nat (trunc (dmul (samp_rate ch) c005)))"

function channelizer_process :: "libm \<Rightarrow> channelizer \<Rightarrow> cf list \<Rightarrow> channelizer \<times> output_event list" where
  "channelizer_process m ch samples =
     (if samples = [] then (ch, [])
      else (let n = max_block ch; (ch1, es) = process_block m ch (take n samples); (ch2, fs) = channelizer_process m ch1 (drop n samples)
            in (ch2, es @ fs)))"
  by pat_completeness auto

termination
  by (relation "measure (\<lambda>(m, ch, samples). length samples)") (auto simp: max_block_def)

declare channelizer_process.simps [simp del]

text \<open>\<open>generic_convert_i8_cf\<close>, and the blocks of 4096 samples that are converted.\<close>

fun convert_i8_cf :: "int list \<Rightarrow> cf list" where
  "convert_i8_cf (i # q # iq) = (round32 (of_int i / 128), round32 (of_int q / 128)) # convert_i8_cf iq"
| "convert_i8_cf _ = []"

function channelizer_process_i8 :: "libm \<Rightarrow> channelizer \<Rightarrow> int list \<Rightarrow> channelizer \<times> output_event list" where
  "channelizer_process_i8 m ch iq =
     (if iq = [] then (ch, [])
      else (let (ch1, es) = channelizer_process m ch (convert_i8_cf (take 8192 iq)); (ch2, fs) = channelizer_process_i8 m ch1 (drop 8192 iq)
            in (ch2, es @ fs)))"
  by pat_completeness auto

termination
  by (relation "measure (\<lambda>(m, ch, iq). length iq)") auto

declare channelizer_process_i8.simps [simp del]

section \<open>Queries and adjustment\<close>

definition channel_freq :: "channelizer \<Rightarrow> channel_state \<Rightarrow> rat" where
  "channel_freq ch cs = dadd (band_center (bands ch ! band_idx cs)) (nco_freq (chan_nco cs))"

definition channelizer_has_freq :: "channelizer \<Rightarrow> rat \<Rightarrow> rat \<Rightarrow> bool" where
  "channelizer_has_freq ch freq tolerance \<longleftrightarrow> list_ex (\<lambda>cs. \<bar>dsub (channel_freq ch cs) freq\<bar> < tolerance) (chans ch)"

definition channelizer_output_rate :: "channelizer \<Rightarrow> nat \<Rightarrow> rat" where
  "channelizer_output_rate ch cid =
     (case List.find (\<lambda>cs. chan_id cs = cid) (chans ch) of
        None \<Rightarrow> 0
      | Some cs \<Rightarrow> decimated_rate (intermediate_rate (bands ch ! band_idx cs)) (map decimation (chan_stages cs)))"

definition retune :: "libm \<Rightarrow> rat \<Rightarrow> rat \<Rightarrow> nco \<Rightarrow> nco" where
  "retune m freq rate n = n\<lparr>nco_freq := freq, nco_phasor := phasor m freq rate\<rparr>"

definition channelizer_adjust_center :: "libm \<Rightarrow> channelizer \<Rightarrow> rat \<Rightarrow> channelizer" where
  "channelizer_adjust_center m ch offset_hz =
     ch\<lparr>bands := map (\<lambda>bd. bd\<lparr>band_nco := retune m (dadd (nco_freq (band_nco bd)) offset_hz) (samp_rate ch) (band_nco bd)\<rparr>) (bands ch),
        center_freq := dsub (center_freq ch) offset_hz\<rparr>"

text \<open>\<open>channelizer_finalize\<close>: one band, then all of them.\<close>

definition recenter_channel :: "libm \<Rightarrow> rat \<Rightarrow> rat \<Rightarrow> channel_state \<Rightarrow> channel_state" where
  "recenter_channel m shift inter_rate cs =
     cs\<lparr>chan_nco := (retune m (dsub (nco_freq (chan_nco cs)) shift) inter_rate (chan_nco cs))\<lparr>nco_current := (1, 0)\<rparr>\<rparr>"

definition recenter_band :: "libm \<Rightarrow> rat \<Rightarrow> rat \<Rightarrow> rat \<Rightarrow> band_state \<Rightarrow> band_state" where
  "recenter_band m shift centroid rate bd =
     bd\<lparr>band_nco := (retune m (dadd (nco_freq (band_nco bd)) shift) rate (band_nco bd))\<lparr>nco_current := (1, 0)\<rparr>, band_center := centroid\<rparr>"

definition band_centroid :: "channelizer \<Rightarrow> band_state \<Rightarrow> rat" where
  "band_centroid ch bd =
     (let idxs = channel_indices bd;
          freq_sum = foldl (\<lambda>acc cidx. dadd acc (dadd (band_center bd) (nco_freq (chan_nco (chans ch ! cidx))))) 0 idxs
      in ddiv freq_sum (of_nat (length idxs)))"

definition finalize_band :: "libm \<Rightarrow> nat \<Rightarrow> channelizer \<Rightarrow> channelizer" where
  "finalize_band m b ch =
     (let bd = bands ch ! b; idxs = channel_indices bd
      in if idxs = [] then ch
         else (let centroid = band_centroid ch bd; shift = dsub centroid (band_center bd)
               in if \<bar>shift\<bar> < 1 then ch
                  else ch\<lparr>bands := (bands ch)[b := recenter_band m shift centroid (samp_rate ch) bd],
                          chans := foldl (\<lambda>cs cidx. cs[cidx := recenter_channel m shift (intermediate_rate bd) (cs ! cidx)]) (chans ch) idxs\<rparr>))"

definition channelizer_finalize :: "libm \<Rightarrow> channelizer \<Rightarrow> channelizer" where
  "channelizer_finalize m ch = fold (finalize_band m) [0..<length (bands ch)] ch"

end
