(* ===== verification/SdrPlan.thy ===== *)
theory SdrPlan
  imports Channelizer
begin

text \<open>
  The parts of \<open>main.c\<close> that turn a satellite, a radio and the options into a centre frequency, a sample rate, a mode
  and a set-up channelizer, and the loop that feeds it.  All radio backends are taken to be compiled in.
\<close>

section \<open>Settings\<close>

datatype op_mode = MODE_AUTO | MODE_AERO | MODE_STDC | MODE_FULL

record radio =
  rtl :: bool \<comment> \<open>\<open>rtl_dev_index >= 0\<close>\<close>
  sdrplay :: bool \<comment> \<open>\<open>sdrplay_serial != NULL\<close>\<close>
  hackrf :: bool \<comment> \<open>\<open>hackrf_serial != NULL\<close>\<close>

record settings =
  rate :: rat
  center :: rat
  mode :: op_mode
  skip_c_channel :: bool
  ppm_correction :: rat

definition c12 :: rat where "c12 = round64 (12 / 10)"

section \<open>Choice of the centre, the rate and the mode\<close>

text \<open>The loop that finds the lowest and the highest frequency of some channels.\<close>

definition widen :: "rat \<Rightarrow> rat \<times> rat \<Rightarrow> rat \<times> rat" where
  "widen f = (\<lambda>(lo, hi). (if f < lo then f else lo, if hi < f then f else hi))"

definition band_edges :: "(channel_def \<Rightarrow> bool) \<Rightarrow> channel_def list \<Rightarrow> rat \<times> rat" where
  "band_edges P cds = foldl (\<lambda>e cd. if P cd then widen (frequency cd) e else e) (1000000000000, 0) cds"

text \<open>An RTL-SDR cannot cover the C channels.\<close>

definition auto_skip_c :: "radio \<Rightarrow> settings \<Rightarrow> satellite \<Rightarrow> bool" where
  "auto_skip_c r s sat \<longleftrightarrow> rtl r \<and> \<not> skip_c_channel s \<and> rate s = 0 \<and> mode s \<noteq> MODE_STDC \<and>
     (let (lo, hi) = band_edges (\<lambda>cd. ch_type cd \<noteq> CHAN_STDC_EGC) (channels sat) in 2400000 < dmul (dsub hi lo) c12)"

definition wanted :: "settings \<Rightarrow> channel_def \<Rightarrow> bool" where
  "wanted s cd \<longleftrightarrow> \<not> (mode s = MODE_AERO \<and> ch_type cd = CHAN_STDC_EGC) \<and> \<not> (mode s = MODE_STDC \<and> ch_type cd \<noteq> CHAN_STDC_EGC) \<and>
     \<not> (skip_c_channel s \<and> ch_type cd = CHAN_AERO_8400)"

definition wanted_edges :: "settings \<Rightarrow> satellite \<Rightarrow> rat \<times> rat" where
  "wanted_edges s sat =
     (let (lo, hi) = band_edges (wanted s) (channels sat) in if hi < lo then (freq_min sat, freq_max sat) else (lo, hi))"

definition auto_rate :: "radio \<Rightarrow> satellite \<Rightarrow> rat \<Rightarrow> rat" where
  "auto_rate r sat width =
     (let preferred = (if hackrf r then preferred_rate_hackrf sat else if sdrplay r then preferred_rate_sdrplay sat
                       else if rtl r then preferred_rate_rtl sat else 0);
          min_rate = (if rtl r then 1536000 else if sdrplay r then 3072000 else if hackrf r then 6000000 else 2400000);
          chosen = (if 0 < preferred \<and> width \<le> preferred then preferred
                    else (let wide = dmul width c12 in if wide < min_rate then min_rate else wide))
      in if sdrplay r \<and> 10000000 < chosen then 10000000 else chosen)"

definition default_rate :: "radio \<Rightarrow> rat" where
  "default_rate r = (if hackrf r then 6000000 else if sdrplay r then 3072000 else if rtl r then 1536000 else 2400000)"

definition for_satellite :: "radio \<Rightarrow> satellite \<Rightarrow> settings \<Rightarrow> settings" where
  "for_satellite r sat s0 =
     (let s1 = (if auto_skip_c r s0 sat then s0\<lparr>skip_c_channel := True\<rparr> else s0);
          (lo, hi) = wanted_edges s1 sat;
          s2 = (if center s1 = 0 then s1\<lparr>center := ddiv (dadd lo hi) 2\<rparr> else s1)
      in if rate s2 = 0 then s2\<lparr>rate := auto_rate r sat (dsub hi lo)\<rparr> else s2)"

definition in_reach :: "settings \<Rightarrow> channel_def \<Rightarrow> bool" where
  "in_reach s cd \<longleftrightarrow> \<bar>dsub (frequency cd) (center s)\<bar> \<le> ddiv (rate s) 2"

definition auto_mode :: "satellite \<Rightarrow> settings \<Rightarrow> settings" where
  "auto_mode sat s =
     (if mode s \<noteq> MODE_AUTO then s
      else (let near = filter (in_reach s) (channels sat);
                have_stdc = list_ex (\<lambda>cd. ch_type cd = CHAN_STDC_EGC) near; have_aero = list_ex (\<lambda>cd. ch_type cd \<noteq> CHAN_STDC_EGC) near
            in if have_stdc \<and> have_aero then s\<lparr>mode := MODE_FULL\<rparr>
               else if have_stdc then s\<lparr>mode := MODE_STDC\<rparr>
               else if have_aero then s\<lparr>mode := MODE_AERO\<rparr> else s))"

definition plan_radio :: "radio \<Rightarrow> satellite option \<Rightarrow> settings \<Rightarrow> settings" where
  "plan_radio r osat s0 =
     (let s1 = (case osat of None \<Rightarrow> s0 | Some sat \<Rightarrow> for_satellite r sat s0);
          s2 = (if rate s1 = 0 then s1\<lparr>rate := default_rate r\<rparr> else s1);
          s3 = (if center s2 = 0 then s2\<lparr>center := 1545100000\<rparr> else s2)
      in case osat of None \<Rightarrow> s3 | Some sat \<Rightarrow> auto_mode sat s3)"

section \<open>The channelizer\<close>

definition add_satellite_channels :: "libm \<Rightarrow> settings \<Rightarrow> channel_def list \<Rightarrow> channelizer \<Rightarrow> channelizer" where
  "add_satellite_channels m s cds ch =
     foldl (\<lambda>ch cd. if in_reach s cd \<and> wanted s cd then snd (channelizer_add_channel m ch (frequency cd) (ch_type cd) (channel_id cd)) else ch) ch cds"

definition setup_channelizer :: "libm \<Rightarrow> radio \<Rightarrow> settings \<Rightarrow> satellite \<Rightarrow> channelizer" where
  "setup_channelizer m r s sat =
     (let ch = channelizer_finalize m (add_satellite_channels m s (channels sat) (channelizer_create (center s) (rate s)))
      in if ppm_correction s \<noteq> 0 \<and> \<not> rtl r
         then channelizer_adjust_center m ch (dmul (dmul (ppm_correction s) (center s)) (round64 (1 / 10 ^ 6)))
         else ch)"

text \<open>The body of the processing loop on the buffers of the queue, in the two sample formats.\<close>

datatype sample_buf = SAMPLE_FMT_INT8 "int list" | SAMPLE_FMT_FLOAT "cf list"

definition consume :: "libm \<Rightarrow> channelizer \<Rightarrow> sample_buf \<Rightarrow> channelizer \<times> output_event list" where
  "consume m ch buf =
     (case buf of SAMPLE_FMT_INT8 iq \<Rightarrow> channelizer_process_i8 m ch iq | SAMPLE_FMT_FLOAT xs \<Rightarrow> channelizer_process m ch xs)"

fun consume_all :: "libm \<Rightarrow> channelizer \<Rightarrow> sample_buf list \<Rightarrow> channelizer \<times> output_event list" where
  "consume_all m ch [] = (ch, [])"
| "consume_all m ch (b # bs) = (let (ch1, es) = consume m ch b; (ch2, fs) = consume_all m ch1 bs in (ch2, es @ fs))"

end
