(* ===== verification/ChannelizerPlan.thy ===== *)
theory ChannelizerPlan
  imports Channelizer
begin

text \<open>
  Facts about the choice of the decimations in \<open>channelizer.c\<close>: \<open>largest_factor_leq\<close> finds the greatest divisor
  within the limit, and \<open>plan_decimation\<close> factors a number into stages when it can.
\<close>

section \<open>The divisors chosen\<close>

definition divisors_upto :: "nat \<Rightarrow> nat \<Rightarrow> nat \<Rightarrow> nat set" where
  "divisors_upto n limit d = {e. e dvd n \<and> e \<le> limit \<and> e \<noteq> n \<and> (e < d \<or> n div e < d)}"

definition greatest_in :: "nat \<Rightarrow> nat set \<Rightarrow> bool" where
  "greatest_in b S \<longleftrightarrow> b \<in> S \<and> (\<forall>e \<in> S. e \<le> b)"

lemma divisors_upto_Suc:
  assumes "2 \<le> d" and "d * d \<le> n"
  shows "divisors_upto n limit (d + 1) =
    divisors_upto n limit d \<union> (if d dvd n then {e. (e = d \<or> e = n div d) \<and> e \<le> limit} else {})"
proof -
  have n: "d < n" using assms by (metis less_le_trans n_less_m_mult_n numeral_2_eq_2 Suc_le_lessD zero_less_numeral order.strict_trans2)
  have "e = d \<or> e = n div d" if "e dvd n" "n div e = d" for e
    using that n by (metis dvd_div_mult_self nonzero_mult_div_cancel_left mult_is_0 not_less0)
  moreover have "n div (n div d) = d" "n div d dvd n" "n div d \<noteq> n" if "d dvd n"
    using that n assms(1) by (auto elim!: dvdE)
  moreover have "d dvd n" if "e dvd n" "n div e = d" for e
    using that by (metis dvd_div_mult_self dvd_triv_left)
  ultimately show ?thesis
    using n unfolding divisors_upto_def by (auto simp: less_Suc_eq)
qed

lemma factor_loop_greatest:
  "2 \<le> d \<Longrightarrow> 1 < n \<Longrightarrow> greatest_in best (divisors_upto n limit d) \<Longrightarrow>
    greatest_in (factor_loop n limit d best) {e. e dvd n \<and> e \<le> limit \<and> e \<noteq> n}"
proof (induction n limit d best rule: factor_loop.induct)
  case (1 n limit d best)
  note up = divisors_upto_Suc [OF "1.prems"(1), of n limit]
  show ?case
  proof (cases "d * d \<le> n")
    case True
    show ?thesis
    proof (cases "n mod d = 0")
      case False
      then have "\<not> d dvd n" by presburger
      then show ?thesis
        using "1.IH"(1) [OF True] False "1.prems" up [OF True] by (simp add: factor_loop.simps [of n limit d] True)
    next
      case False': True
      define best1 where "best1 = (if d \<le> limit \<and> best < d then d else best)"
      define best2 where "best2 = (if n div d \<le> limit \<and> best1 < n div d then n div d else best1)"
      have "d dvd n" using False' by presburger
      then have "greatest_in best2 (divisors_upto n limit (d + 1))"
        using "1.prems"(3) unfolding up [OF True] greatest_in_def best2_def best1_def by auto
      moreover have "factor_loop n limit d best = factor_loop n limit (d + 1) best2"
        unfolding best2_def best1_def by (subst factor_loop.simps) (simp only: True False' Let_def simp_thms if_True if_False)
      moreover have "\<not> n mod d \<noteq> 0" using False' by simp
      ultimately show ?thesis
        using "1.IH"(2) [OF True, of best1 "n div d" best2] "1.prems" by (simp add: best1_def best2_def)
    qed
  next
    case False
    have "e < d \<or> n div e < d" if "e dvd n" for e
    proof (rule ccontr)
      assume "\<not> (e < d \<or> n div e < d)"
      then have "d * d \<le> e * (n div e)" by (intro mult_le_mono) auto
      with False that show False by simp
    qed
    then have "divisors_upto n limit d = {e. e dvd n \<and> e \<le> limit \<and> e \<noteq> n}"
      by (auto simp: divisors_upto_def)
    with "1.prems"(3) show ?thesis by (simp add: factor_loop.simps [of n limit d] False)
  qed
qed

lemma largest_factor:
  assumes "1 \<le> n" and "1 \<le> limit"
  shows "largest_factor_leq n limit dvd n" and "largest_factor_leq n limit \<le> limit"
    and "e dvd n \<Longrightarrow> e \<le> limit \<Longrightarrow> e \<le> largest_factor_leq n limit"
proof -
  have "greatest_in (largest_factor_leq n limit) {e. e dvd n \<and> e \<le> limit}"
  proof (cases "n = 1")
    case True
    then show ?thesis using assms by (simp add: largest_factor_leq_def greatest_in_def)
  next
    case False
    with assms have n: "1 < n" by simp
    have "greatest_in 1 (divisors_upto n limit 2)"
    proof -
      have "e = 1" if "e dvd n" "e \<noteq> n" "e < 2 \<or> n div e < 2" for e
      proof -
        from that(1) obtain k where k: "n = e * k" ..
        with n have "0 < e" "0 < k" by (cases e; cases k; simp)+
        moreover have "k \<noteq> 1" using that(2) k by auto
        ultimately show ?thesis using that(3) k by auto
      qed
      then show ?thesis using n assms(2) by (auto simp: greatest_in_def divisors_upto_def)
    qed
    from factor_loop_greatest [OF _ n this] show ?thesis
      using n by (auto simp: largest_factor_leq_def greatest_in_def Let_def)
  qed
  then show "largest_factor_leq n limit dvd n" "largest_factor_leq n limit \<le> limit"
    "e dvd n \<Longrightarrow> e \<le> limit \<Longrightarrow> e \<le> largest_factor_leq n limit" by (auto simp: greatest_in_def)
qed

lemma divisor_loop:
  "divisor_loop r m = 2 \<and> (\<forall>e. 2 \<le> e \<and> e \<le> m \<longrightarrow> \<not> e dvd r) \<or>
   2 \<le> divisor_loop r m \<and> divisor_loop r m \<le> m \<and> divisor_loop r m dvd r \<and> (\<forall>e. e dvd r \<and> e \<le> m \<longrightarrow> e \<le> divisor_loop r m)"
proof (induction m)
  case (Suc d)
  show ?case
  proof (cases "Suc d < 2")
    case True
    then show ?thesis by auto
  next
    case False
    show ?thesis
    proof (cases "r mod Suc d = 0")
      case True
      then have "Suc d dvd r" by presburger
      then show ?thesis using False True by auto
    next
      case n: False
      then have "\<not> Suc d dvd r" by presburger
      then have "e \<le> d" if "e dvd r" "e \<le> Suc d" for e using that le_Suc_eq by auto
      moreover have "divisor_loop r (Suc d) = divisor_loop r d" using False n by simp
      ultimately show ?thesis using Suc by (metis le_SucI)
    qed
  qed
qed simp

lemma divisor_loop_range: "2 \<le> m \<Longrightarrow> 2 \<le> divisor_loop r m \<and> divisor_loop r m \<le> m"
  using divisor_loop [of r m] by auto

section \<open>The plan\<close>

text \<open>No divisor without a small divisor of its own: no prime factor above 16.\<close>

definition smooth16 :: "nat \<Rightarrow> bool" where
  "smooth16 n \<longleftrightarrow> (\<forall>q. q dvd n \<and> 1 < q \<longrightarrow> (\<exists>d. d dvd q \<and> 1 < d \<and> d \<le> 16))"

lemma smooth16D: "smooth16 n \<Longrightarrow> q dvd n \<Longrightarrow> 1 < q \<Longrightarrow> \<exists>d. d dvd q \<and> 1 < d \<and> d \<le> 16"
  by (auto simp: smooth16_def)

lemma smooth16_dvd: "smooth16 n \<Longrightarrow> k dvd n \<Longrightarrow> smooth16 k"
  unfolding smooth16_def by (meson dvd_trans)

lemma smooth16_divisor:
  assumes "smooth16 n" and "16 < n"
  shows "divisor_loop n 16 dvd n" and "5 \<le> divisor_loop n 16"
proof -
  have "1 < n" using assms(2) by simp
  then obtain d where d: "d dvd n" "1 < d" "d \<le> 16" using smooth16D [OF assms(1) dvd_refl] by auto
  let ?D = "divisor_loop n 16"
  have D: "2 \<le> ?D" "?D dvd n" "\<And>e. e dvd n \<Longrightarrow> e \<le> 16 \<Longrightarrow> e \<le> ?D"
    using divisor_loop [of n 16] d by auto
  show "?D dvd n" by (rule D(2))
  show "5 \<le> ?D"
  proof (rule ccontr)
    assume s: "\<not> 5 \<le> ?D"
    from D(2) obtain k where k: "n = ?D * k" ..
    have "1 < k"
    proof (rule ccontr)
      assume "\<not> 1 < k"
      then have "?D * k \<le> 4 * 1" using s by (intro mult_le_mono) auto
      with k assms(2) show False by linarith
    qed
    moreover have "k dvd n" by (subst k) simp
    ultimately obtain q where q: "q dvd k" "1 < q" "q \<le> 16" using assms(1) using smooth16D by blast
    then have "q dvd n" using \<open>k dvd n\<close> dvd_trans by blast
    from D(3) [OF this q(3)] have "?D * q \<le> 4 * 4" using s by (intro mult_le_mono) auto
    moreover have "?D * q dvd n" by (subst k) (rule mult_dvd_mono [OF dvd_refl q(1)])
    ultimately have "?D * q \<le> ?D" using D(3) by simp
    then show False using q(2) D(1) by simp
  qed
qed

lemma plan_loop_exact:
  "smooth16 n \<Longrightarrow> 1 \<le> n \<Longrightarrow> n \<le> 16 * 5 ^ k \<Longrightarrow> \<exists>ds. plan_loop (Suc k) 16 n = (ds, 1) \<and> prod_list ds = n"
proof (induction k arbitrary: n)
  case 0
  then show ?case by (cases "n = 1") auto
next
  case (Suc k)
  have one: "plan_loop j 16 1 = ([], 1)" for j by (cases j) auto
  consider "n = 1" | "1 < n" "n \<le> 16" | "16 < n" using Suc.prems(2) by linarith
  then show ?case
  proof cases
    case 3
    let ?D = "divisor_loop n 16"
    note D = smooth16_divisor [OF Suc.prems(1) 3]
    have n: "?D * (n div ?D) = n" using D(1) by simp
    then have s: "smooth16 (n div ?D)" using Suc.prems(1) by (intro smooth16_dvd [OF Suc.prems(1)]) (metis dvd_triv_right)
    have "1 \<le> n div ?D" using n 3 by (cases "n div ?D") auto
    moreover have "n div ?D \<le> 16 * 5 ^ k"
    proof -
      have "5 * (n div ?D) \<le> ?D * (n div ?D)" using D(2) by (intro mult_le_mono) auto
      with n Suc.prems(3) have "5 * (n div ?D) \<le> 5 * (16 * 5 ^ k)" by simp
      then show ?thesis by simp
    qed
    ultimately obtain ds where "plan_loop (Suc k) 16 (n div ?D) = (ds, 1)" "prod_list ds = n div ?D" using Suc.IH [OF s] by blast
    then have "plan_loop (Suc (Suc k)) 16 n = (?D # ds, 1) \<and> prod_list (?D # ds) = n"
      using 3 n by (subst plan_loop.simps) (simp del: plan_loop.simps add: Let_def)
    then show ?thesis by blast
  qed (use one in auto)
qed

lemma plan_loop_range: "2 \<le> mps \<Longrightarrow> d \<in> set (fst (plan_loop k mps n)) \<Longrightarrow> 2 \<le> d \<and> d \<le> mps"
proof (induction k arbitrary: n)
  case (Suc k)
  then show ?case using divisor_loop_range [OF Suc.prems(1), of n]
    by (auto simp: Let_def split: if_splits prod.splits) (metis fst_conv)+
qed simp

lemma plan_loop_length: "length (fst (plan_loop k mps n)) \<le> k"
proof (induction k arbitrary: n)
  case (Suc k)
  show ?case using Suc [of 1] Suc [of "n div divisor_loop n mps"] by (auto simp: Let_def split: prod.splits)
qed simp

lemma plan_loop_rest: "length (fst (plan_loop k mps n)) = k \<or> snd (plan_loop k mps n) \<le> 1"
proof (induction k arbitrary: n)
  case (Suc k)
  show ?case using Suc [of 1] Suc [of "n div divisor_loop n mps"] by (auto simp: Let_def split: prod.splits)
qed simp

lemma plan_decimation_loop: "plan_decimation n mps k = fst (plan_loop k mps n)"
  using plan_loop_rest [of k mps n] by (auto simp: plan_decimation_def split_beta)

lemma plan_range: "d \<in> set (plan_decimation n 16 k) \<Longrightarrow> 2 \<le> d \<and> d \<le> 16"
  unfolding plan_decimation_loop by (rule plan_loop_range) auto

lemma prod_smooth: "(\<And>d. d \<in> set ds \<Longrightarrow> 2 \<le> d \<and> d \<le> 16) \<Longrightarrow> smooth16 (prod_list ds)"
proof (induction ds)
  case Nil
  then show ?case by (auto simp: smooth16_def)
next
  case (Cons d ds)
  then have d: "2 \<le> d" "d \<le> 16" and s: "smooth16 (prod_list ds)" by simp_all
  have "\<exists>e. e dvd q \<and> 1 < e \<and> e \<le> 16" if q: "q dvd d * prod_list ds" "1 < q" for q
  proof (cases "coprime q d")
    case True
    then have "q dvd prod_list ds" using q(1) by (simp add: coprime_dvd_mult_right_iff)
    with s q(2) show ?thesis by (auto simp: smooth16_def)
  next
    case False
    then have "gcd q d \<noteq> 1" by (simp add: coprime_iff_gcd_eq_1)
    moreover have "0 < gcd q d" using d by simp
    moreover have "gcd q d \<le> d" using d by (intro gcd_le2_nat) auto
    ultimately have "gcd q d dvd q \<and> 1 < gcd q d \<and> gcd q d \<le> 16" using d(2) by (intro conjI gcd_dvd1) linarith+
    then show ?thesis by blast
  qed
  then show ?case by (auto simp: smooth16_def)
qed

section \<open>Properties\<close>

text \<open>
  C36: the stages of a decimation multiply to the factor asked for exactly if the factor has no prime divisor
  above 16 (every divisor has itself a divisor from 2 to 16), for all factors up to 2000; every stage decimates by 2 to 16.
\<close>

theorem plan_decimation_exact:
  assumes "1 \<le> n" and "n \<le> 2000"
  shows "(prod_list (plan_decimation n 16 MAX_STAGES) = n \<longleftrightarrow> (\<forall>q. q dvd n \<and> 1 < q \<longrightarrow> (\<exists>d. d dvd q \<and> 1 < d \<and> d \<le> 16))) \<and>
    length (plan_decimation n 16 MAX_STAGES) \<le> 4 \<and> (\<forall>d \<in> set (plan_decimation n 16 MAX_STAGES). 2 \<le> d \<and> d \<le> 16)"
proof -
  have "prod_list (plan_decimation n 16 MAX_STAGES) = n" if "smooth16 n"
  proof -
    have "n \<le> 16 * 5 ^ 3" using assms(2) by simp
    from plan_loop_exact [OF that assms(1) this] have "prod_list (fst (plan_loop (Suc 3) 16 n)) = n" by auto
    then show ?thesis by (simp add: plan_decimation_loop MAX_STAGES_def numeral_eq_Suc)
  qed
  moreover have "smooth16 (prod_list (plan_decimation n 16 MAX_STAGES))" by (intro prod_smooth) (rule plan_range)
  moreover have "length (plan_decimation n 16 MAX_STAGES) \<le> 4"
    using plan_loop_length [of MAX_STAGES 16 n] by (simp add: plan_decimation_loop MAX_STAGES_def)
  ultimately show ?thesis using plan_range unfolding smooth16_def [symmetric] by metis
qed

theorem plan_decimation_exact_witness:
  "prod_list (plan_decimation 17 16 MAX_STAGES) \<noteq> 17"
proof
  assume "prod_list (plan_decimation 17 16 MAX_STAGES) = 17"
  then have "\<forall>q. q dvd 17 \<and> 1 < q \<longrightarrow> (\<exists>d. d dvd q \<and> 1 < d \<and> d \<le> (16 :: nat))" using plan_decimation_exact [of 17] by simp
  from spec [OF this, of 17] obtain d :: nat where d: "d dvd 17" "1 < d" "d \<le> 16" by auto
  have "d \<in> {2, 3, 4, 5, 6, 7, 8, 9, 10, 11, 12, 13, 14, 15, 16}" using d(2,3) by simp presburger
  then show False using d(1) by auto
qed

text \<open>
  C37: the decimation of a band is the largest divisor of the total decimation that the limit allows, so the
  two decimations of a channel multiply to the total.
\<close>

theorem largest_factor_is_greatest:
  assumes "1 \<le> n" and "1 \<le> limit"
  shows "largest_factor_leq n limit = Max {d. d dvd n \<and> d \<le> limit} \<and> largest_factor_leq n limit * (n div largest_factor_leq n limit) = n"
proof -
  note f = largest_factor [OF assms]
  have "Max {d. d dvd n \<and> d \<le> limit} = largest_factor_leq n limit"
    using f by (intro Max_eqI) (auto intro: finite_subset [of _ "{..limit}"])
  then show ?thesis using f(1) by simp
qed

theorem largest_factor_is_greatest_witness: "largest_factor_leq 312 15 = Max {d. d dvd 312 \<and> d \<le> 15}"
  using largest_factor_is_greatest [of 312 15] by simp

end
