(* ===== verification/Transducer.thy ===== *)
theory Transducer
  imports Prelude
begin

text \<open>
  State machines that read a stream and now and then emit a value: their run on a list of inputs, what it means that
  one emits at a fixed pace, and the machine that feeds one with the output of another.
\<close>

fun run :: "('s \<Rightarrow> 'a \<Rightarrow> 's \<times> 'b option) \<Rightarrow> 's \<Rightarrow> 'a list \<Rightarrow> 's \<times> 'b list" where
  "run f s [] = (s, [])"
| "run f s (x # xs) =
     (let (s1, r) = f s x; (s2, ys) = run f s1 xs in (s2, (case r of None \<Rightarrow> ys | Some y \<Rightarrow> y # ys)))"

lemma run_append:
  "run f s (xs @ zs) = (let (s1, ys) = run f s xs; (s2, ws) = run f s1 zs in (s2, ys @ ws))"
  by (induction xs arbitrary: s) (auto simp: Let_def split: prod.split option.split)

lemma run_append_fst: "fst (run f s (xs @ zs)) = fst (run f (fst (run f s xs)) zs)"
  by (simp add: run_append split_beta Let_def)

lemma run_append_snd: "snd (run f s (xs @ zs)) = snd (run f s xs) @ snd (run f (fst (run f s xs)) zs)"
  by (simp add: run_append split_beta Let_def)

text \<open>A machine whose step acts in the same way on a part of its state runs in the same way on it.\<close>

lemma run_map:
  assumes "\<And>s x. f' (h s) x = map_prod h id (f s x)"
  shows "run f' (h s) xs = map_prod h id (run f s xs)"
  by (induction xs arbitrary: s) (auto simp: assms Let_def split_beta split: option.split)

locale paced =
  fixes step :: "'s \<Rightarrow> 'a \<Rightarrow> 's \<times> 'b option"
    and ok :: "'s \<Rightarrow> bool"
    and phase period :: "'s \<Rightarrow> nat"
  assumes step_ok: "ok s \<Longrightarrow> ok (fst (step s x))"
    and phase_less: "ok s \<Longrightarrow> phase s < period s"
    and step_period: "ok s \<Longrightarrow> period (fst (step s x)) = period s"
    and step_phase: "ok s \<Longrightarrow> phase (fst (step s x)) = (phase s + 1) mod period s"
    and step_emits: "ok s \<Longrightarrow> snd (step s x) = None \<longleftrightarrow> phase s + 1 < period s"
begin

lemma run_ok: "ok s \<Longrightarrow> ok (fst (run step s xs))"
  by (induction xs arbitrary: s) (auto simp: Let_def split_beta dest: step_ok)

lemma run_period: "ok s \<Longrightarrow> period (fst (run step s xs)) = period s"
  by (induction xs arbitrary: s) (auto simp: Let_def split_beta step_ok step_period)

lemma run_phase: "ok s \<Longrightarrow> phase (fst (run step s xs)) = (phase s + length xs) mod period s"
proof (induction xs arbitrary: s)
  case Nil
  then show ?case using phase_less by simp
next
  case (Cons x xs)
  then show ?case using step_ok [of s x] by (simp add: Let_def split_beta step_period step_phase mod_add_left_eq)
qed

lemma run_length: "ok s \<Longrightarrow> length (snd (run step s xs)) = (phase s + length xs) div period s"
proof (induction xs arbitrary: s)
  case Nil
  then show ?case using phase_less by simp
next
  case (Cons x xs)
  have p: "phase s < period s" by (rule phase_less [OF Cons.prems])
  have ih: "length (snd (run step (fst (step s x)) xs)) = ((phase s + 1) mod period s + length xs) div period s"
    using Cons.IH [OF step_ok [OF Cons.prems]] by (simp add: step_period step_phase Cons.prems)
  show ?case
  proof (cases "phase s + 1 < period s")
    case True
    then have "snd (step s x) = None" by (simp add: step_emits Cons.prems)
    then show ?thesis using ih True by (simp add: Let_def split_beta)
  next
    case False
    then obtain y where "snd (step s x) = Some y" using step_emits [OF Cons.prems, of x] by auto
    moreover have "phase s + 1 = period s" using False p by simp
    moreover have "period s \<noteq> 0" using p by simp
    ultimately show ?thesis using ih by (simp add: Let_def split_beta div_add_self1 flip: add_Suc)
  qed
qed

lemma run_length_le: "ok s \<Longrightarrow> length (snd (run step s xs)) \<le> length xs div period s + 1"
proof -
  assume s: "ok s"
  then have "phase s < period s" by (rule phase_less)
  then have "(phase s + length xs) div period s \<le> (period s + length xs) div period s" by (intro div_le_mono) simp
  also have "\<dots> = length xs div period s + 1" using \<open>phase s < period s\<close> by (subst div_add_self1) auto
  finally show ?thesis by (simp add: run_length [OF s])
qed

end

text \<open>
  The pace of two machines in a row, from the phases and periods of the two: the first is at the end of its period in
  the second and third rule.
\<close>

lemma pace_less: "p1 < P1 \<Longrightarrow> p2 < P2 \<Longrightarrow> p1 + P1 * p2 < P1 * (P2 :: nat)"
proof -
  assume "p1 < P1" "p2 < P2"
  then have "p1 + P1 * p2 < P1 * (p2 + 1)" by simp
  also have "\<dots> \<le> P1 * P2" using \<open>p2 < P2\<close> by (intro mult_le_mono) auto
  finally show ?thesis .
qed

lemma pace_wrap: "p1 + 1 = P1 \<Longrightarrow> (p1 + P1 * p2 + 1) mod (P1 * P2) = P1 * ((p2 + 1) mod (P2 :: nat))"
proof -
  assume "p1 + 1 = P1"
  then have "p1 + P1 * p2 + 1 = P1 * (p2 + 1)" by simp
  then show ?thesis by (simp only: mult_mod_right)
qed

lemma pace_end: "p1 + 1 = P1 \<Longrightarrow> p1 + P1 * p2 + 1 < P1 * P2 \<longleftrightarrow> p2 + 1 < (P2 :: nat)"
proof -
  assume "p1 + 1 = P1"
  then have "p1 + P1 * p2 + 1 = P1 * (p2 + 1)" and "0 < P1" by simp_all
  then show ?thesis by (simp only: nat_mult_less_cancel1)
qed

section \<open>Machines with an output buffer\<close>

text \<open>
  A step that appends what a machine emits to a buffer in its own state, unless the buffer is full.  As long as the
  output fits, a run of such steps is the run of the machine.
\<close>

locale buffered =
  fixes core :: "'s \<Rightarrow> 'a \<Rightarrow> 's \<times> 'b option"
    and step :: "'a \<Rightarrow> 's \<Rightarrow> 's"
    and buf :: "'s \<Rightarrow> 'b list"
    and set_buf :: "'b list \<Rightarrow> 's \<Rightarrow> 's"
    and cap :: "'s \<Rightarrow> nat"
  assumes step_core: "step x s = (let (s1, r) = core s x
      in case r of None \<Rightarrow> s1 | Some y \<Rightarrow> if length (buf s1) < cap s1 then set_buf (buf s1 @ [y]) s1 else s1)"
    and buf_set: "buf (set_buf b s) = b"
    and set_set: "set_buf b (set_buf c s) = set_buf b s"
    and set_buf_id: "set_buf (buf s) s = s"
    and cap_set: "cap (set_buf b s) = cap s"
    and core_set: "core (set_buf b s) x = map_prod (set_buf b) id (core s x)"
    and buf_core: "buf (fst (core s x)) = buf s"
    and cap_core: "cap (fst (core s x)) = cap s"
begin

lemma step_room:
  assumes "length (buf s) + length (snd (run core s [x])) \<le> cap s"
  shows "step x s = set_buf (buf s @ snd (run core s [x])) (fst (core s x))"
  using assms set_buf_id [of "fst (core s x)"] buf_core [of s x] cap_core [of s x]
  by (auto simp: step_core Let_def split_beta split: option.splits)

lemma run_set: "run core (set_buf b s) xs = map_prod (set_buf b) id (run core s xs)"
  by (rule run_map) (rule core_set)

lemma steps_room:
  "length (buf s) + length (snd (run core s xs)) \<le> cap s \<Longrightarrow>
    foldl (\<lambda>s x. step x s) s xs = set_buf (buf s @ snd (run core s xs)) (fst (run core s xs))"
proof (induction xs arbitrary: s)
  case Nil
  then show ?case by (simp add: set_buf_id)
next
  case (Cons x xs)
  have app: "snd (run core s (x # xs)) = snd (run core s [x]) @ snd (run core (fst (core s x)) xs)"
    by (simp add: Let_def split_beta split: option.split)
  let ?b = "buf s @ snd (run core s [x])"
  have s1: "step x s = set_buf ?b (fst (core s x))"
    using Cons.prems by (intro step_room) (simp only: app length_append)
  have "length (buf (step x s)) + length (snd (run core (step x s) xs)) \<le> cap (step x s)"
    using Cons.prems by (simp only: s1 buf_set cap_set cap_core run_set snd_map_prod id_apply app length_append)
  from Cons.IH [OF this]
  have "foldl (\<lambda>s x. step x s) (step x s) xs = set_buf (?b @ snd (run core (fst (core s x)) xs)) (fst (run core (fst (core s x)) xs))"
    by (simp only: s1 buf_set run_set set_set fst_map_prod snd_map_prod id_apply)
  moreover have "fst (run core s (x # xs)) = fst (run core (fst (core s x)) xs)" by (simp add: Let_def split_beta)
  ultimately show ?case by (simp only: foldl_Cons app append_assoc)
qed

lemma run_buf: "buf (fst (run core s xs)) = buf s"
  by (induction xs arbitrary: s) (simp_all add: Let_def split_beta buf_core)

lemma run_cap: "cap (fst (run core s xs)) = cap s"
  by (induction xs arbitrary: s) (simp_all add: Let_def split_beta cap_core)

end

end
