(* ===== verification/ChannelizerStream.thy ===== *)
theory ChannelizerStream
  imports ChannelizerPlan Transducer
begin

text \<open>
  The stages, bands and channels of \<open>channelizer.c\<close> as machines that emit at a fixed pace, and what the callback
  of a channel hears: the output of the channel's own chain, whatever the blocks.
\<close>

section \<open>Decimation stages\<close>

definition stage_ok :: "decim_stage \<Rightarrow> bool" where
  "stage_ok st \<longleftrightarrow> length (fir_taps st) = STAGE_FIR_TAPS \<and> length (fir_hist st) = STAGE_FIR_TAPS \<and>
     fir_idx st < STAGE_FIR_TAPS \<and> st_count st < decimation st"

interpretation stage: paced decim_stage_process stage_ok st_count decimation
  by unfold_locales (auto simp: stage_ok_def decim_stage_process_def Let_def STAGE_FIR_TAPS_def mod_Suc)

lemma new_stage_ok [simp]: "0 < d \<Longrightarrow> stage_ok (new_stage m d)"
  by (simp add: stage_ok_def new_stage_def design_lowpass_def Let_def STAGE_FIR_TAPS_def)

text \<open>The ring of a stage, the newest sample first, and what a step does to it.\<close>

definition recent :: "decim_stage \<Rightarrow> cf list" where
  "recent st = map (\<lambda>t. fir_hist st ! ((fir_idx st + 62 - t) mod 63)) [0..<63]"

lemma length_recent [simp]: "length (recent st) = 63"
  by (simp add: recent_def)

lemma ring_back:
  assumes "i < 63" and "t < 63"
  shows "((i + 1) mod 63 + 62 - t) mod 63 = (if t = 0 then i else (i + 62 - (t - 1)) mod (63 :: nat))"
proof (cases "i = 62")
  case True
  then show ?thesis using assms by (cases t) (auto simp: mod_if)
next
  case False
  then have "(i + 1) mod 63 = i + 1" using assms(1) by simp
  then show ?thesis using assms by (cases t) (auto simp: add.commute)
qed

lemma ring_back_other:
  assumes "i < 63" and "t < 62"
  shows "(i + 62 - t) mod 63 \<noteq> (i :: nat)"
proof (cases "t \<le> i")
  case True
  then have "i + 62 - t = 62 + (i - t)" by simp
  show ?thesis
  proof (cases "i = t")
    case False
    then have "(i + 62 - t) mod 63 = i - t - 1" using True assms by (simp add: mod_if)
    then show ?thesis using True False by simp
  qed (use assms in simp)
next
  case False
  then show ?thesis using assms by simp
qed

lemma recent_step:
  assumes "stage_ok st"
  shows "recent (fst (decim_stage_process st x)) = take 63 (x # recent st)"
proof (rule nth_equalityI)
  fix t
  assume "t < length (recent (fst (decim_stage_process st x)))"
  then have t: "t < 63" by simp
  have i: "fir_idx st < 63" "length (fir_hist st) = 63" using assms by (simp_all add: stage_ok_def STAGE_FIR_TAPS_def)
  have "recent (fst (decim_stage_process st x)) ! t =
      (fir_hist st)[fir_idx st := x] ! (((fir_idx st + 1) mod 63 + 62 - t) mod 63)"
    using t by (auto simp: recent_def decim_stage_process_def Let_def STAGE_FIR_TAPS_def)
  also have "\<dots> = take 63 (x # recent st) ! t"
  proof (cases t)
    case (Suc t')
    have "(fir_idx st + 62 - t') mod 63 \<noteq> fir_idx st" using ring_back_other [OF i(1), of t'] t Suc by simp
    then show ?thesis using t Suc i unfolding ring_back [OF i(1) t] by (simp add: recent_def)
  qed (use i ring_back [OF i(1), of 0] in simp)
  finally show "recent (fst (decim_stage_process st x)) ! t = take 63 (x # recent st) ! t" .
qed simp

text \<open>The loop of the filter is the scalar product with the newest samples.\<close>

lemma fir_loop_back:
  assumes "i < 63" and "length taps + k \<le> 63"
  shows "fir_loop taps hist ((i + 63 - k) mod 63) acc =
    foldl cadd acc (map2 (\<lambda>t x. cscale x t) taps (drop k (map (\<lambda>t. hist ! ((i + 62 - t) mod 63)) [0..<63])))"
  using assms(2)
proof (induction taps arbitrary: k acc)
  case (Cons t ts)
  then have k: "k < 63" by simp
  let ?j = "(i + 63 - k) mod 63"
  have j: "(if ?j = 0 then 63 - 1 else ?j - 1) = (i + 62 - k) mod 63"
  proof (cases "k \<le> i")
    case True
    then have "i + 63 - k = 63 + (i - k)" by simp
    then have "?j = i - k" using assms(1) by (simp add: mod_if)
    moreover have "(i + 62 - k) mod 63 = (if i = k then 62 else i - k - 1)" using True assms(1) by (auto simp: mod_if)
    ultimately show ?thesis using True by auto
  next
    case False
    then show ?thesis using assms(1) k by simp
  qed
  have s: "(i + 62 - k) mod 63 = (i + 63 - Suc k) mod 63" by (simp add: add.commute)
  have d: "drop k (map (\<lambda>t. hist ! ((i + 62 - t) mod 63)) [0..<63]) =
      hist ! ((i + 62 - k) mod 63) # drop (Suc k) (map (\<lambda>t. hist ! ((i + 62 - t) mod 63)) [0..<63])"
    using k by (subst Cons_nth_drop_Suc [symmetric]) auto
  have "fir_loop (t # ts) hist ?j acc = fir_loop ts hist ((i + 63 - Suc k) mod 63) (cadd acc (cscale (hist ! ((i + 62 - k) mod 63)) t))"
    using j by (simp only: fir_loop.simps Let_def STAGE_FIR_TAPS_def s)
  also have "\<dots> = foldl cadd acc (map2 (\<lambda>t x. cscale x t) (t # ts) (drop k (map (\<lambda>t. hist ! ((i + 62 - t) mod 63)) [0..<63])))"
    using Cons.prems by (subst Cons.IH) (simp_all add: d)
  finally show ?case .
qed simp

lemma stage_output:
  assumes "stage_ok st"
  shows "snd (decim_stage_process st x) =
    (if st_count st + 1 < decimation st then None else Some (fir_ccf (fir_taps st) (take 63 (x # recent st))))"
proof -
  let ?st = "fst (decim_stage_process st x)"
  have i: "fir_idx ?st < 63" "length (fir_taps st) = 63" "fir_taps ?st = fir_taps st"
    using stage.step_ok [OF assms, of x] assms by (auto simp: stage_ok_def STAGE_FIR_TAPS_def decim_stage_process_def Let_def)
  have "fir_loop (fir_taps st) (fir_hist ?st) (fir_idx ?st) (0, 0) = fir_ccf (fir_taps st) (recent ?st)"
    using fir_loop_back [OF i(1), of "fir_taps st" 0 "fir_hist ?st" "(0, 0)"] i(1,2)
    by (simp add: fir_ccf_def recent_def)
  then show ?thesis unfolding recent_step [OF assms] by (auto simp: decim_stage_process_def Let_def)
qed

lemma run_stage_recent: "stage_ok st \<Longrightarrow> recent (fst (run decim_stage_process st xs)) = take 63 (rev xs @ recent st)"
proof (induction xs arbitrary: st)
  case (Cons x xs)
  then show ?case
    using recent_step [OF Cons.prems, of x] by (simp add: Let_def split_beta stage.step_ok take_Cons')
qed simp

lemma run_stage_taps: "stage_ok st \<Longrightarrow> fir_taps (fst (run decim_stage_process st xs)) = fir_taps st"
proof (induction xs arbitrary: st)
  case (Cons x xs)
  have "fir_taps (fst (decim_stage_process st x)) = fir_taps st" by (simp add: decim_stage_process_def Let_def)
  with Cons show ?case by (simp add: Let_def split_beta stage.step_ok)
qed simp

text \<open>What a stage makes of a stream: every so many samples the scalar product with the 63 newest.\<close>

lemma run_stage:
  assumes "stage_ok st" and "st_count st = 0"
  shows "snd (run decim_stage_process st xs) =
    map (\<lambda>k. fir_ccf (fir_taps st) (take 63 (rev (take ((k + 1) * decimation st) xs) @ recent st))) [0..<length xs div decimation st]"
proof (induction xs rule: rev_induct)
  case (snoc x xs)
  let ?D = "decimation st" and ?st = "fst (run decim_stage_process st xs)"
  have ok: "stage_ok ?st" by (rule stage.run_ok [OF assms(1)])
  have c: "st_count ?st = length xs mod ?D" "decimation ?st = ?D"
    using stage.run_phase [OF assms(1), of xs] stage.run_period [OF assms(1), of xs] assms(2) by simp_all
  have D: "0 < ?D" using stage.phase_less [OF assms(1)] by simp
  have same: "map (\<lambda>k. fir_ccf (fir_taps st) (take 63 (rev (take ((k + 1) * ?D) (xs @ [x])) @ recent st))) [0..<length xs div ?D] =
      map (\<lambda>k. fir_ccf (fir_taps st) (take 63 (rev (take ((k + 1) * ?D) xs) @ recent st))) [0..<length xs div ?D]"
  proof (rule map_cong [OF refl])
    fix k
    assume "k \<in> set [0..<length xs div ?D]"
    then have "k + 1 \<le> length xs div ?D" by simp
    then have "(k + 1) * ?D \<le> length xs" using D by (simp only: less_eq_div_iff_mult_less_eq)
    then show "fir_ccf (fir_taps st) (take 63 (rev (take ((k + 1) * ?D) (xs @ [x])) @ recent st)) =
      fir_ccf (fir_taps st) (take 63 (rev (take ((k + 1) * ?D) xs) @ recent st))" by simp
  qed
  have out: "snd (decim_stage_process ?st x) = (if length xs mod ?D + 1 < ?D then None
      else Some (fir_ccf (fir_taps st) (take 63 (rev (xs @ [x]) @ recent st))))"
    using stage_output [OF ok, of x] c run_stage_taps [OF assms(1), of xs] run_stage_recent [OF assms(1), of xs]
    by (simp add: take_Cons' min_def)
  have "snd (run decim_stage_process st (xs @ [x])) =
      snd (run decim_stage_process st xs) @ (case snd (decim_stage_process ?st x) of None \<Rightarrow> [] | Some y \<Rightarrow> [y])"
    by (simp add: run_append_snd Let_def split_beta split: option.split)
  also have "\<dots> = map (\<lambda>k. fir_ccf (fir_taps st) (take 63 (rev (take ((k + 1) * ?D) (xs @ [x])) @ recent st))) [0..<length (xs @ [x]) div ?D]"
  proof (cases "length xs mod ?D + 1 < ?D")
    case True
    then have "Suc (length xs) div ?D = length xs div ?D" by (simp add: div_Suc mod_Suc)
    then show ?thesis using True by (simp add: snoc.IH same [simplified] out)
  next
    case False
    then have "Suc (length xs) mod ?D = 0" using D mod_less_divisor [OF D, of "length xs"] by (simp add: mod_Suc)
    then have d: "Suc (length xs) div ?D = Suc (length xs div ?D)" by (simp add: div_Suc)
    moreover have "(length xs div ?D + 1) * ?D = length (xs @ [x])"
      using \<open>Suc (length xs) mod ?D = 0\<close> d by (metis Suc_eq_plus1 add_0 div_mult_mod_eq length_append_singleton add.right_neutral)
    ultimately show ?thesis using False by (simp add: snoc.IH same [simplified] out)
  qed
  finally show ?case .
qed simp

section \<open>Cascades\<close>

definition cas_ok :: "decim_stage list \<Rightarrow> bool" where "cas_ok sts \<longleftrightarrow> list_all stage_ok sts"

fun cas_phase :: "decim_stage list \<Rightarrow> nat" where
  "cas_phase [] = 0"
| "cas_phase (st # sts) = st_count st + decimation st * cas_phase sts"

definition cas_period :: "decim_stage list \<Rightarrow> nat" where "cas_period sts = prod_list (map decimation sts)"

lemma cas_simps [simp]: "cas_ok []" "cas_ok (st # sts) \<longleftrightarrow> stage_ok st \<and> cas_ok sts"
  "cas_period [] = 1" "cas_period (st # sts) = decimation st * cas_period sts"
  by (simp_all add: cas_ok_def cas_period_def)

lemma cascade_pace:
  "cas_ok sts \<Longrightarrow> cas_ok (fst (cascade sts x)) \<and> cas_phase sts < cas_period sts \<and> cas_period (fst (cascade sts x)) = cas_period sts \<and>
    cas_phase (fst (cascade sts x)) = (cas_phase sts + 1) mod cas_period sts \<and>
    (snd (cascade sts x) = None \<longleftrightarrow> cas_phase sts + 1 < cas_period sts)"
proof (induction sts arbitrary: x)
  case (Cons st sts)
  let ?r = "decim_stage_process st x"
  from Cons.prems have st: "stage_ok st" and sts: "cas_ok sts" by simp_all
  note f = stage.step_ok [OF st, of x] stage.phase_less [OF st] stage.step_period [OF st, of x] stage.step_phase [OF st, of x]
    stage.step_emits [OF st, of x]
  have less: "cas_phase sts < cas_period sts" using Cons.IH [OF sts, of "(0, 0)"] by simp
  note pl = pace_less [OF f(2) less]
  show ?case
  proof (cases "st_count st + 1 < decimation st")
    case True
    then have "cascade (st # sts) x = (fst ?r # sts, None)" using f(5) by (cases ?r) auto
    moreover have "st_count (fst ?r) = st_count st + 1" using f(4) True by simp
    ultimately show ?thesis using f(1,3) sts pl pace_less [OF True less] by simp
  next
    case False
    then obtain y where y: "snd ?r = Some y" using f(5) by auto
    then have c: "cascade (st # sts) x = (fst ?r # fst (cascade sts y), snd (cascade sts y))"
      by (cases ?r) (simp add: split_beta Let_def)
    have e: "st_count st + 1 = decimation st" using False f(2) by simp
    then have "st_count (fst ?r) = 0" using f(4) by simp
    then show ?thesis
      unfolding c using Cons.IH [OF sts, of y] f(1,3) pl pace_wrap [OF e, of "cas_phase sts" "cas_period sts"]
        pace_end [OF e, of "cas_phase sts" "cas_period sts"] by simp
  qed
qed simp

interpretation cas: paced cascade cas_ok cas_phase cas_period
  by unfold_locales (use cascade_pace in blast)+

text \<open>A cascade is one stage feeding the rest.\<close>

lemma run_cascade_Cons:
  "run cascade (st # sts) xs = (let (st1, ys) = run decim_stage_process st xs; (sts1, zs) = run cascade sts ys in (st1 # sts1, zs))"
  by (induction xs arbitrary: st sts) (auto simp: Let_def split_beta split: option.split prod.split)

lemma run_cascade_Nil: "run cascade [] xs = ([], xs)"
  by (induction xs) simp_all

section \<open>The final filter\<close>

text \<open>Both halves of the buffer hold the same, so the 127 newest samples are contiguous, the oldest first.\<close>

definition cleanup_ok :: "channel_state \<Rightarrow> bool" where
  "cleanup_ok cs \<longleftrightarrow> length (cleanup_hist cs) = 254 \<and> cleanup_idx cs < 127 \<and>
     (\<forall>i < 127. cleanup_hist cs ! (i + 127) = cleanup_hist cs ! i)"

definition window :: "channel_state \<Rightarrow> cf list" where
  "window cs = take 127 (drop (cleanup_idx cs) (cleanup_hist cs))"

lemma nth_window: "cleanup_ok cs \<Longrightarrow> t < 127 \<Longrightarrow> window cs ! t = cleanup_hist cs ! ((cleanup_idx cs + t) mod 127)"
proof -
  assume a: "cleanup_ok cs" "t < 127"
  show ?thesis
  proof (cases "cleanup_idx cs + t < 127")
    case True
    then show ?thesis using a by (simp add: window_def cleanup_ok_def)
  next
    case False
    have "cleanup_idx cs < 127" using a by (simp add: cleanup_ok_def)
    with a have l: "cleanup_idx cs + t - 127 < 127" by linarith
    then have "(cleanup_idx cs + t) mod 127 = cleanup_idx cs + t - 127" using False by (simp add: le_mod_geq)
    moreover have "cleanup_hist cs ! (cleanup_idx cs + t - 127 + 127) = cleanup_hist cs ! (cleanup_idx cs + t - 127)"
      using a l unfolding cleanup_ok_def by blast
    ultimately show ?thesis using a False by (simp add: window_def cleanup_ok_def)
  qed
qed

lemma length_window: "cleanup_ok cs \<Longrightarrow> length (window cs) = 127"
  by (auto simp: window_def cleanup_ok_def min_def)

lemma cleanup_step_window:
  assumes "cleanup_ok cs" and "has_cleanup cs"
  shows "cleanup_ok (fst (cleanup_step x cs))" and "window (fst (cleanup_step x cs)) = tl (window cs) @ [x]"
    and "snd (cleanup_step x cs) = fir_ccf (cleanup_taps cs) (tl (window cs) @ [x])"
proof -
  let ?cs = "fst (cleanup_step x cs)" and ?i = "cleanup_idx cs"
  have h: "length (cleanup_hist cs) = 254" "?i < 127" "\<forall>i < 127. cleanup_hist cs ! (i + 127) = cleanup_hist cs ! i"
    using assms(1) by (simp_all add: cleanup_ok_def)
  have c: "cleanup_hist ?cs = (cleanup_hist cs)[?i := x, ?i + 127 := x]" "cleanup_idx ?cs = (?i + 1) mod 127"
    using assms(2) by (simp_all add: cleanup_step_def CLEANUP_FIR_TAPS_def Let_def)
  show ok: "cleanup_ok ?cs" unfolding cleanup_ok_def c using h by (auto simp: nth_list_update)
  show w: "window ?cs = tl (window cs) @ [x]"
  proof (rule nth_equalityI)
    show "length (window ?cs) = length (tl (window cs) @ [x])" using length_window [OF ok] length_window [OF assms(1)] by simp
    fix t
    assume "t < length (window ?cs)"
    then have t: "t < 127" using length_window [OF ok] by simp
    have m: "((?i + 1) mod 127 + t) mod 127 = (?i + Suc t) mod 127" by (simp add: mod_add_left_eq mod_Suc_eq)
    show "window ?cs ! t = (tl (window cs) @ [x]) ! t"
    proof (cases "t = 126")
      case True
      then have "(?i + Suc t) mod 127 = ?i" using h(2) by simp
      then show ?thesis using True h length_window [OF assms(1)] unfolding nth_window [OF ok t] c m by (simp add: nth_append)
    next
      case False
      then have "(?i + Suc t) mod 127 \<noteq> ?i" using h(2) t by (auto simp: mod_if split: if_splits)
      moreover have "(?i + Suc t) mod 127 \<noteq> ?i + 127" using mod_less_divisor [of 127 "?i + Suc t"] by linarith
      ultimately show ?thesis using False t length_window [OF assms(1)] nth_window [OF assms(1), of "Suc t"]
        unfolding nth_window [OF ok t] c m by (simp add: nth_append nth_tl)
    qed
  qed
  show "snd (cleanup_step x cs) = fir_ccf (cleanup_taps cs) (tl (window cs) @ [x])"
    unfolding w [symmetric] using assms(2) by (simp add: cleanup_step_def window_def Let_def CLEANUP_FIR_TAPS_def)
qed

section \<open>Bands and channels as machines\<close>

text \<open>The steps of a band and of a channel without their buffers: what is emitted.\<close>

definition band_core :: "libm \<Rightarrow> band_state \<Rightarrow> cf \<Rightarrow> band_state \<times> cf option" where
  "band_core m bd x =
     (let (sts, r) = cascade (band_stages bd) (cmul x (nco_current (band_nco bd)))
      in (bd\<lparr>band_nco := nco_step m (band_nco bd), band_stages := sts\<rparr>, r))"

definition channel_core :: "libm \<Rightarrow> channel_state \<Rightarrow> cf \<Rightarrow> channel_state \<times> cf option" where
  "channel_core m cs x =
     (let (sts, r) = cascade (chan_stages cs) (cmul x (nco_current (chan_nco cs)));
          cs1 = cs\<lparr>chan_nco := nco_step m (chan_nco cs), chan_stages := sts\<rparr>
      in case r of None \<Rightarrow> (cs1, None) | Some y \<Rightarrow> (let (cs2, z) = cleanup_step y cs1 in (cs2, Some (cscale z (gain cs2)))))"

interpretation bandp: paced "band_core m" "\<lambda>bd. cas_ok (band_stages bd)" "\<lambda>bd. cas_phase (band_stages bd)" "\<lambda>bd. cas_period (band_stages bd)" for m
  by unfold_locales (auto simp: band_core_def Let_def split_beta cas.step_ok cas.phase_less cas.step_period cas.step_phase cas.step_emits)

lemma channel_core_stages: "chan_stages (fst (channel_core m cs x)) = fst (cascade (chan_stages cs) (cmul x (nco_current (chan_nco cs))))"
  by (auto simp: channel_core_def Let_def split_beta cleanup_step_def split: option.split)

lemma channel_core_emits: "snd (channel_core m cs x) = None \<longleftrightarrow> snd (cascade (chan_stages cs) (cmul x (nco_current (chan_nco cs)))) = None"
  by (auto simp: channel_core_def Let_def split_beta split: option.split)

interpretation chanp: paced "channel_core m" "\<lambda>cs. cas_ok (chan_stages cs)" "\<lambda>cs. cas_phase (chan_stages cs)" "\<lambda>cs. cas_period (chan_stages cs)" for m
  by unfold_locales (auto simp: channel_core_stages channel_core_emits cas.step_ok cas.phase_less cas.step_period cas.step_phase cas.step_emits)

interpretation bandb: buffered "band_core m" "band_step m" inter_buf "\<lambda>b bd. bd\<lparr>inter_buf := b\<rparr>" inter_cap for m
  by unfold_locales (auto simp: band_step_def band_core_def Let_def split_beta split: option.split)

interpretation chanb: buffered "channel_core m" "channel_step m" out_buf "\<lambda>b cs. cs\<lparr>out_buf := b\<rparr>" out_cap for m
  by unfold_locales (auto simp: channel_step_def channel_core_def Let_def split_beta cleanup_step_def split: option.split)

text \<open>What the steps leave alone.\<close>

lemma run_band_fixed:
  "channel_indices (fst (run (band_core m) bd xs)) = channel_indices bd" "band_center (fst (run (band_core m) bd xs)) = band_center bd"
  by (induction xs arbitrary: bd) (simp_all add: band_core_def Let_def split_beta)

lemma run_channel_fixed:
  "band_idx (fst (run (channel_core m) cs xs)) = band_idx cs" "chan_id (fst (run (channel_core m) cs xs)) = chan_id cs"
  "chan_type (fst (run (channel_core m) cs xs)) = chan_type cs"
  by (induction xs arbitrary: cs)
    (auto simp: channel_core_def Let_def split_beta cleanup_step_def split: option.split)

section \<open>The loops over bands and channels\<close>

text \<open>Stage 1 treats the bands independently.\<close>

lemma foldl_map_swap: "foldl (\<lambda>bds x. map (f x) bds) bds xs = map (\<lambda>bd. foldl (\<lambda>s x. f x s) bd xs) bds"
  by (induction xs arbitrary: bds) simp_all

text \<open>Stage 2 gives each channel the buffer of its band.\<close>

lemma foldl_update_distinct:
  "distinct idxs \<Longrightarrow> (\<And>i. i \<in> set idxs \<Longrightarrow> i < length cs) \<Longrightarrow> c < length cs \<Longrightarrow>
    foldl (\<lambda>cs i. cs[i := f (cs ! i)]) cs idxs ! c = (if c \<in> set idxs then f (cs ! c) else cs ! c)"
  by (induction idxs arbitrary: cs) (auto simp: nth_list_update)

lemma foldl_update_length: "length (foldl (\<lambda>cs i. cs[i := f (cs ! i)]) cs idxs) = length cs"
  by (induction idxs arbitrary: cs) simp_all

lemma band_channels_length: "length (band_channels m bd cs) = length cs"
proof -
  have "length (foldl (\<lambda>cs y. foldl (\<lambda>cs i. cs[i := channel_step m y (cs ! i)]) cs (channel_indices bd)) cs ys) = length cs" for ys
    by (induction ys arbitrary: cs) (simp_all add: foldl_update_length)
  then show ?thesis by (simp add: band_channels_def)
qed

lemma band_channels_nth:
  assumes "distinct (channel_indices bd)" and "\<And>i. i \<in> set (channel_indices bd) \<Longrightarrow> i < length cs" and "c < length cs"
  shows "band_channels m bd cs ! c =
    (if c \<in> set (channel_indices bd) then foldl (\<lambda>s y. channel_step m y s) (cs ! c) (inter_buf bd) else cs ! c)"
proof -
  have "foldl (\<lambda>cs y. foldl (\<lambda>cs i. cs[i := channel_step m y (cs ! i)]) cs (channel_indices bd)) cs ys ! c =
      (if c \<in> set (channel_indices bd) then foldl (\<lambda>s y. channel_step m y s) (cs ! c) ys else cs ! c)" for ys
    using assms(2,3)
  proof (induction ys arbitrary: cs)
    case (Cons y ys)
    then show ?case using assms(1) by (simp add: foldl_update_distinct foldl_update_length)
  qed simp
  then show ?thesis by (simp add: band_channels_def)
qed

definition layout_ok :: "nat list list \<Rightarrow> nat \<Rightarrow> bool" where
  "layout_ok idxss n \<longleftrightarrow> distinct (concat idxss) \<and> (\<forall>i \<in> set (concat idxss). i < n)"

lemma bands_channels_nth:
  "layout_ok (map channel_indices bds) (length cs) \<Longrightarrow> c < length cs \<Longrightarrow>
    length (foldl (\<lambda>cs bd. band_channels m bd cs) cs bds) = length cs \<and>
    (\<forall>b < length bds. c \<in> set (channel_indices (bds ! b)) \<longrightarrow>
       foldl (\<lambda>cs bd. band_channels m bd cs) cs bds ! c = foldl (\<lambda>s y. channel_step m y s) (cs ! c) (inter_buf (bds ! b))) \<and>
    (c \<notin> set (concat (map channel_indices bds)) \<longrightarrow> foldl (\<lambda>cs bd. band_channels m bd cs) cs bds ! c = cs ! c)"
proof (induction bds arbitrary: cs)
  case (Cons bd bds)
  let ?cs = "band_channels m bd cs"
  have l: "length ?cs = length cs" by (rule band_channels_length)
  have h: "distinct (channel_indices bd)" "\<And>i. i \<in> set (channel_indices bd) \<Longrightarrow> i < length cs"
    "layout_ok (map channel_indices bds) (length ?cs)"
    "set (channel_indices bd) \<inter> set (concat (map channel_indices bds)) = {}"
    using Cons.prems(1) by (auto simp: layout_ok_def l)
  note ih = Cons.IH [OF h(3)] and nth = band_channels_nth [OF h(1,2) Cons.prems(2), of m]
  have c: "c < length ?cs" using Cons.prems(2) l by simp
  show ?case
  proof (intro conjI allI impI)
    show "length (foldl (\<lambda>cs bd. band_channels m bd cs) cs (bd # bds)) = length cs" using ih [OF c] l by simp
    fix b
    assume b: "b < length (bd # bds)" "c \<in> set (channel_indices ((bd # bds) ! b))"
    show "foldl (\<lambda>cs bd. band_channels m bd cs) cs (bd # bds) ! c = foldl (\<lambda>s y. channel_step m y s) (cs ! c) (inter_buf ((bd # bds) ! b))"
    proof (cases b)
      case 0
      then have "c \<notin> set (concat (map channel_indices bds))" using b h(4) by auto
      then show ?thesis using ih [OF c] nth b(2) 0 by simp
    next
      case (Suc b')
      then have "bds ! b' \<in> set bds" using b(1) by simp
      then have "c \<notin> set (channel_indices bd)" using b(2) h(4) Suc by auto
      then show ?thesis using ih [OF c] nth b Suc by simp
    qed
  next
    assume "c \<notin> set (concat (map channel_indices (bd # bds)))"
    then show "foldl (\<lambda>cs bd. band_channels m bd cs) cs (bd # bds) ! c = cs ! c" using ih [OF c] nth by simp
  qed
qed simp

section \<open>What a channel gets\<close>

text \<open>
  The invariant of a channelizer in use: every channel is in the list of its band and of no other, the counters of
  the stages are in range, the buffers of the bands are empty and those of the channels below the threshold, and all
  buffers have room for what a block can add.
\<close>

definition band_of :: "channelizer \<Rightarrow> nat \<Rightarrow> band_state" where
  "band_of ch c = bands ch ! band_idx (chans ch ! c)"

definition block_yield :: "nat \<Rightarrow> band_state \<Rightarrow> nat" where
  "block_yield n bd = n div cas_period (band_stages bd) + 1"

definition band_ok :: "nat \<Rightarrow> band_state \<Rightarrow> bool" where
  "band_ok n bd \<longleftrightarrow> cas_ok (band_stages bd) \<and> inter_buf bd = [] \<and> block_yield n bd \<le> inter_cap bd"

definition channel_ok :: "nat \<Rightarrow> band_state \<Rightarrow> channel_state \<Rightarrow> bool" where
  "channel_ok n bd cs \<longleftrightarrow> cas_ok (chan_stages cs) \<and> length (out_buf cs) < 32 \<and>
     block_yield n bd div cas_period (chan_stages cs) + 32 \<le> out_cap cs"

definition chz_ok :: "channelizer \<Rightarrow> bool" where
  "chz_ok ch \<longleftrightarrow> layout_ok (map channel_indices (bands ch)) (length (chans ch)) \<and> (\<forall>bd \<in> set (bands ch). band_ok (max_block ch) bd) \<and>
     (\<forall>c < length (chans ch). band_idx (chans ch ! c) < length (bands ch) \<and> c \<in> set (channel_indices (band_of ch c)) \<and>
        channel_ok (max_block ch) (band_of ch c) (chans ch ! c))"

text \<open>The stream of a channel: the output of its machine on the output of the machine of its band.\<close>

definition band_stream :: "libm \<Rightarrow> channelizer \<Rightarrow> nat \<Rightarrow> cf list \<Rightarrow> cf list" where
  "band_stream m ch c xs = snd (run (band_core m) (band_of ch c) xs)"

definition channel_stream :: "libm \<Rightarrow> channelizer \<Rightarrow> nat \<Rightarrow> cf list \<Rightarrow> cf list" where
  "channel_stream m ch c xs = snd (run (channel_core m) (chans ch ! c) (band_stream m ch c xs))"

definition heard :: "nat \<Rightarrow> output_event list \<Rightarrow> cf list" where
  "heard cid es = concat (map (\<lambda>(i, t, ys). if i = cid then ys else []) es)"

lemma heard_append [simp]: "heard cid (es @ fs) = heard cid es @ heard cid fs" and heard_Nil [simp]: "heard cid [] = []"
  by (simp_all add: heard_def)

lemma band_block:
  assumes "band_ok n bd" and "length xs \<le> n"
  shows "foldl (\<lambda>s x. band_step m x s) bd xs = (fst (run (band_core m) bd xs))\<lparr>inter_buf := snd (run (band_core m) bd xs)\<rparr>"
    and "length (snd (run (band_core m) bd xs)) \<le> block_yield n bd"
proof -
  have "length (snd (run (band_core m) bd xs)) \<le> length xs div cas_period (band_stages bd) + 1"
    using bandp.run_length_le [of bd m xs] assms(1) by (simp add: band_ok_def)
  also have "\<dots> \<le> block_yield n bd" using div_le_mono [OF assms(2)] by (simp add: block_yield_def)
  finally show l: "length (snd (run (band_core m) bd xs)) \<le> block_yield n bd" .
  then show "foldl (\<lambda>s x. band_step m x s) bd xs = (fst (run (band_core m) bd xs))\<lparr>inter_buf := snd (run (band_core m) bd xs)\<rparr>"
    using bandb.steps_room [of bd m xs] assms(1) by (simp add: band_ok_def)
qed

lemma channel_block:
  assumes "channel_ok n bd cs" and "length ys \<le> block_yield n bd"
  shows "foldl (\<lambda>s y. channel_step m y s) cs ys = (fst (run (channel_core m) cs ys))\<lparr>out_buf := out_buf cs @ snd (run (channel_core m) cs ys)\<rparr>"
proof (rule chanb.steps_room)
  have "length (snd (run (channel_core m) cs ys)) \<le> length ys div cas_period (chan_stages cs) + 1"
    using chanp.run_length_le [of cs m ys] assms(1) by (simp add: channel_ok_def)
  also have "length ys div cas_period (chan_stages cs) \<le> block_yield n bd div cas_period (chan_stages cs)" by (rule div_le_mono [OF assms(2)])
  finally show "length (out_buf cs) + length (snd (run (channel_core m) cs ys)) \<le> out_cap cs"
    using assms(1) by (simp add: channel_ok_def)
qed

text \<open>The channels after a block, before the flush.\<close>

definition filled :: "libm \<Rightarrow> channelizer \<Rightarrow> cf list \<Rightarrow> nat \<Rightarrow> channel_state" where
  "filled m ch xs c =
     (fst (run (channel_core m) (chans ch ! c) (band_stream m ch c xs)))\<lparr>out_buf := out_buf (chans ch ! c) @ channel_stream m ch c xs\<rparr>"

lemma block_channels:
  assumes "chz_ok ch" and "length xs \<le> max_block ch"
  shows "process_block m ch xs =
    (ch\<lparr>bands := map (\<lambda>bd. fst (run (band_core m) bd xs)) (bands ch), chans := map (\<lambda>c. fst (flush_channel (filled m ch xs c))) [0..<length (chans ch)]\<rparr>,
     concat (map (\<lambda>c. snd (flush_channel (filled m ch xs c))) [0..<length (chans ch)]))"
proof -
  define bds where "bds = map (\<lambda>bd. (fst (run (band_core m) bd xs))\<lparr>inter_buf := snd (run (band_core m) bd xs)\<rparr>) (bands ch)"
  define cs where "cs = foldl (\<lambda>cs bd. band_channels m bd cs) (chans ch) bds"
  have b: "foldl (\<lambda>bds x. map (band_step m x) bds) (bands ch) xs = bds"
    unfolding foldl_map_swap bds_def using assms band_block(1) [of "max_block ch" _ xs m] by (auto simp: chz_ok_def)
  have i: "map channel_indices bds = map channel_indices (bands ch)" by (simp add: bds_def run_band_fixed)
  have e: "map (\<lambda>bd. bd\<lparr>inter_buf := []\<rparr>) bds = map (\<lambda>bd. fst (run (band_core m) bd xs)) (bands ch)"
  proof -
    have "(fst (run (band_core m) bd xs))\<lparr>inter_buf := []\<rparr> = fst (run (band_core m) bd xs)" if "bd \<in> set (bands ch)" for bd
    proof -
      have "inter_buf (fst (run (band_core m) bd xs)) = []"
        using that assms(1) by (simp add: bandb.run_buf chz_ok_def band_ok_def)
      then show ?thesis by (metis bandb.set_buf_id)
    qed
    then show ?thesis by (simp add: bds_def)
  qed
  have lay: "layout_ok (map channel_indices bds) (length (chans ch))" using assms(1) by (simp add: i chz_ok_def)
  have nth: "cs ! c = filled m ch xs c" if c: "c < length (chans ch)" for c
  proof -
    from assms(1) c have h: "band_idx (chans ch ! c) < length bds" "c \<in> set (channel_indices (band_of ch c))"
      "channel_ok (max_block ch) (band_of ch c) (chans ch ! c)" "band_ok (max_block ch) (band_of ch c)"
      by (auto simp: chz_ok_def bds_def band_of_def)
    then have "c \<in> set (channel_indices (bds ! band_idx (chans ch ! c)))" by (simp add: bds_def band_of_def run_band_fixed)
    then have "cs ! c = foldl (\<lambda>s y. channel_step m y s) (chans ch ! c) (inter_buf (bds ! band_idx (chans ch ! c)))"
      using bands_channels_nth [OF lay c] h(1) by (simp add: cs_def)
    also have "inter_buf (bds ! band_idx (chans ch ! c)) = band_stream m ch c xs"
      using h(1) by (simp add: bds_def band_stream_def band_of_def)
    finally show ?thesis
      using channel_block [OF h(3), of "band_stream m ch c xs" m] band_block(2) [OF h(4) assms(2), of m]
      by (simp add: filled_def channel_stream_def band_stream_def)
  qed
  have "cs = map (filled m ch xs) [0..<length (chans ch)]"
  proof (cases "chans ch = []")
    case False
    then have "length cs = length (chans ch)" using bands_channels_nth [OF lay, of 0] by (simp add: cs_def)
    then show ?thesis using nth by (intro nth_equalityI) auto
  next
    case True
    have "length (foldl (\<lambda>cs bd. band_channels m bd cs) xs bds) = length xs" for xs
      by (induction bds arbitrary: xs) (simp_all add: band_channels_length)
    then have "length cs = 0" using True by (simp add: cs_def)
    then show ?thesis using True by simp
  qed
  then show ?thesis
    unfolding process_block_def Let_def b e cs_def [symmetric] by (simp add: comp_def)
qed

lemma flush_channel_cases:
  "flush_channel cs = (cs\<lparr>out_buf := (if 32 \<le> length (out_buf cs) then [] else out_buf cs)\<rparr>,
     if 32 \<le> length (out_buf cs) then [(chan_id cs, chan_type cs, out_buf cs)] else [])"
  by (simp add: flush_channel_def chanb.set_buf_id)

lemma filled_fields [simp]:
  "band_idx (filled m ch xs c) = band_idx (chans ch ! c)" "chan_id (filled m ch xs c) = chan_id (chans ch ! c)"
  "chan_type (filled m ch xs c) = chan_type (chans ch ! c)" "out_buf (filled m ch xs c) = out_buf (chans ch ! c) @ channel_stream m ch c xs"
  "out_cap (filled m ch xs c) = out_cap (chans ch ! c)"
  "chan_stages (filled m ch xs c) = chan_stages (fst (run (channel_core m) (chans ch ! c) (band_stream m ch c xs)))"
  by (simp_all add: filled_def run_channel_fixed chanb.run_cap)

lemma block_ok:
  assumes "chz_ok ch" and "length xs \<le> max_block ch"
  shows "chz_ok (fst (process_block m ch xs))"
proof -
  let ?ch = "fst (process_block m ch xs)"
  have n: "max_block ?ch = max_block ch" by (simp add: process_block_def Let_def max_block_def)
  have b: "bands ?ch = map (\<lambda>bd. fst (run (band_core m) bd xs)) (bands ch)"
    and c: "chans ?ch = map (\<lambda>c. fst (flush_channel (filled m ch xs c))) [0..<length (chans ch)]"
    using block_channels [OF assms, of m] by simp_all
  have idx: "band_idx (chans ?ch ! c) = band_idx (chans ch ! c)" if "c < length (chans ch)" for c
    using that by (simp add: \<open>chans ?ch = _\<close> flush_channel_cases)
  have y: "block_yield k (fst (run (band_core m) bd xs)) = block_yield k bd" if "bd \<in> set (bands ch)" for k bd
    using that assms(1) by (simp add: block_yield_def bandp.run_period chz_ok_def band_ok_def)
  have "layout_ok (map channel_indices (bands ?ch)) (length (chans ?ch))"
    using assms(1) by (simp add: b c comp_def run_band_fixed chz_ok_def)
  moreover have "band_ok (max_block ch) bd" if "bd \<in> set (bands ?ch)" for bd
  proof -
    from that obtain bd0 where bd0: "bd0 \<in> set (bands ch)" "bd = fst (run (band_core m) bd0 xs)" by (auto simp: b)
    with assms(1) have "band_ok (max_block ch) bd0" by (simp add: chz_ok_def)
    then show ?thesis using y [OF bd0(1)]
      by (simp add: bd0(2) band_ok_def bandp.run_ok bandb.run_buf bandb.run_cap)
  qed
  moreover have "band_idx (chans ?ch ! c) < length (bands ?ch) \<and> c \<in> set (channel_indices (band_of ?ch c)) \<and>
      channel_ok (max_block ch) (band_of ?ch c) (chans ?ch ! c)" if c': "c < length (chans ch)" for c
  proof -
    from assms(1) c' have h: "band_idx (chans ch ! c) < length (bands ch)" "c \<in> set (channel_indices (band_of ch c))"
      "channel_ok (max_block ch) (band_of ch c) (chans ch ! c)" by (simp_all add: chz_ok_def)
    have bo: "band_of ?ch c = fst (run (band_core m) (band_of ch c) xs)" using h(1) by (simp add: band_of_def idx [OF c'] b)
    have "band_of ch c \<in> set (bands ch)" using h(1) by (simp add: band_of_def)
    note yy = y [OF this]
    have "chan_stages (chans ?ch ! c) = chan_stages (fst (run (channel_core m) (chans ch ! c) (band_stream m ch c xs)))"
      "out_cap (chans ?ch ! c) = out_cap (chans ch ! c)" "length (out_buf (chans ?ch ! c)) < 32"
      using c' by (simp_all add: c flush_channel_cases)
    then show ?thesis
      using h unfolding bo channel_ok_def yy
      by (simp add: idx [OF c'] b run_band_fixed chanp.run_ok chanp.run_period)
  qed
  ultimately show ?thesis unfolding chz_ok_def n using c by simp
qed

lemma concat_map_single:
  "distinct xs \<Longrightarrow> c \<in> set xs \<Longrightarrow> (\<And>d. d \<in> set xs \<Longrightarrow> d \<noteq> c \<Longrightarrow> f d = []) \<Longrightarrow> concat (map f xs) = f c"
proof (induction xs)
  case (Cons x xs)
  show ?case
  proof (cases "x = c")
    case True
    then have "concat (map f xs) = []" using Cons.prems by auto
    then show ?thesis using True by simp
  next
    case False
    then show ?thesis using Cons by simp
  qed
qed simp

definition ids_distinct :: "channelizer \<Rightarrow> bool" where
  "ids_distinct ch \<longleftrightarrow> distinct (map chan_id (chans ch))"

text \<open>
  A step of the channelizer on some samples delivers: what every channel hears, with what stays in its buffer, is its
  stream, the step leaves the invariant, and the streams go on where it stopped.
\<close>

definition tags :: "channelizer \<Rightarrow> (nat \<times> channel_type) list" where
  "tags ch = map (\<lambda>cs. (chan_id cs, chan_type cs)) (chans ch)"

definition event_tags :: "output_event list \<Rightarrow> (nat \<times> channel_type) set" where
  "event_tags es = (\<lambda>(i, t, ys). (i, t)) ` set es"

definition delivers :: "libm \<Rightarrow> channelizer \<Rightarrow> cf list \<Rightarrow> channelizer \<times> output_event list \<Rightarrow> bool" where
  "delivers m ch xs = (\<lambda>(ch1, es). chz_ok ch1 \<and> ids_distinct ch1 \<and> length (chans ch1) = length (chans ch) \<and>
     tags ch1 = tags ch \<and> event_tags es \<subseteq> set (tags ch) \<and>
     (\<forall>c < length (chans ch). chan_id (chans ch1 ! c) = chan_id (chans ch ! c) \<and>
        heard (chan_id (chans ch ! c)) es @ out_buf (chans ch1 ! c) = out_buf (chans ch ! c) @ channel_stream m ch c xs \<and>
        (\<forall>zs. channel_stream m ch c (xs @ zs) = channel_stream m ch c xs @ channel_stream m ch1 c zs)))"

lemma delivers_Nil: "chz_ok ch \<Longrightarrow> ids_distinct ch \<Longrightarrow> delivers m ch [] (ch, [])"
  by (simp add: delivers_def channel_stream_def band_stream_def event_tags_def)

lemma delivers_append:
  assumes "delivers m ch xs (ch1, es)" and "delivers m ch1 ys (ch2, fs)"
  shows "delivers m ch (xs @ ys) (ch2, es @ fs)"
  unfolding delivers_def prod.case
proof (intro conjI allI impI)
  note a = assms [unfolded delivers_def prod.case]
  show "chz_ok ch2" "ids_distinct ch2" "length (chans ch2) = length (chans ch)" "tags ch2 = tags ch" using a by simp_all
  show "event_tags (es @ fs) \<subseteq> set (tags ch)" using a by (simp add: event_tags_def image_Un)
  fix c
  assume c: "c < length (chans ch)"
  then have c1: "c < length (chans ch1)" using a by simp
  from a c have h1: "chan_id (chans ch1 ! c) = chan_id (chans ch ! c)"
    "heard (chan_id (chans ch ! c)) es @ out_buf (chans ch1 ! c) = out_buf (chans ch ! c) @ channel_stream m ch c xs"
    "\<And>zs. channel_stream m ch c (xs @ zs) = channel_stream m ch c xs @ channel_stream m ch1 c zs" by auto
  from a c1 have h2: "chan_id (chans ch2 ! c) = chan_id (chans ch1 ! c)"
    "heard (chan_id (chans ch1 ! c)) fs @ out_buf (chans ch2 ! c) = out_buf (chans ch1 ! c) @ channel_stream m ch1 c ys"
    "\<And>zs. channel_stream m ch1 c (ys @ zs) = channel_stream m ch1 c ys @ channel_stream m ch2 c zs" by auto
  show "chan_id (chans ch2 ! c) = chan_id (chans ch ! c)" using h1(1) h2(1) by simp
  have "heard (chan_id (chans ch ! c)) (es @ fs) @ out_buf (chans ch2 ! c) =
      (heard (chan_id (chans ch ! c)) es @ out_buf (chans ch1 ! c)) @ channel_stream m ch1 c ys"
    using h2(2) by (simp add: h1(1))
  then show "heard (chan_id (chans ch ! c)) (es @ fs) @ out_buf (chans ch2 ! c) = out_buf (chans ch ! c) @ channel_stream m ch c (xs @ ys)"
    unfolding h1(2) by (simp add: h1(3))
  show "channel_stream m ch c ((xs @ ys) @ zs) = channel_stream m ch c (xs @ ys) @ channel_stream m ch2 c zs" for zs
    by (simp add: h1(3) h2(3))
qed

lemma block_delivers:
  assumes "chz_ok ch" and "ids_distinct ch" and "length xs \<le> max_block ch"
  shows "delivers m ch xs (process_block m ch xs)"
proof -
  obtain ch1 es where p: "process_block m ch xs = (ch1, es)" by fastforce
  let ?flush = "\<lambda>c. flush_channel (filled m ch xs c)" and ?n = "length (chans ch)"
  have ch1: "bands ch1 = map (\<lambda>bd. fst (run (band_core m) bd xs)) (bands ch)" "chans ch1 = map (\<lambda>c. fst (?flush c)) [0..<?n]"
    and es: "es = concat (map (\<lambda>c. snd (?flush c)) [0..<?n])"
    using block_channels [OF assms(1,3), of m] p by auto
  have heard_concat: "heard i (concat ess) = concat (map (heard i) ess)" for i ess by (induction ess) simp_all
  have "heard (chan_id (chans ch ! c)) es @ out_buf (chans ch1 ! c) = out_buf (chans ch ! c) @ channel_stream m ch c xs"
    if c: "c < ?n" for c
  proof -
    have "chan_id (chans ch ! d) \<noteq> chan_id (chans ch ! c)" if "d < ?n" "d \<noteq> c" for d
      using nth_eq_iff_index_eq [of "map chan_id (chans ch)" d c] assms(2) c that by (simp add: ids_distinct_def)
    then have "heard (chan_id (chans ch ! c)) (snd (?flush d)) = []" if "d < ?n" "d \<noteq> c" for d
      using that by (simp add: flush_channel_cases heard_def)
    then have "concat (map (\<lambda>d. heard (chan_id (chans ch ! c)) (snd (?flush d))) [0..<?n]) = heard (chan_id (chans ch ! c)) (snd (?flush c))"
      using c by (intro concat_map_single) auto
    then have "heard (chan_id (chans ch ! c)) es = heard (chan_id (chans ch ! c)) (snd (?flush c))"
      by (simp add: es comp_def heard_concat)
    then show ?thesis using c by (simp add: ch1 flush_channel_cases heard_def)
  qed
  moreover have "channel_stream m ch c (xs @ zs) = channel_stream m ch c xs @ channel_stream m ch1 c zs" if c: "c < ?n" for c zs
  proof -
    have idx: "band_idx (chans ch ! c) < length (bands ch)" using assms(1) c by (simp add: chz_ok_def)
    have bo: "band_of ch1 c = fst (run (band_core m) (band_of ch c) xs)" using c idx by (simp add: band_of_def ch1 flush_channel_cases)
    have b: "band_stream m ch c (xs @ zs) = band_stream m ch c xs @ band_stream m ch1 c zs"
      by (simp add: band_stream_def run_append_snd bo)
    obtain buf where cs: "chans ch1 ! c = (fst (run (channel_core m) (chans ch ! c) (band_stream m ch c xs)))\<lparr>out_buf := buf\<rparr>"
      using c by (simp add: ch1 flush_channel_cases filled_def)
    show ?thesis unfolding channel_stream_def b run_append_snd cs chanb.run_set by simp
  qed
  moreover have "chan_id (chans ch1 ! c) = chan_id (chans ch ! c)" if "c < ?n" for c
    using that by (simp add: ch1 flush_channel_cases)
  moreover have "tags ch1 = tags ch"
    by (intro nth_equalityI) (simp_all add: tags_def ch1 flush_channel_cases)
  moreover have "event_tags es \<subseteq> set (tags ch)"
    by (fastforce simp: es event_tags_def tags_def flush_channel_cases in_set_conv_nth split: if_splits)
  moreover have "map chan_id (chans ch1) = map chan_id (chans ch)"
    by (intro nth_equalityI) (simp_all add: ch1 flush_channel_cases)
  moreover have "chz_ok ch1" using block_ok [OF assms(1,3), of m] p by simp
  ultimately show ?thesis using assms(2) by (simp add: p delivers_def ids_distinct_def ch1)
qed

lemma delivers_ok: "delivers m ch xs (ch1, es) \<Longrightarrow> chz_ok ch1 \<and> ids_distinct ch1"
  by (simp add: delivers_def)

lemma process_Nil [simp]: "channelizer_process m ch [] = (ch, [])" "channelizer_process_i8 m ch [] = (ch, [])"
  by (simp_all add: channelizer_process.simps [of m ch "[]"] channelizer_process_i8.simps [of m ch "[]"])

lemma process_delivers: "chz_ok ch \<Longrightarrow> ids_distinct ch \<Longrightarrow> delivers m ch xs (channelizer_process m ch xs)"
proof (induction m ch xs rule: channelizer_process.induct)
  case (1 m ch xs)
  show ?case
  proof (cases "xs = []")
    case False
    let ?n = "max_block ch"
    obtain ch2 es2 where p: "process_block m ch (take ?n xs) = (ch2, es2)" by fastforce
    obtain ch3 es3 where q: "channelizer_process m ch2 (drop ?n xs) = (ch3, es3)" by fastforce
    have b: "delivers m ch (take ?n xs) (ch2, es2)" using block_delivers [OF "1.prems", of "take ?n xs" m] by (simp add: p)
    from delivers_ok [OF this] have "delivers m ch2 (drop ?n xs) (ch3, es3)"
      using "1.IH" [OF False refl p [symmetric] refl] by (simp add: q)
    from delivers_append [OF b this] show ?thesis
      by (simp add: channelizer_process.simps [of m ch xs] False Let_def p q)
  qed (use "1.prems" in \<open>simp add: delivers_Nil\<close>)
qed

text \<open>The number of samples that a channel gets.\<close>

lemma channel_stream_length:
  assumes "chz_ok ch" and "c < length (chans ch)"
  shows "length (channel_stream m ch c xs) =
    (cas_phase (chan_stages (chans ch ! c)) + (cas_phase (band_stages (band_of ch c)) + length xs) div cas_period (band_stages (band_of ch c)))
      div cas_period (chan_stages (chans ch ! c))"
proof -
  have "cas_ok (chan_stages (chans ch ! c))" "cas_ok (band_stages (band_of ch c))"
    using assms by (auto simp: chz_ok_def channel_ok_def band_ok_def band_of_def)
  then show ?thesis by (simp add: channel_stream_def band_stream_def chanp.run_length bandp.run_length)
qed

text \<open>Samples of one byte.\<close>

lemma convert_append: "even (length xs) \<Longrightarrow> convert_i8_cf (xs @ ys) = convert_i8_cf xs @ convert_i8_cf ys"
  by (induction xs rule: convert_i8_cf.induct) simp_all

lemma process_i8_delivers:
  "chz_ok ch \<Longrightarrow> ids_distinct ch \<Longrightarrow> even (length iq) \<Longrightarrow> delivers m ch (convert_i8_cf iq) (channelizer_process_i8 m ch iq)"
proof (induction m ch iq rule: channelizer_process_i8.induct)
  case (1 m ch iq)
  show ?case
  proof (cases "iq = []")
    case False
    let ?xs = "convert_i8_cf (take 8192 iq)"
    obtain ch2 es2 where p: "channelizer_process m ch ?xs = (ch2, es2)" by fastforce
    obtain ch3 es3 where q: "channelizer_process_i8 m ch2 (drop 8192 iq) = (ch3, es3)" by fastforce
    have ev: "even (length (take 8192 iq))" "even (length (drop 8192 iq))" using "1.prems"(3) by (simp_all add: min_def)
    have b: "delivers m ch ?xs (ch2, es2)" using process_delivers [OF "1.prems"(1,2), of m ?xs] by (simp add: p)
    from delivers_ok [OF this] have "delivers m ch2 (convert_i8_cf (drop 8192 iq)) (ch3, es3)"
      using "1.IH" [OF False p [symmetric] refl _ _ ev(2)] by (simp add: q)
    from delivers_append [OF b this] show ?thesis
      using convert_append [OF ev(1), of "drop 8192 iq"] by (simp add: channelizer_process_i8.simps [of m ch iq] False Let_def p q)
  qed (use "1.prems" in \<open>simp add: delivers_Nil\<close>)
qed

section \<open>Properties\<close>

text \<open>
  C35: a decimation stage is a finite impulse response filter followed by a decimator.  From its initial state,
  after every \<open>d\<close> samples it emits the scalar product of its coefficients with the 63 newest samples,
  the newest first and zeros before the start, whatever the position in its ring.
\<close>

theorem decimation_stage_is_fir:
  assumes "0 < d"
  shows "snd (run decim_stage_process (new_stage m d) xs) =
    map (\<lambda>k. fir_ccf (design_lowpass m STAGE_FIR_TAPS (ddiv c04 (of_nat d))) (take 63 (rev (take ((k + 1) * d) xs) @ replicate 63 (0, 0)))) [0..<length xs div d]"
proof -
  have f: "st_count (new_stage m d) = 0" "decimation (new_stage m d) = d"
    "fir_taps (new_stage m d) = design_lowpass m STAGE_FIR_TAPS (ddiv c04 (of_nat d))" by (simp_all add: new_stage_def)
  have "recent (new_stage m d) = replicate 63 (0, 0)"
    by (rule nth_equalityI) (simp_all add: recent_def new_stage_def STAGE_FIR_TAPS_def)
  then show ?thesis using run_stage [OF new_stage_ok [OF assms] f(1), of xs] by (simp add: f)
qed

theorem decimation_stage_is_fir_witness:
  "\<forall>m. snd (run decim_stage_process (new_stage m 3) [(1, 0), (0, 1), (1 / 2, 0), (0, 0)]) =
    [fir_ccf (design_lowpass m STAGE_FIR_TAPS (ddiv c04 3)) ([(1 / 2, 0), (0, 1), (1, 0)] @ replicate 60 (0, 0))]"
proof -
  have "take 63 ([(1 / 2, 0), (0, 1), (1, 0)] @ replicate 63 (0, 0)) = [(1 / 2, 0), (0, 1), (1, 0)] @ replicate 60 ((0, 0) :: cf)"
    by (simp add: numeral_eq_Suc)
  then show ?thesis using decimation_stage_is_fir [of 3 _ "[(1, 0), (0, 1), (1 / 2, 0), (0, 0)]"] by simp
qed

text \<open>
  The final filter of a channel with its doubled buffer sees a contiguous window: from the initial buffer of
  zeros, the output at every sample is the scalar product of the coefficients with the 127 newest samples, the oldest first.
\<close>

theorem cleanup_filter_window:
  assumes "has_cleanup cs" and "cleanup_hist cs = replicate 254 (0, 0)" and "cleanup_idx cs = 0"
  shows "snd (run (\<lambda>cs x. map_prod (\<lambda>c. c) Some (cleanup_step x cs)) cs xs) =
    map (\<lambda>k. fir_ccf (cleanup_taps cs) (drop (k + 1) (replicate 127 (0, 0) @ take (k + 1) xs))) [0..<length xs]"
proof -
  let ?f = "\<lambda>cs x. map_prod (\<lambda>c. c) Some (cleanup_step x cs)"
  have keep: "has_cleanup (fst (cleanup_step x cs)) = has_cleanup cs" "cleanup_taps (fst (cleanup_step x cs)) = cleanup_taps cs" for x cs
    by (simp_all add: cleanup_step_def Let_def)
  have gen: "has_cleanup cs \<Longrightarrow> cleanup_ok cs \<Longrightarrow> snd (run ?f cs xs) =
      map (\<lambda>k. fir_ccf (cleanup_taps cs) (drop (k + 1) (window cs @ take (k + 1) xs))) [0..<length xs]" for cs
  proof (induction xs arbitrary: cs)
    case (Cons x xs)
    note w = cleanup_step_window [OF Cons.prems(2,1), of x]
    let ?cs = "fst (cleanup_step x cs)"
    obtain a w' where win: "window cs = a # w'" using length_window [OF Cons.prems(2)] by (cases "window cs") auto
    have "snd (run ?f ?cs xs) = map (\<lambda>k. fir_ccf (cleanup_taps cs) (drop (k + 1) (window ?cs @ take (k + 1) xs))) [0..<length xs]"
      using Cons.IH [of ?cs] Cons.prems(1) w(1) by (simp add: keep)
    also have "\<dots> = map (\<lambda>k. fir_ccf (cleanup_taps cs) (drop (Suc k + 1) (window cs @ take (Suc k + 1) (x # xs)))) [0..<length xs]"
      by (simp add: w(2) win del: drop_append)
    finally have "snd (run ?f cs (x # xs)) = fir_ccf (cleanup_taps cs) (tl (window cs) @ [x]) #
        map (\<lambda>k. fir_ccf (cleanup_taps cs) (drop (Suc k + 1) (window cs @ take (Suc k + 1) (x # xs)))) [0..<length xs]"
      by (simp add: Let_def split_beta w(3))
    also have "\<dots> = map (\<lambda>k. fir_ccf (cleanup_taps cs) (drop (k + 1) (window cs @ take (k + 1) (x # xs)))) [0..<length (x # xs)]"
      by (simp add: win upt_conv_Cons map_Suc_upt [symmetric] comp_def del: upt_Suc drop_append)
    finally show ?case .
  qed simp
  have "cleanup_ok cs" using assms by (simp add: cleanup_ok_def)
  moreover have "window cs = replicate 127 (0, 0)" using assms by (simp add: window_def)
  ultimately show ?thesis using gen [OF assms(1)] by simp
qed

end
