(* ===== verification/ChannelizerBuilt.thy ===== *)
theory ChannelizerBuilt
  imports ChannelizerStream
begin

text \<open>
  The invariant that the set-up functions of \<open>channelizer.c\<close> establish: bands and channels fit together and every
  buffer has room for what a block can add, in the rounded arithmetic of the code.
\<close>

section \<open>Channelizers as they are built\<close>

subsection \<open>Bounds of the rounded arithmetic\<close>

lemma round64_near:
  assumes "0 \<le> x" and "x < 33554432"
  shows "x \<le> round64 x + 1 / 1000" and "round64 x \<le> x + 1 / 1000"
proof -
  have "\<bar>round64 x - x\<bar> \<le> 1 / 536870912" using round64_error [of x 25] assms by (simp add: pow2_def)
  then have "x - round64 x \<le> 1 / 536870912" "round64 x - x \<le> 1 / 536870912" by linarith+
  then show "x \<le> round64 x + 1 / 1000" and "round64 x \<le> x + 1 / 1000" by linarith+
qed

lemma consts_bounds: "1 / 10 \<le> c01" "c01 \<le> 2 / 10" "0 \<le> c005" "c005 \<le> 1 / 20 + 1 / 10 ^ 12"
  by (code_simp)+

lemma trunc_nat: "0 \<le> x \<Longrightarrow> x - 1 \<le> of_nat (nat (trunc x)) \<and> of_nat (nat (trunc x)) \<le> x"
proof -
  assume x: "0 \<le> x"
  then have "trunc x = \<lfloor>x\<rfloor>" "0 \<le> \<lfloor>x\<rfloor>" by (simp_all add: trunc_def)
  then have "(of_nat (nat (trunc x)) :: rat) = of_int \<lfloor>x\<rfloor>" by (simp add: of_nat_nat)
  then show ?thesis using floor_correct [of x] by linarith
qed

lemma buffer_cap_lower:
  assumes "0 \<le> rate" and "rate < 33554432"
  shows "rate / 10 + 510 \<le> of_nat (buffer_cap rate)"
proof -
  have p: "0 \<le> rate * c01" using assms consts_bounds by simp
  have "rate * c01 \<le> rate * (2 / 10)" by (rule mult_left_mono [OF consts_bounds(2) assms(1)])
  then have "rate * c01 < 33554432" using assms by linarith
  note r = round64_near [OF p this] round64_nonneg [OF p]
  have "rate * (1 / 10) \<le> rate * c01" by (rule mult_left_mono [OF consts_bounds(1) assms(1)])
  moreover note r(1) conjunct1 [OF trunc_nat [OF r(3)]]
  ultimately have "rate / 10 + 510 \<le> of_nat (nat (trunc (dmul rate c01))) + 512" by linarith
  then show ?thesis by (simp add: buffer_cap_def)
qed

lemma max_block_upper:
  assumes "1 \<le> samp_rate ch" and "samp_rate ch \<le> 20000000"
  shows "of_nat (max_block ch) \<le> samp_rate ch / 20 + 2"
proof -
  let ?r = "samp_rate ch"
  have p: "0 \<le> ?r * c005" using assms consts_bounds by simp
  have u: "?r * c005 \<le> ?r * (1 / 20 + 1 / 10 ^ 12)" using assms by (intro mult_left_mono consts_bounds) simp
  moreover have "?r * (1 / 20 + 1 / 10 ^ 12) \<le> ?r / 20 + 1 / 10" using assms by (simp add: field_simps)
  ultimately have "?r * c005 \<le> ?r / 20 + 1 / 10" by linarith
  moreover from this have "?r * c005 < 33554432" using assms by linarith
  note r = round64_near [OF p this] round64_nonneg [OF p]
  note r(2) conjunct2 [OF trunc_nat [OF r(3)]]
  ultimately have "of_nat (nat (trunc (dmul ?r c005))) \<le> ?r / 20 + 2" by linarith
  moreover have "1 \<le> ?r / 20 + 2" using assms by simp
  ultimately show ?thesis unfolding max_block_def of_nat_max by (intro max.boundedI) simp_all
qed

lemma decimated_rate_lower:
  assumes "\<And>d. d \<in> set ds \<Longrightarrow> 2 \<le> d" and "0 \<le> r" and "r < 33554432"
  shows "r / of_nat (prod_list ds) - of_nat (length ds) \<le> decimated_rate r ds \<and> 0 \<le> decimated_rate r ds \<and> decimated_rate r ds < 33554432"
  using assms
proof (induction ds arbitrary: r)
  case (Cons d ds)
  have d: "(2 :: rat) \<le> of_nat d" using Cons.prems(1) [of d] by (metis list.set_intros(1) of_nat_le_iff of_nat_numeral)
  then have q: "0 \<le> r / of_nat d" "r / of_nat d \<le> r / 2"
    using Cons.prems(2) by simp (intro divide_left_mono; use d Cons.prems(2) in simp)
  then have q2: "r / of_nat d < 33554432" using Cons.prems(3) by linarith
  let ?r = "ddiv r (of_nat d)"
  note n = round64_near [OF q(1) q2]
  have r: "0 \<le> ?r" "?r < 33554432"
  proof -
    show "0 \<le> ?r" by (rule round64_nonneg [OF q(1)])
    show "?r < 33554432" using n(2) q(2) Cons.prems(3) by linarith
  qed
  note ih = Cons.IH [OF _ r]
  have pos: "(1 :: rat) \<le> of_nat (prod_list ds)"
  proof -
    have "0 \<notin> set ds" using Cons.prems(1) by fastforce
    then have "prod_list ds \<noteq> 0" by (simp add: prod_list_zero_iff)
    then have "1 \<le> prod_list ds" by simp
    then show ?thesis by (metis of_nat_1 of_nat_le_iff)
  qed
  have "(r / of_nat d - 1) / of_nat (prod_list ds) \<le> ?r / of_nat (prod_list ds)"
    using n(1) pos by (intro divide_right_mono) linarith+
  moreover have "r / of_nat d / of_nat (prod_list ds) - 1 \<le> (r / of_nat d - 1) / of_nat (prod_list ds)"
    using pos by (simp add: diff_divide_distrib)
  ultimately have "r / of_nat (prod_list (d # ds)) - 1 \<le> ?r / of_nat (prod_list ds)" by (simp add: divide_divide_eq_left)
  then show ?case using ih Cons.prems(1) by (simp add: decimated_rate_def)
qed (simp add: decimated_rate_def)

subsection \<open>Room\<close>

lemma plan_half: "1 \<le> s \<Longrightarrow> s \<le> 100 \<Longrightarrow> s \<le> 2 * prod_list (plan_decimation s 16 MAX_STAGES)"
proof -
  have "\<forall>s \<in> set [1..<101]. s \<le> 2 * prod_list (plan_decimation s 16 MAX_STAGES)" by code_simp
  then show "1 \<le> s \<Longrightarrow> s \<le> 100 \<Longrightarrow> ?thesis" by auto
qed

lemma plan_length: "length (plan_decimation n 16 MAX_STAGES) \<le> 4"
  unfolding plan_decimation_loop using plan_loop_length [of MAX_STAGES 16 n] by (simp add: MAX_STAGES_def)

lemma plan_pos: "0 < prod_list (plan_decimation n 16 k)"
proof -
  have "0 \<notin> set (plan_decimation n 16 k)" using plan_range by fastforce
  then show ?thesis by (metis neq0_conv prod_list_zero_iff)
qed

lemma cas_new [simp]: "cas_period (map (new_stage m) ds) = prod_list ds"
  by (simp add: cas_period_def comp_def new_stage_def)

lemma cas_ok_plan: "cas_ok (map (new_stage m) (plan_decimation n 16 k))"
proof -
  have "stage_ok (new_stage m d)" if "d \<in> set (plan_decimation n 16 k)" for d
    using plan_range [OF that] by (intro new_stage_ok) simp
  then show ?thesis by (auto simp: cas_ok_def list_all_iff)
qed

text \<open>A band and a channel as they are initialised: the decimation of a band is at most 100.\<close>

definition band_built :: "libm \<Rightarrow> rat \<Rightarrow> band_state \<Rightarrow> bool" where
  "band_built m rate bd \<longleftrightarrow> (\<exists>s1. 1 \<le> s1 \<and> s1 \<le> 100 \<and> intermediate_rate bd = ddiv rate (of_nat s1) \<and>
     band_stages bd = map (new_stage m) (plan_decimation s1 16 MAX_STAGES) \<and> inter_buf bd = [] \<and> inter_cap bd = buffer_cap (intermediate_rate bd))"

definition channel_built :: "libm \<Rightarrow> band_state \<Rightarrow> channel_state \<Rightarrow> bool" where
  "channel_built m bd cs \<longleftrightarrow> (\<exists>s2. chan_stages cs = map (new_stage m) (plan_decimation s2 16 MAX_STAGES) \<and> out_buf cs = [] \<and>
     out_cap cs = buffer_cap (decimated_rate (intermediate_rate bd) (plan_decimation s2 16 MAX_STAGES)))"

lemma block_yield_upper:
  assumes "band_built m rate bd" and "of_nat n \<le> rate / 20 + 2" and "1 \<le> rate" and "rate \<le> 20000000"
  shows "of_nat (block_yield n bd) \<le> intermediate_rate bd / 10 + 6" and "0 \<le> intermediate_rate bd" and "intermediate_rate bd < 33554432"
proof -
  from assms(1) obtain s1 where s: "1 \<le> s1" "s1 \<le> 100" "intermediate_rate bd = ddiv rate (of_nat s1)"
    "band_stages bd = map (new_stage m) (plan_decimation s1 16 MAX_STAGES)" by (auto simp: band_built_def)
  have s1: "(1 :: rat) \<le> of_nat s1" using s(1) by simp
  have q: "0 \<le> rate / of_nat s1" "rate / of_nat s1 \<le> rate" using s1 assms(3) by (simp_all add: divide_le_eq)
  then have q2: "rate / of_nat s1 < 33554432" using assms(4) by linarith
  note n = round64_near [OF q(1) q2, folded s(3)]
  show "0 \<le> intermediate_rate bd" unfolding s(3) by (rule round64_nonneg [OF q(1)])
  show "intermediate_rate bd < 33554432" using n(2) q(2) assms(4) by linarith
  let ?P = "prod_list (plan_decimation s1 16 MAX_STAGES)"
  have P: "(of_nat s1 :: rat) \<le> 2 * of_nat ?P"
    using plan_half [OF s(1,2)] by (metis of_nat_le_iff of_nat_mult of_nat_numeral)
  have P0: "(0 :: rat) < of_nat ?P" using plan_pos by simp
  have "of_nat (n div ?P) \<le> (of_nat n / of_nat ?P :: rat)" using P0
    by (simp add: le_divide_eq) (metis div_times_less_eq_dividend of_nat_le_iff of_nat_mult)
  also have "\<dots> \<le> (rate / 20 + 2) / of_nat ?P" using assms(2) P0 by (intro divide_right_mono) simp_all
  also have "\<dots> \<le> (rate / 20 + 2) / (of_nat s1 / 2)" using P s1 assms(3) by (intro divide_left_mono) simp_all
  also have "\<dots> = rate / of_nat s1 / 10 + 4 / of_nat s1" using s1 by (simp add: field_simps)
  also have "\<dots> \<le> rate / of_nat s1 / 10 + 4" using s1 by (simp add: divide_le_eq)
  also have "\<dots> \<le> (intermediate_rate bd + 1 / 1000) / 10 + 4" using n(1) by (intro add_right_mono divide_right_mono) simp_all
  finally have "of_nat (n div ?P) + 1 \<le> (intermediate_rate bd + 1 / 1000) / 10 + 4 + 1" by (rule add_right_mono)
  also have "\<dots> \<le> intermediate_rate bd / 10 + 6" by (simp add: add_divide_distrib)
  finally have "of_nat (n div ?P) + 1 \<le> intermediate_rate bd / 10 + 6" .
  then show "of_nat (block_yield n bd) \<le> intermediate_rate bd / 10 + 6" by (simp add: block_yield_def s(4))
qed

lemma band_built_ok:
  assumes "band_built m rate bd" and "of_nat n \<le> rate / 20 + 2" and "1 \<le> rate" and "rate \<le> 20000000"
  shows "band_ok n bd"
proof -
  from assms(1) have b: "cas_ok (band_stages bd)" "inter_buf bd = []" "inter_cap bd = buffer_cap (intermediate_rate bd)"
    using cas_ok_plan by (auto simp: band_built_def)
  note y = block_yield_upper [OF assms]
  have "(of_nat (block_yield n bd) :: rat) \<le> of_nat (buffer_cap (intermediate_rate bd))"
    using y(1) buffer_cap_lower [OF y(2,3)] by linarith
  then show ?thesis using b by (simp add: band_ok_def)
qed

lemma channel_built_ok:
  assumes "band_built m rate bd" and "of_nat n \<le> rate / 20 + 2" and "1 \<le> rate" and "rate \<le> 20000000" and "channel_built m bd cs"
  shows "channel_ok n bd cs"
proof -
  from assms(5) obtain s2 where c: "chan_stages cs = map (new_stage m) (plan_decimation s2 16 MAX_STAGES)" "out_buf cs = []"
    "out_cap cs = buffer_cap (decimated_rate (intermediate_rate bd) (plan_decimation s2 16 MAX_STAGES))" by (auto simp: channel_built_def)
  let ?ds = "plan_decimation s2 16 MAX_STAGES" and ?I = "intermediate_rate bd"
  note y = block_yield_upper [OF assms(1-4)]
  have "2 \<le> d" if "d \<in> set ?ds" for d using plan_range [OF that] by simp
  then have r: "?I / of_nat (prod_list ?ds) - of_nat (length ?ds) \<le> decimated_rate ?I ?ds \<and> 0 \<le> decimated_rate ?I ?ds \<and>
      decimated_rate ?I ?ds < 33554432" by (rule decimated_rate_lower [OF _ y(2,3)])
  let ?P = "of_nat (prod_list ?ds) :: rat"
  have P: "1 \<le> ?P" using plan_pos [of s2 MAX_STAGES] by (metis One_nat_def Suc_leI of_nat_1 of_nat_le_iff)
  have "of_nat (block_yield n bd div prod_list ?ds) \<le> (of_nat (block_yield n bd) / ?P :: rat)" using P
    by (simp add: le_divide_eq) (metis div_times_less_eq_dividend of_nat_le_iff of_nat_mult)
  also have "\<dots> \<le> (?I / 10 + 6) / ?P" using y(1) P by (intro divide_right_mono) simp_all
  also have "\<dots> = ?I / ?P / 10 + 6 / ?P" by (simp add: add_divide_distrib)
  also have "\<dots> \<le> ?I / ?P / 10 + 6" using P by (simp add: divide_le_eq)
  finally have u: "of_nat (block_yield n bd div prod_list ?ds) \<le> ?I / ?P / 10 + 6" .
  have "(of_nat (length ?ds) :: rat) \<le> 4" using plan_length [of s2] by (metis of_nat_le_iff of_nat_numeral)
  then have "?I / ?P \<le> decimated_rate ?I ?ds + 4" using conjunct1 [OF r] by linarith
  moreover have "decimated_rate ?I ?ds / 10 + 510 \<le> of_nat (buffer_cap (decimated_rate ?I ?ds))" using r by (intro buffer_cap_lower) simp_all
  ultimately have "(of_nat (block_yield n bd div prod_list ?ds + 32) :: rat) \<le> of_nat (buffer_cap (decimated_rate ?I ?ds))" using u by simp
  then have "block_yield n bd div prod_list ?ds + 32 \<le> buffer_cap (decimated_rate ?I ?ds)" by (simp only: of_nat_le_iff)
  then show ?thesis using c cas_ok_plan by (simp add: channel_ok_def)
qed

subsection \<open>The invariant of the set-up\<close>

definition built :: "libm \<Rightarrow> channelizer \<Rightarrow> bool" where
  "built m ch \<longleftrightarrow> 1 \<le> samp_rate ch \<and> samp_rate ch \<le> 20000000 \<and> layout_ok (map channel_indices (bands ch)) (length (chans ch)) \<and>
     (\<forall>bd \<in> set (bands ch). band_built m (samp_rate ch) bd) \<and>
     (\<forall>c < length (chans ch). band_idx (chans ch ! c) < length (bands ch) \<and> c \<in> set (channel_indices (band_of ch c)) \<and>
        channel_built m (band_of ch c) (chans ch ! c))"

lemma built_ok: "built m ch \<Longrightarrow> chz_ok ch"
proof -
  assume b: "built m ch"
  then have r: "1 \<le> samp_rate ch" "samp_rate ch \<le> 20000000" by (simp_all add: built_def)
  note n = max_block_upper [OF r]
  show "chz_ok ch" unfolding chz_ok_def
  proof (intro conjI allI impI ballI)
    show "layout_ok (map channel_indices (bands ch)) (length (chans ch))" using b by (simp add: built_def)
    show "band_ok (max_block ch) bd" if "bd \<in> set (bands ch)" for bd
      using b that by (intro band_built_ok [of m, OF _ n r]) (simp add: built_def)
    fix c
    assume "c < length (chans ch)"
    with b show i: "band_idx (chans ch ! c) < length (bands ch)" and "c \<in> set (channel_indices (band_of ch c))" by (simp_all add: built_def)
    have "band_built m (samp_rate ch) (band_of ch c)" using b i by (simp add: built_def band_of_def)
    then show "channel_ok (max_block ch) (band_of ch c) (chans ch ! c)"
      using b \<open>c < length (chans ch)\<close> by (intro channel_built_ok [of m, OF _ n r]) (simp_all add: built_def)
  qed
qed

lemma built_create: "1 \<le> rate \<Longrightarrow> rate \<le> 20000000 \<Longrightarrow> built m (channelizer_create center rate)"
  by (simp add: built_def channelizer_create_def layout_ok_def)

text \<open>What the invariant depends on.\<close>

definition band_frame :: "band_state \<Rightarrow> rat \<times> decim_stage list \<times> cf list \<times> nat \<times> nat list" where
  "band_frame bd = (intermediate_rate bd, band_stages bd, inter_buf bd, inter_cap bd, channel_indices bd)"

definition chan_frame :: "channel_state \<Rightarrow> nat \<times> decim_stage list \<times> cf list \<times> nat \<times> nat \<times> channel_type" where
  "chan_frame cs = (band_idx cs, chan_stages cs, out_buf cs, out_cap cs, chan_id cs, chan_type cs)"

definition same_frame :: "channelizer \<Rightarrow> channelizer \<Rightarrow> bool" where
  "same_frame ch ch1 \<longleftrightarrow> samp_rate ch1 = samp_rate ch \<and> map band_frame (bands ch1) = map band_frame (bands ch) \<and>
     map chan_frame (chans ch1) = map chan_frame (chans ch)"

lemma same_frame_refl [simp]: "same_frame ch ch" and same_frame_trans: "same_frame a b \<Longrightarrow> same_frame b c \<Longrightarrow> same_frame a c"
  by (simp_all add: same_frame_def)

lemma map_eq_nth: "map f xs = map g ys \<Longrightarrow> length xs = length ys \<and> (\<forall>i < length ys. f (xs ! i) = g (ys ! i))"
  by (metis length_map nth_map)

lemma band_frame_built: "band_frame a = band_frame b \<Longrightarrow> band_built m rate a = band_built m rate b"
  by (simp add: band_frame_def band_built_def)

lemma frame_built:
  assumes "same_frame ch ch1" and "built m ch"
  shows "built m ch1" and "ids_distinct ch \<Longrightarrow> ids_distinct ch1"
proof -
  from assms(1) have b: "length (bands ch1) = length (bands ch)" "\<And>i. i < length (bands ch) \<Longrightarrow> band_frame (bands ch1 ! i) = band_frame (bands ch ! i)"
    and c: "length (chans ch1) = length (chans ch)" "\<And>i. i < length (chans ch) \<Longrightarrow> chan_frame (chans ch1 ! i) = chan_frame (chans ch ! i)"
    and r: "samp_rate ch1 = samp_rate ch" by (auto simp: same_frame_def dest!: map_eq_nth)
  have i: "map channel_indices (bands ch1) = map channel_indices (bands ch)"
    using b by (intro nth_equalityI) (auto simp: band_frame_def)
  have bb: "band_built m (samp_rate ch) bd" if "bd \<in> set (bands ch1)" for bd
  proof -
    from that b(1) obtain k where "k < length (bands ch)" "bd = bands ch1 ! k" by (auto simp: in_set_conv_nth)
    then show ?thesis using band_frame_built [OF b(2)] assms(2) by (simp add: built_def)
  qed
  have cc: "band_idx (chans ch1 ! k) < length (bands ch1) \<and> k \<in> set (channel_indices (band_of ch1 k)) \<and>
      channel_built m (band_of ch1 k) (chans ch1 ! k)" if k: "k < length (chans ch)" for k
  proof -
    from assms(2) k have h: "band_idx (chans ch ! k) < length (bands ch)" "k \<in> set (channel_indices (band_of ch k))"
      "channel_built m (band_of ch k) (chans ch ! k)" by (simp_all add: built_def)
    from b(2) [OF h(1)] c(2) [OF k] show ?thesis
      using h by (simp add: band_of_def band_frame_def chan_frame_def channel_built_def b(1))
  qed
  show "built m ch1" using assms(2) bb cc i by (simp add: built_def c(1) r)
  have "map chan_id (chans ch1) = map chan_id (chans ch)"
    using c by (intro nth_equalityI) (auto simp: chan_frame_def)
  then show "ids_distinct ch \<Longrightarrow> ids_distinct ch1" by (simp add: ids_distinct_def)
qed

lemma map_foldl_update: "(\<And>x. g (f x) = g x) \<Longrightarrow> map g (foldl (\<lambda>cs i. cs[i := f (cs ! i)]) cs idxs) = map g cs"
proof (induction idxs arbitrary: cs)
  case (Cons i idxs)
  have "map g (cs[i := f (cs ! i)]) = map g cs"
    by (cases "i < length cs") (simp_all add: map_update Cons.prems list_update_same_conv list_update_beyond)
  with Cons show ?case by simp
qed simp

lemma frame_adjust: "same_frame ch (channelizer_adjust_center m ch offset)"
  by (simp add: same_frame_def channelizer_adjust_center_def band_frame_def)

lemma recenter_frame [simp]:
  "band_frame (recenter_band m shift centroid rate bd) = band_frame bd" "chan_frame (recenter_channel m shift rate cs) = chan_frame cs"
  by (simp_all add: band_frame_def recenter_band_def chan_frame_def recenter_channel_def)

lemma frame_finalize_band: "b < length (bands ch) \<Longrightarrow> same_frame ch (finalize_band m b ch)"
  by (simp add: same_frame_def finalize_band_def Let_def map_update map_foldl_update list_update_same_conv)

lemma frame_finalize: "same_frame ch (channelizer_finalize m ch)"
proof -
  have "same_frame ch (fold (finalize_band m) bs ch0)" if "\<forall>b \<in> set bs. b < length (bands ch0)" "same_frame ch ch0" for bs ch0
    using that
  proof (induction bs arbitrary: ch0)
    case (Cons b bs)
    have f: "same_frame ch0 (finalize_band m b ch0)" using Cons.prems by (intro frame_finalize_band) simp
    then have "length (bands (finalize_band m b ch0)) = length (bands ch0)" unfolding same_frame_def by (metis length_map)
    then show ?case using Cons.IH [OF _ same_frame_trans [OF Cons.prems(2) f]] Cons.prems(1) by simp
  qed simp
  then show ?thesis by (simp add: channelizer_finalize_def)
qed

subsection \<open>Adding a channel\<close>

lemma layout_append: "layout_ok xss n \<Longrightarrow> layout_ok (xss @ [[n]]) (Suc n)"
  by (auto simp: layout_ok_def less_Suc_eq)

lemma layout_insert: "layout_ok xss n \<Longrightarrow> b < length xss \<Longrightarrow> layout_ok (xss[b := xss ! b @ [n]]) (Suc n)"
proof -
  assume l: "layout_ok xss n" "b < length xss"
  have x: "xss = take b xss @ xss ! b # drop (Suc b) xss" by (rule id_take_nth_drop [OF l(2)])
  have u: "xss[b := xss ! b @ [n]] = take b xss @ (xss ! b @ [n]) # drop (Suc b) xss" by (rule upd_conv_take_nth_drop [OF l(2)])
  from l(1) have "layout_ok (take b xss @ xss ! b # drop (Suc b) xss) n" using x by simp
  then show ?thesis unfolding u layout_ok_def by (auto simp: less_Suc_eq)
qed

lemma find_band_range: "find_band P bds k = Some b \<Longrightarrow> k \<le> b \<and> b < k + length bds \<and> P (bds ! (b - k))"
proof (induction bds arbitrary: k)
  case (Cons bd bds)
  show ?case
  proof (cases "P bd")
    case False
    then show ?thesis using Cons.IH [of "k + 1"] Cons.prems by (auto simp: nth_Cons')
  qed (use Cons.prems in simp)
qed simp

lemma stage1_range:
  assumes "1 \<le> rate" and "rate \<le> 20000000" and "stage1_decim rate type = (s1, s2)"
  shows "1 \<le> s1" and "s1 \<le> 100" and "1 \<le> s2"
proof -
  define total_decim where "total_decim = max 1 (nat (trunc (ddiv rate (target_output_rate type))))"
  define limit where "limit = max 1 (nat (trunc (ddiv rate (target_intermediate_rate type))))"
  have s: "s1 = largest_factor_leq total_decim limit" "s2 = max 1 (total_decim div s1)"
    using assms(3) by (auto simp: stage1_decim_def total_decim_def limit_def Let_def)
  have t: "1 \<le> total_decim" "1 \<le> limit" by (simp_all add: total_decim_def limit_def)
  show "1 \<le> s2" by (simp add: s(2))
  have "s1 dvd total_decim" using largest_factor(1) [OF t] by (simp add: s(1))
  then show "1 \<le> s1" using t(1) by (cases s1) auto
  have i: "200000 \<le> target_intermediate_rate type" by (cases type) simp_all
  have q: "0 \<le> rate / target_intermediate_rate type" "rate / target_intermediate_rate type \<le> 100"
    using i assms(1,2) by (simp_all add: divide_le_eq)
  have "ddiv rate (target_intermediate_rate type) \<le> 100 + 1 / 1000" using round64_near(2) [OF q(1)] q(2) by simp
  moreover have "0 \<le> ddiv rate (target_intermediate_rate type)" by (rule round64_nonneg [OF q(1)])
  ultimately have "trunc (ddiv rate (target_intermediate_rate type)) \<le> 100" by (simp add: trunc_def floor_le_iff)
  then have "limit \<le> 100" by (simp add: limit_def)
  then show "s1 \<le> 100" using largest_factor(2) [OF t] by (simp add: s(1))
qed

lemma built_add_band:
  assumes "built m ch" and "find_or_create_band m ch freq type (length (chans ch)) s1 = (Some b, ch1)" and "1 \<le> s1" and "s1 \<le> 100"
  shows "b < length (bands ch1)" and "chans ch1 = chans ch" and "samp_rate ch1 = samp_rate ch"
    and "layout_ok (map channel_indices (bands ch1)) (Suc (length (chans ch)))" and "\<forall>bd \<in> set (bands ch1). band_built m (samp_rate ch) bd"
    and "length (chans ch) \<in> set (channel_indices (bands ch1 ! b))"
    and "\<And>k. k < length (bands ch) \<Longrightarrow> k < length (bands ch1) \<and> intermediate_rate (bands ch1 ! k) = intermediate_rate (bands ch ! k) \<and>
      set (channel_indices (bands ch ! k)) \<subseteq> set (channel_indices (bands ch1 ! k))"
proof -
  let ?n = "length (chans ch)" and ?P = "band_fits freq (modulation_family type) (ddiv (samp_rate ch) (of_nat s1))"
  note a = assms(1) [unfolded built_def]
  consider (old) "find_band ?P (bands ch) 0 = Some b" "ch1 = ch\<lparr>bands := (bands ch)[b := join_band ?n (bands ch ! b)]\<rparr>"
    | (new) bd where "b = length (bands ch)" "ch1 = ch\<lparr>bands := bands ch @ [join_band ?n bd]\<rparr>" "band_built m (samp_rate ch) bd" "channel_indices bd = []"
  proof (cases "find_band ?P (bands ch) 0")
    case (Some b')
    then show ?thesis using assms(2) that(1) by (auto simp: find_or_create_band_def Let_def)
  next
    case None
    let ?bd = "(init_band m freq (samp_rate ch) s1)\<lparr>family := modulation_family type, band_nco := new_nco m (dsub freq (center_freq ch)) (samp_rate ch)\<rparr>"
    have "band_built m (samp_rate ch) ?bd" using assms(3,4)
      by (auto simp: band_built_def init_band_def Let_def max_def intro!: exI [of _ s1])
    moreover have "channel_indices ?bd = []" by (simp add: init_band_def Let_def)
    ultimately show ?thesis using None assms(2) that(2) [of ?bd] by (auto simp: find_or_create_band_def Let_def split: if_splits)
  qed
  note cases = this
  have j: "band_built m r (join_band k bd) = band_built m r bd" "channel_indices (join_band k bd) = channel_indices bd @ [k]"
    "intermediate_rate (join_band k bd) = intermediate_rate bd" for r k bd
    by (simp_all add: band_built_def join_band_def)
  show "b < length (bands ch1)" using cases find_band_range [of ?P "bands ch" 0 b] by cases auto
  show "chans ch1 = chans ch" "samp_rate ch1 = samp_rate ch" using cases by (cases; simp)+
  show "layout_ok (map channel_indices (bands ch1)) (Suc ?n)" using cases
  proof cases
    case old
    have "b < length (bands ch)" using find_band_range [OF old(1)] by simp
    then show ?thesis using layout_insert [of "map channel_indices (bands ch)" ?n b] a by (simp add: old(2) map_update j)
  next
    case new
    then show ?thesis using layout_append [of "map channel_indices (bands ch)" ?n] a by (simp add: j)
  qed
  show "\<forall>bd \<in> set (bands ch1). band_built m (samp_rate ch) bd" using cases
  proof cases
    case old
    have "b < length (bands ch)" using find_band_range [OF old(1)] by simp
    then show ?thesis using a set_update_subset_insert [of "bands ch" b] by (fastforce simp: old(2) j)
  qed (use a in \<open>auto simp: j\<close>)
  show "?n \<in> set (channel_indices (bands ch1 ! b))" using cases find_band_range [of ?P "bands ch" 0 b] by cases (auto simp: j)
  fix k
  assume k: "k < length (bands ch)"
  show "k < length (bands ch1) \<and> intermediate_rate (bands ch1 ! k) = intermediate_rate (bands ch ! k) \<and>
      set (channel_indices (bands ch ! k)) \<subseteq> set (channel_indices (bands ch1 ! k))"
    using cases k find_band_range [of ?P "bands ch" 0 b] by cases (auto simp: j nth_append nth_list_update)
qed

lemma built_add:
  assumes "built m ch"
  shows "built m (snd (channelizer_add_channel m ch freq type cid))"
    and "ids_distinct ch \<Longrightarrow> cid \<notin> chan_id ` set (chans ch) \<Longrightarrow> ids_distinct (snd (channelizer_add_channel m ch freq type cid))"
    and "chan_id ` set (chans (snd (channelizer_add_channel m ch freq type cid))) \<subseteq> insert cid (chan_id ` set (chans ch))"
    and "samp_rate (snd (channelizer_add_channel m ch freq type cid)) = samp_rate ch"
proof -
  obtain s1 s2 where s: "stage1_decim (samp_rate ch) type = (s1, s2)" by fastforce
  note r = stage1_range [OF _ _ s]
  have sr: "1 \<le> s1" "s1 \<le> 100" using r assms by (simp_all add: built_def)
  let ?ch = "snd (channelizer_add_channel m ch freq type cid)"
  have "built m ?ch \<and> (ids_distinct ch \<longrightarrow> cid \<notin> chan_id ` set (chans ch) \<longrightarrow> ids_distinct ?ch) \<and>
      chan_id ` set (chans ?ch) \<subseteq> insert cid (chan_id ` set (chans ch)) \<and> samp_rate ?ch = samp_rate ch"
  proof (cases "MAX_CHANNELS \<le> length (chans ch)")
    case True
    then show ?thesis using assms by (auto simp: channelizer_add_channel_def)
  next
    case False
    obtain ob ch1 where f: "find_or_create_band m ch freq type (length (chans ch)) s1 = (ob, ch1)" by fastforce
    show ?thesis
    proof (cases ob)
      case None
      then have "ch1 = ch" using f by (auto simp: find_or_create_band_def Let_def split: option.splits if_splits)
      then show ?thesis using assms False f None by (auto simp: channelizer_add_channel_def s)
    next
      case (Some b)
      let ?new = "new_channel m cid type b (bands ch1 ! b) freq s2"
      note g = built_add_band [OF assms f [unfolded Some] sr]
      have e: "?ch = ch1\<lparr>chans := chans ch @ [?new]\<rparr>"
        using False f Some g(2) by (simp add: channelizer_add_channel_def s)
      have n: "band_idx ?new = b" "chan_id ?new = cid" "channel_built m (bands ch1 ! b) ?new"
        by (auto simp: new_channel_def Let_def channel_built_def)
      have "band_idx (chans ?ch ! c) < length (bands ?ch) \<and> c \<in> set (channel_indices (band_of ?ch c)) \<and>
          channel_built m (band_of ?ch c) (chans ?ch ! c)" if c: "c < length (chans ?ch)" for c
      proof (cases "c < length (chans ch)")
        case True
        with assms have h: "band_idx (chans ch ! c) < length (bands ch)" "c \<in> set (channel_indices (band_of ch c))"
          "channel_built m (band_of ch c) (chans ch ! c)" by (simp_all add: built_def)
        from g(7) [OF h(1)] h True show ?thesis by (auto simp: e band_of_def nth_append channel_built_def)
      next
        case False
        then have "c = length (chans ch)" using c by (simp add: e)
        then show ?thesis using n g(1,6) by (simp add: e band_of_def)
      qed
      then have "built m ?ch" using g(3,4,5) assms unfolding built_def by (simp add: e)
      then show ?thesis using g(3) n(2) by (auto simp: e ids_distinct_def)
    qed
  qed
  then show "built m ?ch" "ids_distinct ch \<Longrightarrow> cid \<notin> chan_id ` set (chans ch) \<Longrightarrow> ids_distinct ?ch"
    "chan_id ` set (chans ?ch) \<subseteq> insert cid (chan_id ` set (chans ch))" "samp_rate ?ch = samp_rate ch" by blast+
qed

end
