(* ===== verification/FloatFacts.thy ===== *)
theory FloatFacts
  imports Float64
begin

text \<open>
  Order facts on the rounding of the \<open>float\<close> and \<open>double\<close> arithmetic: both roundings are monotone and keep the
  numbers that they can represent, so that a bound by such a number survives every operation.
\<close>

lemma exponent_above:
  assumes "0 < a"
  shows "a < pow2 (exponent32 a + 1)"
proof -
  obtain p q where pq: "quotient_of a = (p, q)" by fastforce
  have q: "0 < q" by (rule quotient_of_denom_pos [OF pq])
  have a: "a = of_int p / of_int q" by (rule quotient_of_div [OF pq])
  then have p: "0 < p" using assms q by (simp add: zero_less_divide_iff)
  let ?n = "bitlen p - bitlen q"
  have "of_int q \<ge> (2 :: rat) ^ nat (bitlen q - 1)"
    using bitlen_bounds [OF q] by (metis of_int_le_iff of_int_numeral of_int_power)
  moreover have "of_int p < (2 :: rat) ^ nat (bitlen p)"
    using bitlen_bounds [OF p] by (metis of_int_less_iff of_int_numeral of_int_power)
  moreover have "0 < bitlen q" "0 \<le> bitlen p"
  proof -
    have "0 \<le> log 2 (real_of_int q)" using q by simp
    then have f: "0 \<le> \<lfloor>log 2 (real_of_int q)\<rfloor>" by simp
    have "bitlen q = 1 + \<lfloor>log 2 (real_of_int q)\<rfloor>" using q f by (simp add: bitlen_def floorlog_def)
    with f show "0 < bitlen q" by linarith
    show "0 \<le> bitlen p" by (rule bitlen_nonneg)
  qed
  ultimately have b: "pow2 (bitlen q - 1) \<le> of_int q" "of_int p < pow2 (bitlen p)" by (simp_all add: pow2_def)
  have "pow2 (bitlen p) = pow2 (?n + 1) * pow2 (bitlen q - 1)" by (simp add: pow2_add [symmetric])
  also have "\<dots> \<le> pow2 (?n + 1) * of_int q" using b(1) pow2_pos [of "?n + 1"] by (simp add: less_imp_le)
  finally have "of_int p < pow2 (?n + 1) * of_int q" using b(2) by simp
  then have "a < pow2 (?n + 1)" using q by (simp add: a field_simps)
  then show ?thesis by (simp add: exponent32_def pq Let_def)
qed

lemma round_even_of_int [simp]: "round_even (of_int z) = z"
  by (simp add: round_even_def)

lemma round_even_mono:
  assumes "x \<le> y"
  shows "round_even x \<le> round_even y"
proof (cases "\<lfloor>x\<rfloor> = \<lfloor>y\<rfloor>")
  case True
  then show ?thesis using assms by (auto simp: round_even_def Let_def)
next
  case False
  then have "\<lfloor>x\<rfloor> + 1 \<le> \<lfloor>y\<rfloor>" using floor_mono [OF assms] by linarith
  moreover have "round_even x \<le> \<lfloor>x\<rfloor> + 1" "\<lfloor>y\<rfloor> \<le> round_even y" by (simp_all add: round_even_def Let_def)
  ultimately show ?thesis by linarith
qed

text \<open>Both formats at once: rounding to \<open>p + 1\<close> bits with the exponents from \<open>e\<close>.\<close>

definition rounded :: "int \<Rightarrow> int \<Rightarrow> rat \<Rightarrow> rat" where
  "rounded p e x =
     (if x = 0 then 0
      else let a = \<bar>x\<bar>; k = max (exponent32 a - p) e; m = of_int (round_even (a / pow2 k)) * pow2 k
           in if x < 0 then - m else m)"

lemma round32_rounded: "round32 = rounded 23 (- 149)"
  by (rule ext) (simp add: round32_def rounded_def)

lemma round64_rounded: "round64 = rounded 52 (- 1074)"
  by (rule ext) (simp add: round64_def rounded_def)

lemma rounded_minus: "rounded p e (- x) = - rounded p e x"
  by (simp add: rounded_def Let_def)

lemma rounded_pos: "0 < x \<Longrightarrow> rounded p e x = of_int (round_even (x / pow2 (max (exponent32 x - p) e))) * pow2 (max (exponent32 x - p) e)"
  by (simp add: rounded_def Let_def)

lemma pow2_split: "a \<le> b \<Longrightarrow> pow2 b = of_int (2 ^ nat (b - a)) * pow2 a"
proof -
  assume "a \<le> b"
  then have "pow2 b = pow2 (b - a) * pow2 a" by (simp add: pow2_add [symmetric])
  then show ?thesis using \<open>a \<le> b\<close> by (simp add: pow2_def [of "b - a"])
qed

text \<open>Rounding keeps the side of every multiple of the unit.\<close>

lemma rounded_at_most:
  assumes "0 < x" and "x \<le> of_int z * pow2 (max (exponent32 x - p) e)"
  shows "rounded p e x \<le> of_int z * pow2 (max (exponent32 x - p) e)"
proof -
  let ?k = "max (exponent32 x - p) e"
  have "x / pow2 ?k \<le> of_int z" using assms(2) pow2_pos [of ?k] by (simp add: divide_le_eq)
  then have "round_even (x / pow2 ?k) \<le> z" using round_even_mono by fastforce
  then show ?thesis using pow2_pos [of ?k] by (simp add: rounded_pos [OF assms(1)])
qed

lemma rounded_at_least:
  assumes "0 < x" and "of_int z * pow2 (max (exponent32 x - p) e) \<le> x"
  shows "of_int z * pow2 (max (exponent32 x - p) e) \<le> rounded p e x"
proof -
  let ?k = "max (exponent32 x - p) e"
  have "of_int z \<le> x / pow2 ?k" using assms(2) pow2_pos [of ?k] by (simp add: le_divide_eq)
  then have "z \<le> round_even (x / pow2 ?k)" using round_even_mono by fastforce
  then show ?thesis using pow2_pos [of ?k] by (simp add: rounded_pos [OF assms(1)])
qed

lemma rounded_mono_pos:
  assumes "0 < x" and "x \<le> y" and "0 \<le> p"
  shows "rounded p e x \<le> rounded p e y"
proof -
  let ?kx = "max (exponent32 x - p) e" and ?ky = "max (exponent32 y - p) e"
  have y: "0 < y" using assms by simp
  have "pow2 (exponent32 x) < pow2 (exponent32 y + 1)"
    using exponent_below [OF assms(1)] exponent_above [OF y] assms(2) by linarith
  then have le: "exponent32 x \<le> exponent32 y" using pow2_less by fastforce
  show ?thesis
  proof (cases "?kx = ?ky")
    case True
    have "round_even (x / pow2 ?kx) \<le> round_even (y / pow2 ?kx)"
      using assms(2) pow2_pos [of ?kx] by (intro round_even_mono divide_right_mono) simp_all
    then show ?thesis using True pow2_pos [of ?kx] by (simp add: rounded_pos assms(1) y)
  next
    case False
    then have k: "?ky = exponent32 y - p" "exponent32 x + 1 \<le> exponent32 y" "?kx \<le> exponent32 y" using le assms(3) by auto
    have "x \<le> pow2 (exponent32 y)"
      using exponent_above [OF assms(1)] pow2_mono [OF k(2)] by linarith
    then have "rounded p e x \<le> pow2 (exponent32 y)"
      using rounded_at_most [OF assms(1), of "2 ^ nat (exponent32 y - ?kx)" p e] pow2_split [OF k(3)] by simp
    also have "pow2 (exponent32 y) \<le> rounded p e y"
      using rounded_at_least [OF y, of "2 ^ nat p" p e] exponent_below [OF y] pow2_split [of ?ky "exponent32 y"] assms(3) k(1) by simp
    finally show ?thesis .
  qed
qed

lemma rounded_zero [simp]: "rounded p e 0 = 0"
  by (simp add: rounded_def)

lemma rounded_nonneg: "0 \<le> x \<Longrightarrow> 0 \<le> rounded p e x"
  using round_even_nonneg pow2_pos by (auto simp: rounded_def Let_def less_imp_le)

lemma rounded_mono:
  assumes "x \<le> y" and "0 \<le> p"
  shows "rounded p e x \<le> rounded p e y"
proof -
  consider "0 < x" | "x \<le> 0" "0 \<le> y" | "y < 0" by linarith
  then show ?thesis
  proof cases
    case 1
    then show ?thesis using rounded_mono_pos assms by blast
  next
    case 2
    then show ?thesis using rounded_nonneg [of "- x" p e] rounded_nonneg [of y p e] rounded_minus [of p e x] by simp
  next
    case 3
    then show ?thesis using rounded_mono_pos [of "- y" "- x" p e] assms by (simp add: rounded_minus)
  qed
qed

lemma round32_mono: "x \<le> y \<Longrightarrow> round32 x \<le> round32 y"
  by (simp add: round32_rounded rounded_mono)

lemma round64_mono: "x \<le> y \<Longrightarrow> round64 x \<le> round64 y"
  by (simp add: round64_rounded rounded_mono)

lemma round32_minus: "round32 (- x) = - round32 x"
  by (simp add: round32_rounded rounded_minus)

lemma round32_between: "a \<le> x \<Longrightarrow> x \<le> b \<Longrightarrow> round32 a = a \<Longrightarrow> round32 b = b \<Longrightarrow> a \<le> round32 x \<and> round32 x \<le> b"
  using round32_mono by metis

lemma round64_between: "a \<le> x \<Longrightarrow> x \<le> b \<Longrightarrow> round64 a = a \<Longrightarrow> round64 b = b \<Longrightarrow> a \<le> round64 x \<and> round64 x \<le> b"
  using round64_mono by metis

text \<open>Rounding is idempotent.\<close>

lemma exponent_unique: "pow2 n \<le> a \<Longrightarrow> a < pow2 (n + 1) \<Longrightarrow> exponent32 a = n"
proof -
  assume n: "pow2 n \<le> a" "a < pow2 (n + 1)"
  then have "0 < a" using pow2_pos [of n] by linarith
  then have "pow2 n < pow2 (exponent32 a + 1)" "pow2 (exponent32 a) < pow2 (n + 1)"
    using exponent_below [of a] exponent_above [of a] n by linarith+
  from this [THEN pow2_less] show ?thesis by linarith
qed

lemma rounded_of_unit:
  assumes "0 < x" and "x = of_int z * pow2 k" and "max (exponent32 x - p) e \<le> k"
  shows "rounded p e x = x"
proof -
  let ?k = "max (exponent32 x - p) e"
  have x: "x = of_int (z * 2 ^ nat (k - ?k)) * pow2 ?k" using assms(2) pow2_split [OF assms(3)] by (simp add: mult.assoc)
  show ?thesis using rounded_at_most [OF assms(1) x [THEN eq_refl]] rounded_at_least [OF assms(1) x [symmetric, THEN eq_refl]] x by linarith
qed

lemma rounded_idem:
  assumes "0 \<le> p"
  shows "rounded p e (rounded p e x) = rounded p e x"
proof -
  have pos: "rounded p e (rounded p e x) = rounded p e x" if "0 < x" for x
  proof -
    let ?k = "max (exponent32 x - p) e" and ?y = "rounded p e x"
    have y: "?y = of_int (round_even (x / pow2 ?k)) * pow2 ?k" by (rule rounded_pos [OF that])
    show ?thesis
    proof (cases "?y = 0")
      case False
      then have "0 < ?y" using rounded_nonneg [of x p e] that by simp
      have "x \<le> pow2 (?k + p + 1)"
        using exponent_above [OF that] pow2_mono [of "exponent32 x + 1" "?k + p + 1"] by linarith
      then have "?y \<le> pow2 (?k + p + 1)"
        using rounded_at_most [OF that, of "2 ^ nat (p + 1)" p e] pow2_split [of ?k "?k + p + 1"] assms by (simp add: add.assoc)
      show ?thesis
      proof (cases "?y = pow2 (?k + p + 1)")
        case True
        have e: "exponent32 ?y = ?k + p + 1"
          unfolding True by (rule exponent_unique) (use pow2_split [of "?k + p + 1" "?k + p + 1 + 1"] pow2_pos [of "?k + p + 1"] in auto)
        show ?thesis
          by (rule rounded_of_unit [OF \<open>0 < ?y\<close>, of "2 ^ nat p" "?k + 1"]) (use True pow2_split [of "?k + 1" "?k + p + 1"] e assms in auto)
      next
        case False
        then have "pow2 (exponent32 ?y) < pow2 (?k + p + 1)" using \<open>?y \<le> _\<close> exponent_below [OF \<open>0 < ?y\<close>] by linarith
        then have "exponent32 ?y \<le> ?k + p" using pow2_less by fastforce
        then show ?thesis by (intro rounded_of_unit [OF \<open>0 < ?y\<close> y]) auto
      qed
    qed simp
  qed
  consider "0 < x" | "x = 0" | "0 < - x" by linarith
  then show ?thesis using pos [of x] pos [of "- x"] by cases (simp_all add: rounded_minus)
qed

lemma round32_idem [simp]: "round32 (round32 x) = round32 x"
  by (simp add: round32_rounded rounded_idem)

lemma round64_idem [simp]: "round64 (round64 x) = round64 x"
  by (simp add: round64_rounded rounded_idem)


text \<open>The error relative to the value.\<close>

lemma rounded_relative:
  assumes "pow2 (e + p) \<le> x"
  shows "\<bar>rounded p e x - x\<bar> \<le> x * pow2 (- p - 1)"
proof -
  have x: "0 < x" using assms pow2_pos [of "e + p"] by linarith
  let ?k = "max (exponent32 x - p) e"
  have "pow2 (e + p) < pow2 (exponent32 x + 1)" using exponent_above [OF x] assms by linarith
  then have "e + p < exponent32 x + 1" by (rule pow2_less)
  then have k: "?k = exponent32 x - p" by simp
  have "rounded p e x - x = (of_int (round_even (x / pow2 ?k)) - x / pow2 ?k) * pow2 ?k"
    using pow2_pos [of ?k] by (simp add: rounded_pos [OF x] field_simps)
  then have "\<bar>rounded p e x - x\<bar> = \<bar>of_int (round_even (x / pow2 ?k)) - x / pow2 ?k\<bar> * pow2 ?k"
    using pow2_pos [of ?k] by (simp add: abs_mult)
  also have "\<dots> \<le> 1 / 2 * pow2 ?k" by (rule mult_right_mono [OF round_even_error]) (use pow2_pos in \<open>simp add: less_imp_le\<close>)
  also have "\<dots> = pow2 (exponent32 x) * pow2 (- p - 1)"
    using pow2_add [of "- 1" "exponent32 x - p"] by (simp add: k pow2_add [symmetric] pow2_def [of "- 1"] algebra_simps)
  also have "\<dots> \<le> x * pow2 (- p - 1)" by (rule mult_right_mono [OF exponent_below [OF x]]) (use pow2_pos in \<open>simp add: less_imp_le\<close>)
  finally show ?thesis .
qed

lemma round64_relative:
  assumes "1 / 2 ^ 60 \<le> x"
  shows "x * (1 - 1 / 10 ^ 12) \<le> round64 x" and "round64 x \<le> x * (1 + 1 / 10 ^ 12)"
proof -
  have "pow2 (- 1074 + 52) \<le> pow2 (- 60)" by (rule pow2_mono) simp
  also have "pow2 (- 60) \<le> x" using assms by (simp add: pow2_def)
  finally have "\<bar>round64 x - x\<bar> \<le> x * pow2 (- 52 - 1)" unfolding round64_rounded by (rule rounded_relative)
  also have "\<dots> \<le> x * (1 / 10 ^ 12)" using assms by (intro mult_left_mono) (simp_all add: pow2_def)
  finally show "x * (1 - 1 / 10 ^ 12) \<le> round64 x" "round64 x \<le> x * (1 + 1 / 10 ^ 12)"
    unfolding abs_le_iff by (simp_all add: algebra_simps)
qed

lemma round32_relative:
  assumes "1 / 2 ^ 60 \<le> x"
  shows "x * (1 - 1 / 10 ^ 6) \<le> round32 x" and "round32 x \<le> x * (1 + 1 / 10 ^ 6)"
proof -
  have "pow2 (- 149 + 23) \<le> pow2 (- 60)" by (rule pow2_mono) simp
  also have "pow2 (- 60) \<le> x" using assms by (simp add: pow2_def)
  finally have "\<bar>round32 x - x\<bar> \<le> x * pow2 (- 23 - 1)" unfolding round32_rounded by (rule rounded_relative)
  also have "\<dots> \<le> x * (1 / 10 ^ 6)" using assms by (intro mult_left_mono) (simp_all add: pow2_def)
  finally show "x * (1 - 1 / 10 ^ 6) \<le> round32 x" "round32 x \<le> x * (1 + 1 / 10 ^ 6)"
    unfolding abs_le_iff by (simp_all add: algebra_simps)
qed


lemma round32_abs: "\<bar>x\<bar> \<le> b \<Longrightarrow> round32 b = b \<Longrightarrow> \<bar>round32 x\<bar> \<le> b"
  using round32_between [of "- b" x b] by (simp add: abs_le_iff round32_minus)

lemma round64_minus_eq: "round64 (- x) = - round64 x"
  by (simp add: round64_rounded rounded_minus)

lemma round64_abs: "\<bar>x\<bar> \<le> b \<Longrightarrow> round64 b = b \<Longrightarrow> \<bar>round64 x\<bar> \<le> b"
  using round64_between [of "- b" x b] by (simp add: abs_le_iff round64_minus_eq)

lemma round64_close:
  assumes "\<bar>x\<bar> \<le> 40000"
  shows "\<bar>round64 x - x\<bar> \<le> 1 / 10000000"
proof -
  have pos: "\<bar>round64 x - x\<bar> \<le> 1 / 10000000" if "0 \<le> x" "x \<le> 40000" for x
  proof (cases "1 / 2 ^ 60 \<le> x")
    case True
    from round64_relative [OF this] that(2) show ?thesis unfolding abs_le_iff by (simp add: algebra_simps)
  next
    case False
    have "round64 x \<le> round64 (1 / 2 ^ 60)" using False by (intro round64_mono) simp
    also have "round64 (1 / 2 ^ 60) = 1 / 2 ^ 60" by code_simp
    finally show ?thesis using that(1) round64_nonneg [OF that(1)] False unfolding abs_le_iff by simp
  qed
  show ?thesis using pos [of x] pos [of "- x"] assms unfolding round64_minus_eq abs_le_iff by (cases "0 \<le> x") auto
qed

end
