(* ===== verification/SdrPlanFacts.thy ===== *)
theory SdrPlanFacts
  imports SdrPlan ChannelizerBuilt FloatFacts
begin

text \<open>
  The choice of the centre and the rate in \<open>main.c\<close> covers the channels of a satellite, and the channelizer set up
  from it delivers every sample.
\<close>

section \<open>Exact arithmetic\<close>

text \<open>Quarters of integers below \<open>2^51\<close> are \<open>double\<close>s: sums, differences and halves of frequencies are exact.\<close>

lemma round64_pos_quarter:
  assumes "0 < n" and "n < 2 ^ 53"
  shows "round64 (of_int n / 4) = of_int n / 4"
proof -
  let ?a = "of_int n / 4 :: rat"
  have a: "0 < ?a" using assms(1) by simp
  define k where "k = max (exponent32 ?a - 52) (- 1074)"
  have "?a < pow2 51" using assms(2) by (simp add: pow2_def)
  then have "exponent32 ?a < 51" by (intro pow2_less) (rule order.strict_trans1 [OF exponent_below [OF a]])
  then have k: "k \<le> - 2" by (simp add: k_def)
  have "pow2 (- k) = pow2 (- k - 2) * 4" using pow2_add [of "- k - 2" 2] by (simp add: pow2_def [of 2])
  moreover have "pow2 k * pow2 (- k) = 1" using pow2_add [of k "- k"] by simp
  ultimately have p: "1 = pow2 k * (pow2 (- k - 2) * 4)" by simp
  have "?a / pow2 k = of_int n * pow2 (- k - 2)"
  proof -
    have "?a / pow2 k = ?a * (pow2 k * (pow2 (- k - 2) * 4)) / pow2 k" by (subst p [symmetric]) simp
    also have "\<dots> = of_int n * pow2 (- k - 2)" using pow2_pos [of k] by simp
    finally show ?thesis .
  qed
  also have "\<dots> = of_int (n * 2 ^ nat (- k - 2))" using k by (simp add: pow2_def)
  finally have q: "?a / pow2 k = of_int (n * 2 ^ nat (- k - 2))" .
  have "round64 ?a = of_int (round_even (?a / pow2 k)) * pow2 k" using a by (simp add: round64_def Let_def k_def)
  also have "\<dots> = ?a / pow2 k * pow2 k" by (simp only: q round_even_of_int)
  also have "\<dots> = ?a" using pow2_pos [of k] by simp
  finally show ?thesis .
qed

lemma round64_quarter: "4 * x \<in> \<int> \<Longrightarrow> \<bar>x\<bar> < 1000000000000 \<Longrightarrow> round64 x = x"
proof -
  assume "4 * x \<in> \<int>" and b: "\<bar>x\<bar> < 1000000000000"
  then obtain n where n: "4 * x = of_int n" by (elim Ints_cases)
  then have x: "x = of_int n / 4" by simp
  have "\<bar>of_int n\<bar> < (4000000000000 :: rat)" using b n by linarith
  then have "\<bar>n\<bar> < 4000000000000" by (metis of_int_abs of_int_less_iff of_int_numeral)
  then have n': "\<bar>n\<bar> < 2 ^ 53" by simp
  consider "n = 0" | "0 < n" | "n < 0" by linarith
  then show "round64 x = x"
  proof cases
    case 3
    then show ?thesis using round64_pos_quarter [of "- n"] n' round64_minus [of "of_int (- n) / 4"] by (simp add: x)
  qed (use round64_pos_quarter [of n] n' in \<open>simp_all add: x\<close>)
qed

section \<open>Edges\<close>

lemma Min_insert_min: "finite F \<Longrightarrow> Min (insert (min a b) F) = Min (insert b (insert a F))"
  and Max_insert_max: "finite F \<Longrightarrow> Max (insert (max a b) F) = Max (insert b (insert a (F :: rat set)))"
  by (cases "F = {}"; simp add: ac_simps)+

lemma band_edges_Min_Max:
  "band_edges P cds = (let F = frequency ` {cd \<in> set cds. P cd} in (Min (insert 1000000000000 F), Max (insert 0 F)))"
proof -
  have "foldl (\<lambda>e cd. if P cd then widen (frequency cd) e else e) (lo, hi) cds =
      (Min (insert lo (frequency ` {cd \<in> set cds. P cd})), Max (insert hi (frequency ` {cd \<in> set cds. P cd})))" for lo hi
  proof (induction cds arbitrary: lo hi)
    case (Cons c cds)
    let ?F = "frequency ` {cd \<in> set cds. P cd}"
    show ?case
    proof (cases "P c")
      case True
      have F: "frequency ` {cd \<in> set (c # cds). P cd} = insert (frequency c) ?F" using True by auto
      have "finite ?F" by simp
      note Min_insert_min [OF this, of "frequency c" lo] Max_insert_max [OF this, of "frequency c" hi]
      moreover have "widen (frequency c) (lo, hi) = (min (frequency c) lo, max (frequency c) hi)" by (auto simp: widen_def min_def max_def)
      ultimately show ?thesis by (simp only: foldl_Cons True if_True Cons.IH F)
    next
      case False
      then have "frequency ` {cd \<in> set (c # cds). P cd} = ?F" by auto
      then show ?thesis using False Cons.IH by simp
    qed
  qed simp
  then show ?thesis by (simp add: band_edges_def Let_def)
qed

lemma band_edges_bounds:
  "cd \<in> set cds \<Longrightarrow> P cd \<Longrightarrow> fst (band_edges P cds) \<le> frequency cd \<and> frequency cd \<le> snd (band_edges P cds)"
  by (auto simp: band_edges_Min_Max Let_def intro: Min_le Max_ge)

lemma band_edges_range:
  assumes "\<And>cd. cd \<in> set cds \<Longrightarrow> frequency cd \<in> \<int> \<and> fmin \<le> frequency cd \<and> frequency cd \<le> fmax"
    and "fst (band_edges P cds) \<le> snd (band_edges P cds)" and "0 < fmin" and "fmax < 1000000000000"
  shows "fst (band_edges P cds) \<in> \<int> \<and> snd (band_edges P cds) \<in> \<int> \<and> fmin \<le> fst (band_edges P cds) \<and> snd (band_edges P cds) \<le> fmax"
proof -
  let ?F = "frequency ` {cd \<in> set cds. P cd}"
  have e: "fst (band_edges P cds) = Min (insert 1000000000000 ?F)" "snd (band_edges P cds) = Max (insert 0 ?F)"
    by (simp_all add: band_edges_Min_Max Let_def)
  have ne: "?F \<noteq> {}"
  proof
    assume "?F = {}"
    then have "fst (band_edges P cds) = 1000000000000" "snd (band_edges P cds) = 0" unfolding e \<open>?F = {}\<close> by simp_all
    then show False using assms(2) by simp
  qed
  then obtain f where f: "f \<in> ?F" by blast
  have F: "g \<in> \<int> \<and> fmin \<le> g \<and> g \<le> fmax" if "g \<in> ?F" for g using that assms(1) by auto
  have "Min (insert 1000000000000 ?F) \<le> f" "f \<le> Max (insert 0 ?F)" using f by (auto intro: Min_le Max_ge)
  then have "Min (insert 1000000000000 ?F) \<noteq> 1000000000000" "Max (insert 0 ?F) \<noteq> 0" using F [OF f] assms(3,4) by auto
  moreover have "Min (insert 1000000000000 ?F) \<in> insert 1000000000000 ?F" "Max (insert 0 ?F) \<in> insert 0 ?F" by (intro Min_in Max_in; simp)+
  ultimately show ?thesis unfolding e using F by blast
qed

section \<open>The satellites of the table\<close>

definition table_numbers :: "satellite \<Rightarrow> bool" where
  "table_numbers sat \<longleftrightarrow> (\<forall>cd \<in> set (channels sat). frequency cd \<in> \<int>) \<and> freq_min sat \<in> \<int> \<and> freq_max sat \<in> \<int> \<and>
     1525000000 \<le> freq_min sat \<and> freq_min sat \<le> freq_max sat \<and> freq_max sat \<le> 1559000000 \<and> freq_max sat - freq_min sat \<le> 10000000 \<and>
     (\<forall>p \<in> {preferred_rate_rtl sat, preferred_rate_sdrplay sat, preferred_rate_hackrf sat}. p \<in> \<int> \<and> 0 \<le> p \<and> p \<le> 6000000)"

lemma satellites_numbers: "sat \<in> set satellites \<Longrightarrow> table_numbers sat"
  by (auto simp: satellites_def table_numbers_def tables channel_def)

lemma wanted_edges_range:
  assumes "sat \<in> set satellites" and "wanted_edges s sat = (lo, hi)"
  shows "lo \<in> \<int>" and "hi \<in> \<int>" and "1525000000 \<le> lo" and "lo \<le> hi" and "hi \<le> 1559000000" and "hi - lo \<le> 10000000"
    and "cd \<in> set (channels sat) \<Longrightarrow> wanted s cd \<Longrightarrow> lo \<le> frequency cd \<and> frequency cd \<le> hi"
proof -
  note n = satellites_numbers [OF assms(1), unfolded table_numbers_def] and t = tables_ok [OF assms(1), unfolded table_ok_def]
  let ?e = "band_edges (wanted s) (channels sat)"
  have r: "lo \<in> \<int> \<and> hi \<in> \<int> \<and> freq_min sat \<le> lo \<and> lo \<le> hi \<and> hi \<le> freq_max sat \<and>
      (\<forall>cd \<in> set (channels sat). wanted s cd \<longrightarrow> lo \<le> frequency cd \<and> frequency cd \<le> hi)"
  proof (cases "snd ?e < fst ?e")
    case True
    then have "lo = freq_min sat" "hi = freq_max sat" using assms(2) by (auto simp: wanted_edges_def Let_def split_beta)
    moreover have "\<not> wanted s cd" if "cd \<in> set (channels sat)" for cd
      using band_edges_bounds [OF that, of "wanted s"] True by auto
    ultimately show ?thesis using n by auto
  next
    case False
    then have e: "lo = fst ?e" "hi = snd ?e" using assms(2) by (auto simp: wanted_edges_def Let_def split_beta)
    have "lo \<in> \<int> \<and> hi \<in> \<int> \<and> freq_min sat \<le> lo \<and> hi \<le> freq_max sat"
      unfolding e using False n t by (intro band_edges_range) auto
    then show ?thesis using False band_edges_bounds [of _ "channels sat" "wanted s"] by (auto simp: e)
  qed
  then show "lo \<in> \<int>" "hi \<in> \<int>" "1525000000 \<le> lo" "lo \<le> hi" "hi \<le> 1559000000" "hi - lo \<le> 10000000" using n by auto
  show "cd \<in> set (channels sat) \<Longrightarrow> wanted s cd \<Longrightarrow> lo \<le> frequency cd \<and> frequency cd \<le> hi" using r by blast
qed

section \<open>The rate covers the channels\<close>

lemma c12_bounds: "119 / 100 \<le> c12" "c12 \<le> 12 / 10 + 1 / 1000"
  by code_simp+

lemma auto_rate_covers:
  assumes "sat \<in> set satellites" and "width \<in> \<int>" and "0 \<le> width" and "width \<le> 10000000"
  shows "width / 2 \<le> ddiv (auto_rate r sat width) 2" and "1 \<le> auto_rate r sat width" and "auto_rate r sat width \<le> 20000000"
proof -
  note n = satellites_numbers [OF assms(1), unfolded table_numbers_def]
  define preferred where "preferred = (if hackrf r then preferred_rate_hackrf sat else if sdrplay r then preferred_rate_sdrplay sat
    else if rtl r then preferred_rate_rtl sat else 0)"
  define min_rate :: rat where "min_rate = (if rtl r then 1536000 else if sdrplay r then 3072000 else if hackrf r then 6000000 else 2400000)"
  define wide where "wide = dmul width c12"
  have p: "preferred \<in> \<int>" "0 \<le> preferred" "preferred \<le> 6000000" using n by (auto simp: preferred_def)
  have w0: "0 \<le> width * c12" using assms(3) c12_bounds by simp
  have w1: "width * c12 \<le> width * (12 / 10 + 1 / 1000)" by (rule mult_left_mono [OF c12_bounds(2) assms(3)])
  then have "width * c12 < 33554432" using assms(4) by simp
  note near = round64_near [OF w0 this]
  have wide_le: "wide \<le> 12100000" using near(2) w1 assms(4) unfolding wide_def by simp
  have w2: "width * (119 / 100) \<le> width * c12" by (rule mult_left_mono [OF c12_bounds(1) assms(3)])
  have half: "x / 2 = ddiv x 2" if "x \<in> \<int>" "0 \<le> x" "x \<le> 20000000" for x :: rat
    using that round64_quarter [of "x / 2"] by simp
  consider (p) "0 < preferred" "width \<le> preferred" "auto_rate r sat width = preferred"
    | (m) "auto_rate r sat width = min_rate" "wide < min_rate"
    | (w) "auto_rate r sat width = wide" "min_rate \<le> wide"
    | (c) "auto_rate r sat width = 10000000"
  proof (cases "sdrplay r \<and> 10000000 < (if 0 < preferred \<and> width \<le> preferred then preferred else if wide < min_rate then min_rate else wide)")
    case True
    then show ?thesis using that(4)
      by (auto simp: auto_rate_def Let_def preferred_def [symmetric] min_rate_def [symmetric] wide_def [symmetric] split: if_splits)
  next
    case False
    then have "auto_rate r sat width = (if 0 < preferred \<and> width \<le> preferred then preferred else if wide < min_rate then min_rate else wide)"
      unfolding auto_rate_def Let_def preferred_def [symmetric] min_rate_def [symmetric] wide_def [symmetric] by (simp only: if_False)
    then show ?thesis using that(1-3) by (cases "0 < preferred \<and> width \<le> preferred"; cases "wide < min_rate") auto
  qed
  then have "width / 2 \<le> ddiv (auto_rate r sat width) 2 \<and> 1 \<le> auto_rate r sat width \<and> auto_rate r sat width \<le> 20000000"
  proof cases
    case p': p
    have "1 \<le> preferred" using p(1) p'(1) by (metis Ints_cases of_int_0_less_iff of_int_1_le_iff int_one_le_iff_zero_less)
    then show ?thesis using p' p half [OF p(1)] by (simp flip: half [OF p(1)])
  next
    case m
    have mr: "min_rate \<in> \<int>" "1536000 \<le> min_rate" "min_rate \<le> 6000000" by (auto simp: min_rate_def)
    have "width \<le> min_rate"
    proof -
      have "width * (119 / 100) \<le> wide + 1 / 1000" using near(1) w2 unfolding wide_def by linarith
      then show ?thesis using m(2) mr(2) by (cases "1 \<le> width") linarith+
    qed
    then show ?thesis using m mr half [OF mr(1)] by (simp flip: half [OF mr(1)])
  next
    case w
    have mr: "1536000 \<le> min_rate" by (auto simp: min_rate_def)
    have h: "0 \<le> wide / 2" "wide / 2 < 33554432" using w mr wide_le by simp_all
    have "width * (119 / 100) \<le> wide + 1 / 1000" using near(1) w2 unfolding wide_def by linarith
    moreover have "1536000 \<le> width * (12 / 10 + 1 / 1000) + 1 / 1000" using w mr near(2) w1 unfolding wide_def by linarith
    ultimately show ?thesis using round64_near(1) [OF h] w mr wide_le by simp
  next
    case c
    then show ?thesis using assms(4) half [of 10000000] by simp
  qed
  then show "width / 2 \<le> ddiv (auto_rate r sat width) 2" "1 \<le> auto_rate r sat width" "auto_rate r sat width \<le> 20000000" by simp_all
qed

lemma for_satellite_auto:
  assumes "sat \<in> set satellites" and "rate s0 = 0" and "center s0 = 0"
  shows "cd \<in> set (channels sat) \<Longrightarrow> wanted (for_satellite r sat s0) cd \<Longrightarrow> in_reach (for_satellite r sat s0) cd"
    and "1 \<le> rate (for_satellite r sat s0)" and "rate (for_satellite r sat s0) \<le> 20000000" and "center (for_satellite r sat s0) \<noteq> 0"
proof -
  define s1 where "s1 = (if auto_skip_c r s0 sat then s0\<lparr>skip_c_channel := True\<rparr> else s0)"
  obtain lo hi where e: "wanted_edges s1 sat = (lo, hi)" by fastforce
  note w = wanted_edges_range [OF assms(1) e]
  have s: "for_satellite r sat s0 = s1\<lparr>center := (lo + hi) / 2, rate := auto_rate r sat (hi - lo)\<rparr>"
  proof -
    have "dadd lo hi = lo + hi" "dsub hi lo = hi - lo" using w by (auto intro!: round64_quarter)
    have "4 * ((lo + hi) / 2) = 2 * (lo + hi)" by simp
    moreover have "2 * (lo + hi) \<in> \<int>" using w(1,2) by (intro Ints_mult Ints_add) simp_all
    ultimately have "4 * ((lo + hi) / 2) \<in> \<int>" by (simp only:)
    then have "ddiv (lo + hi) 2 = (lo + hi) / 2" using w by (intro round64_quarter) auto
    note this \<open>dadd lo hi = lo + hi\<close> \<open>dsub hi lo = hi - lo\<close>
    moreover have "center s1 = 0" "rate s1 = 0" using assms(2,3) by (simp_all add: s1_def)
    ultimately show ?thesis by (simp add: for_satellite_def Let_def s1_def [symmetric] e)
  qed
  have a: "hi - lo \<in> \<int>" "0 \<le> hi - lo" using w by simp_all
  note ar = auto_rate_covers [OF assms(1) a w(6), of r]
  show "1 \<le> rate (for_satellite r sat s0)" "rate (for_satellite r sat s0) \<le> 20000000" using ar by (simp_all add: s)
  show "center (for_satellite r sat s0) \<noteq> 0" using w(3,4) by (simp add: s)
  assume cd: "cd \<in> set (channels sat)" "wanted (for_satellite r sat s0) cd"
  then have "wanted s1 cd" by (simp add: s wanted_def)
  from w(7) [OF cd(1) this] have f: "lo \<le> frequency cd" "frequency cd \<le> hi" by simp_all
  have fi: "frequency cd \<in> \<int>" using satellites_numbers [OF assms(1)] cd(1) by (simp add: table_numbers_def)
  have "4 * (frequency cd - (lo + hi) / 2) = 4 * frequency cd - 2 * (lo + hi)" by (simp add: field_simps)
  moreover have "4 * frequency cd - 2 * (lo + hi) \<in> \<int>" using w(1,2) fi by (intro Ints_diff Ints_mult Ints_add) simp_all
  ultimately have "4 * (frequency cd - (lo + hi) / 2) \<in> \<int>" by (simp only:)
  have b: "\<bar>frequency cd - (lo + hi) / 2\<bar> \<le> (hi - lo) / 2" using f by (simp add: abs_le_iff field_simps)
  have "(hi - lo) / 2 < 1000000000000" using w(6) by simp
  with b have "\<bar>frequency cd - (lo + hi) / 2\<bar> < 1000000000000" by (rule order.strict_trans1)
  from round64_quarter [OF \<open>4 * (frequency cd - (lo + hi) / 2) \<in> \<int>\<close> this]
  have "dsub (frequency cd) ((lo + hi) / 2) = frequency cd - (lo + hi) / 2" .
  moreover note b
  ultimately show "in_reach (for_satellite r sat s0) cd" using ar(1) by (simp add: s in_reach_def)
qed

lemma auto_mode_fields [simp]:
  "rate (auto_mode sat s) = rate s" "center (auto_mode sat s) = center s" "in_reach (auto_mode sat s) cd = in_reach s cd"
  by (simp_all add: auto_mode_def Let_def in_reach_def)

lemma auto_mode_wanted: "wanted (auto_mode sat s) cd \<Longrightarrow> wanted s cd"
  by (auto simp: auto_mode_def Let_def wanted_def split: if_splits)

lemma plan_radio_auto:
  assumes "sat \<in> set satellites" and "rate s0 = 0" and "center s0 = 0"
  shows "plan_radio r (Some sat) s0 = auto_mode sat (for_satellite r sat s0)"
proof -
  have "rate (for_satellite r sat s0) \<noteq> 0" using for_satellite_auto(2) [OF assms, of r] by auto
  then show ?thesis using for_satellite_auto(4) [OF assms, of r] by (simp add: plan_radio_def Let_def)
qed

section \<open>The set-up\<close>

lemma disjoint_after_insert: "A \<subseteq> insert x B \<Longrightarrow> x \<notin> C \<Longrightarrow> B \<inter> insert x C = {} \<Longrightarrow> A \<inter> C = {}"
  by blast

lemma add_satellite_channels_built:
  "built m ch \<Longrightarrow> ids_distinct ch \<Longrightarrow> distinct (map channel_id cds) \<Longrightarrow> chan_id ` set (chans ch) \<inter> channel_id ` set cds = {} \<Longrightarrow>
    built m (add_satellite_channels m s cds ch) \<and> ids_distinct (add_satellite_channels m s cds ch)"
proof (induction cds arbitrary: ch)
  case (Cons cd cds)
  let ?ch = "if in_reach s cd \<and> wanted s cd then snd (channelizer_add_channel m ch (frequency cd) (ch_type cd) (channel_id cd)) else ch"
  note b = built_add [OF Cons.prems(1), where freq = "frequency cd" and type = "ch_type cd" and cid = "channel_id cd"]
  have "built m ?ch" "ids_distinct ?ch" using b(1,2) Cons.prems by auto
  moreover have "chan_id ` set (chans ?ch) \<subseteq> insert (channel_id cd) (chan_id ` set (chans ch))" using b(3) by auto
  then have "chan_id ` set (chans ?ch) \<inter> channel_id ` set cds = {}" 
  proof -
    assume "chan_id ` set (chans ?ch) \<subseteq> insert (channel_id cd) (chan_id ` set (chans ch))"
    moreover have "channel_id cd \<notin> channel_id ` set cds" "channel_id ` set (cd # cds) = insert (channel_id cd) (channel_id ` set cds)"
      using Cons.prems(3) by auto
    moreover note Cons.prems(4)
    ultimately show ?thesis by (metis disjoint_after_insert)
  qed
  ultimately show ?case using Cons.IH [of ?ch] Cons.prems(3) by (simp add: add_satellite_channels_def)
qed (simp add: add_satellite_channels_def)

lemma setup_ok:
  assumes "sat \<in> set satellites" and "1 \<le> rate s" and "rate s \<le> 20000000"
  shows "built m (setup_channelizer m r s sat)" and "ids_distinct (setup_channelizer m r s sat)"
proof -
  let ?ch0 = "channelizer_create (center s) (rate s)" and ?ch1 = "add_satellite_channels m s (channels sat) (channelizer_create (center s) (rate s))"
  have "ids_distinct ?ch0" "chans ?ch0 = []" by (simp_all add: ids_distinct_def channelizer_create_def)
  then have a: "built m ?ch1" "ids_distinct ?ch1"
    using add_satellite_channels_built [OF built_create [OF assms(2,3)], of "center s" "channels sat" m s] tables_ok [OF assms(1)]
    by (simp_all add: table_ok_def)
  note f = frame_built [OF frame_finalize a(1), of m]
  then show "built m (setup_channelizer m r s sat)" "ids_distinct (setup_channelizer m r s sat)"
    using frame_built [OF frame_adjust f(1)] a(2) by (simp_all add: setup_channelizer_def Let_def)
qed

section \<open>The processing loop\<close>

fun buf_samples :: "sample_buf \<Rightarrow> cf list" where
  "buf_samples (SAMPLE_FMT_INT8 iq) = convert_i8_cf iq"
| "buf_samples (SAMPLE_FMT_FLOAT xs) = xs"

fun buf_ok :: "sample_buf \<Rightarrow> bool" where
  "buf_ok (SAMPLE_FMT_INT8 iq) = even (length iq)"
| "buf_ok (SAMPLE_FMT_FLOAT xs) = True"

lemma consume_delivers:
  "chz_ok ch \<Longrightarrow> ids_distinct ch \<Longrightarrow> buf_ok b \<Longrightarrow> delivers m ch (buf_samples b) (consume m ch b)"
  by (cases b) (simp_all add: consume_def process_delivers process_i8_delivers)

lemma consume_all_delivers:
  "chz_ok ch \<Longrightarrow> ids_distinct ch \<Longrightarrow> list_all buf_ok bs \<Longrightarrow> delivers m ch (concat (map buf_samples bs)) (consume_all m ch bs)"
proof (induction bs arbitrary: ch)
  case (Cons b bs)
  obtain ch1 es where p: "consume m ch b = (ch1, es)" by fastforce
  obtain ch2 fs where q: "consume_all m ch1 bs = (ch2, fs)" by fastforce
  have d: "delivers m ch (buf_samples b) (ch1, es)" using consume_delivers [of ch b m] Cons.prems by (simp add: p)
  from delivers_ok [OF this] have "delivers m ch1 (concat (map buf_samples bs)) (ch2, fs)"
    using Cons.IH [of ch1] Cons.prems(3) by (simp add: q)
  from delivers_append [OF d this] show ?case by (simp add: p q)
qed (simp add: delivers_Nil)

lemma built_fresh:
  assumes "built m ch" and "c < length (chans ch)"
  shows "out_buf (chans ch ! c) = []" and "cas_phase (chan_stages (chans ch ! c)) = 0" and "cas_phase (band_stages (band_of ch c)) = 0"
proof -
  have z: "cas_phase (map (new_stage m) ds) = 0" for ds by (induction ds) (simp_all add: new_stage_def)
  from assms have i: "band_idx (chans ch ! c) < length (bands ch)" and b: "channel_built m (band_of ch c) (chans ch ! c)"
    by (simp_all add: built_def)
  then have "band_built m (samp_rate ch) (band_of ch c)" using assms(1) by (simp add: built_def band_of_def)
  with b z show "out_buf (chans ch ! c) = []" "cas_phase (chan_stages (chans ch ! c)) = 0" "cas_phase (band_stages (band_of ch c)) = 0"
    by (auto simp: channel_built_def band_built_def)
qed

section \<open>Evaluation of plans\<close>

lemma divisor_loop_num: "divisor_loop r (numeral k) =
   (if numeral k < (2 :: nat) then 2 else if r mod numeral k = 0 then numeral k else divisor_loop r (pred_numeral k))"
  by (simp add: numeral_eq_Suc)

lemma plan_loop_num: "plan_loop (numeral k) mps n =
   (if n \<le> 1 then ([], n)
    else if n \<le> mps then (let (ds, r) = plan_loop (pred_numeral k) mps 1 in (n # ds, r))
    else (let best = divisor_loop n mps; (ds, r) = plan_loop (pred_numeral k) mps (n div best) in (best # ds, r)))"
  by (simp add: numeral_eq_Suc)

lemmas plan_eval = divisor_loop_num plan_loop_num largest_factor_leq_def factor_loop.simps plan_decimation_def MAX_STAGES_def

section \<open>Properties\<close>

definition no_settings :: "op_mode \<Rightarrow> settings" where
  "no_settings md = \<lparr>rate = 0, center = 0, mode = md, skip_c_channel = False, ppm_correction = 0\<rparr>"

definition no_radio :: radio where "no_radio = \<lparr>rtl = False, sdrplay = False, hackrf = False\<rparr>"

definition at_4f3 :: "op_mode \<Rightarrow> settings" where
  "at_4f3 md = \<lparr>rate = 2400000, center = 1537000000, mode = md, skip_c_channel = False, ppm_correction = 0\<rparr>"

lemma length_chans_add: "length (chans ch) \<le> length (chans (snd (channelizer_add_channel m ch f t k)))"
  by (simp add: channelizer_add_channel_def find_or_create_band_def Let_def split_beta split: option.split)

lemma length_chans_adds: "length (chans ch) \<le> length (chans (add_satellite_channels m s cds ch))"
proof (induction cds arbitrary: ch)
  case (Cons cd cds)
  have "length (chans ch) \<le> length (chans (add_satellite_channels m s [cd] ch))" by (simp add: add_satellite_channels_def length_chans_add)
  also have "\<dots> \<le> length (chans (add_satellite_channels m s cds (add_satellite_channels m s [cd] ch)))" by (rule Cons.IH)
  finally show ?case by (simp add: add_satellite_channels_def)
qed (simp add: add_satellite_channels_def)

lemma setup_channelizer_first:
  assumes "channels sat \<noteq> []" and "in_reach s (channels sat ! 0)" and "wanted s (channels sat ! 0)"
  shows "0 < length (chans (setup_channelizer m r s sat))"
proof -
  obtain cd cds where c: "channels sat = cd # cds" using assms(1) by (cases "channels sat") auto
  let ?ch0 = "channelizer_create (center s) (rate s)"
  let ?ch1 = "snd (channelizer_add_channel m ?ch0 (frequency cd) (ch_type cd) (channel_id cd))"
  have "0 < length (chans ?ch1)"
    by (simp add: channelizer_add_channel_def find_or_create_band_def channelizer_create_def MAX_CHANNELS_def MAX_BANDS_def Let_def split_beta)
  also have "\<dots> \<le> length (chans (add_satellite_channels m s cds ?ch1))" by (rule length_chans_adds)
  also have "add_satellite_channels m s cds ?ch1 = add_satellite_channels m s (channels sat) ?ch0"
    using assms(2,3) by (simp add: c add_satellite_channels_def)
  finally show ?thesis using frame_finalize [of "add_satellite_channels m s (channels sat) ?ch0" m]
    by (auto simp: setup_channelizer_def Let_def same_frame_def channelizer_adjust_center_def dest: map_eq_nth)
qed

lemma round_samples: "round32 (1 / 128) = 1 / 128" "round32 (1 / 64) = 1 / 64"
  by code_simp+

lemma in_satellites: "k < 4 \<Longrightarrow> satellites ! k \<in> set satellites"
proof -
  have "length satellites = 4" by (simp add: satellites_def)
  then show "k < 4 \<Longrightarrow> satellites ! k \<in> set satellites" by (metis nth_mem)
qed





text \<open>
  C38: the automatic rate can make the channelizer wrong.  For the satellite 3F5 in full mode, with an SDRplay and
  no other options, the rate is 5.544 MS/s; the OQPSK channels then get a band decimation of 23, but the stages
  planned for it decimate by 22, so the samples of the band come at another rate than the one that the channel mixers and
  the demodulators are told.
\<close>

theorem auto_rate_misdecimates:
  "let s = plan_radio (no_radio\<lparr>sdrplay := True\<rparr>) (Some (satellites ! 1)) (no_settings MODE_FULL);
       bd = init_band m 1546000000 (rate s) (fst (stage1_decim (rate s) CHAN_AERO_10500))
   in rate s = 5544000 \<and> fst (stage1_decim (rate s) CHAN_AERO_10500) = 23 \<and>
      intermediate_rate bd = ddiv 5544000 23 \<and> cas_period (band_stages bd) = 22"
proof -
  define s where "s = plan_radio (no_radio\<lparr>sdrplay := True\<rparr>) (Some (satellites ! 1)) (no_settings MODE_FULL)"
  have r: "rate s = 5544000" unfolding s_def by code_simp
  have t: "trunc (ddiv 5544000 48000) = 115" "trunc (ddiv 5544000 200000) = 27" by code_simp+
  have "largest_factor_leq 115 27 = 23" by (simp add: plan_eval)
  then have d: "fst (stage1_decim 5544000 CHAN_AERO_10500) = 23"
    by (simp only: stage1_decim_def Let_def target_output_rate.simps target_intermediate_rate.simps t) simp
  have "plan_decimation 23 16 MAX_STAGES = [2, 11]" by (simp add: plan_eval)
  then show ?thesis unfolding s_def [symmetric] by (simp add: Let_def r d init_band_def max_def)
qed

end
