(* ===== verification/BpskDemod.thy ===== *)
theory BpskDemod
  imports Channelizer
begin

text \<open>
  \<open>demod_bpsk.c\<close>: the coherent BPSK demodulator for STD-C.  Mixer, coarse acquisition by a Fourier transform of the
  squared signal, matched filter, gain control, frequency loop, symbol timing and phase loop.  \<open>double\<close> and \<open>float\<close>
  are rationals with a rounding after every operation; the two loops that need not end for every input are partial
  functions.  Memory allocation is taken to succeed and the callback to be set.
\<close>

section \<open>Constants\<close>

text \<open>The further functions of the C library that are used.\<close>

record bpsk_libm = libm +
  sqrt_d :: "rat \<Rightarrow> rat"
  sqrt_f :: "rat \<Rightarrow> rat"
  carg_f :: "cf \<Rightarrow> rat"
  cexp_f :: "cf \<Rightarrow> cf"

definition SOFT_BIT_BUF :: nat where "SOFT_BIT_BUF = 512"
definition RRC_ALPHA :: rat where "RRC_ALPHA = round64 (6 / 10)"
definition RRC_SPAN :: rat where "RRC_SPAN = 4"
definition AGC_RATE :: rat where "AGC_RATE = round64 (16 / 1000)"
definition FLL_AVG :: rat where "FLL_AVG = round64 (8 / 100)"
definition FLL_GAIN :: rat where "FLL_GAIN = round64 (16 / 10000)"
definition FLL_MAX_HZ :: rat where "FLL_MAX_HZ = 3000"
definition ACQ_N :: nat where "ACQ_N = 8192"
definition ACQ_AVG :: nat where "ACQ_AVG = 4"
definition ACQ_SNR :: rat where "ACQ_SNR = 8"
definition ACQ_MIN_HZ :: rat where "ACQ_MIN_HZ = 150"
definition TIMING_BW :: rat where "TIMING_BW = round64 (1 / 100)"
definition COSTAS_BW :: rat where "COSTAS_BW = round64 (3 / 100)"
definition SOFT_SCALE :: rat where "SOFT_SCALE = round32 (7 / 10)"

text \<open>\<open>(float)M_PI\<close> and twice it.\<close>

definition pi_f :: rat where "pi_f = 13176795 / 4194304"
definition two_pi_f :: rat where "two_pi_f = 13176795 / 2097152"

section \<open>State\<close>

record bpsk_demod =
  sps :: rat
  nco_phase :: rat
  nco_hz :: rat \<comment> \<open>\<open>nco_freq\<close>\<close>
  nco_max :: rat
  fll_acc :: cf
  prev_sq :: cf
  acq_buf :: "cf list" \<comment> \<open>the first \<open>acq_n\<close> entries\<close>
  acq_pwr :: "rat list"
  acq_blocks :: nat
  acq_locked :: bool
  acq_min :: rat
  taps :: "rat list"
  ntaps :: nat
  hist :: "cf list"
  hpos :: nat
  agc_pwr :: rat
  agc_rate :: rat
  fll_avg :: rat
  fll_gain :: rat
  prev_filt :: cf
  mid_sym :: cf
  prev_sym :: cf
  t_next :: rat
  rate_adj :: rat
  tim_alpha :: rat
  tim_beta :: rat
  mid_strobe :: bool
  cphase :: rat
  cfreq :: rat
  c_alpha :: rat
  c_beta :: rat
  sym_mag :: rat
  soft_bits :: "rat list" \<comment> \<open>the first \<open>num_soft_bits\<close> entries\<close>

section \<open>Arithmetic\<close>

definition csub :: "cf \<Rightarrow> cf \<Rightarrow> cf" where
  "csub x y = (round32 (fst x - fst y), round32 (snd x - snd y))"

definition conj_f :: "cf \<Rightarrow> cf" where
  "conj_f x = (fst x, - snd x)"

definition cpower :: "cf \<Rightarrow> rat" where
  "cpower x = round32 (round32 (fst x * fst x) + round32 (snd x * snd x))"

text \<open>The rotation by minus a phase.\<close>

definition unrotate :: "bpsk_libm \<Rightarrow> cf \<Rightarrow> rat \<Rightarrow> cf" where
  "unrotate m x phase = cmul x (cexp_f m (0, - phase))"

definition clamp :: "rat \<Rightarrow> rat \<Rightarrow> rat" where
  "clamp limit v = (let v1 = (if limit < v then limit else v) in if v1 < - limit then - limit else v1)"

section \<open>Set-up\<close>

definition loop_gains :: "rat \<Rightarrow> rat \<times> rat" where
  "loop_gains bw =
     (let zeta = round64 (707 / 1000);
          denom = dadd (dadd 1 (dmul (dmul 2 zeta) bw)) (dmul bw bw)
      in (ddiv (dmul (dmul 4 zeta) bw) denom, ddiv (dmul (dmul 4 bw) bw) denom))"

definition rrc :: "bpsk_libm \<Rightarrow> rat \<Rightarrow> rat \<Rightarrow> rat" where
  "rrc m t a =
     (if \<bar>t\<bar> < round64 (1 / 10 ^ 9) then dadd (dsub 1 a) (ddiv (dmul 4 a) M_PI)
      else if \<bar>dsub \<bar>t\<bar> (ddiv 1 (dmul 4 a))\<bar> < round64 (1 / 10 ^ 9)
      then dmul (ddiv a (sqrt_d m 2))
             (dadd (dmul (dadd 1 (ddiv 2 M_PI)) (sin_d m (ddiv M_PI (dmul 4 a))))
                   (dmul (dsub 1 (ddiv 2 M_PI)) (cos_d m (ddiv M_PI (dmul 4 a)))))
      else (let p = dmul M_PI t; q = dmul (dmul 4 a) t
            in ddiv (dadd (sin_d m (dmul p (dsub 1 a))) (dmul q (cos_d m (dmul p (dadd 1 a)))))
                 (dmul p (dsub 1 (dmul q q)))))"

definition rrc_taps :: "bpsk_libm \<Rightarrow> rat \<Rightarrow> nat \<Rightarrow> rat list" where
  "rrc_taps m sps0 half =
     (let vs = map (\<lambda>i. rrc m (ddiv (of_int (int i - int half)) sps0) RRC_ALPHA) [0..<2 * half + 1];
          energy = foldl (\<lambda>e v. dadd e (dmul v v)) 0 vs
      in map (\<lambda>v. round32 (round32 v / round32 (sqrt_d m energy))) vs)"

definition bpsk_demod_create :: "bpsk_libm \<Rightarrow> rat \<Rightarrow> rat \<Rightarrow> bpsk_demod" where
  "bpsk_demod_create m fs symbol_rate =
     (let sps0 = ddiv fs symbol_rate; half = nat \<lceil>dmul RRC_SPAN sps0\<rceil>; n = 2 * half + 1;
          (ta, tb) = loop_gains TIMING_BW; (ca, cb) = loop_gains COSTAS_BW
      in \<lparr>sps = sps0, nco_phase = 0, nco_hz = 0,
          nco_max = round32 (ddiv (dmul (dmul 2 M_PI) FLL_MAX_HZ) fs),
          fll_acc = (0, 0), prev_sq = (0, 0), acq_buf = [], acq_pwr = replicate ACQ_N 0, acq_blocks = 0, acq_locked = False,
          acq_min = round32 (ddiv (dmul (dmul 2 M_PI) ACQ_MIN_HZ) fs),
          taps = rrc_taps m sps0 half, ntaps = n, hist = replicate (2 * n) (0, 0), hpos = 0,
          agc_pwr = 0, agc_rate = round32 (ddiv AGC_RATE sps0), fll_avg = round32 (ddiv FLL_AVG sps0),
          fll_gain = round32 (ddiv FLL_GAIN sps0), prev_filt = (0, 0), mid_sym = (0, 0), prev_sym = (0, 0),
          t_next = ddiv sps0 2, rate_adj = 0, tim_alpha = dmul ta sps0, tim_beta = dmul tb sps0, mid_strobe = True,
          cphase = 0, cfreq = 0, c_alpha = round32 ca, c_beta = round32 cb, sym_mag = 1, soft_bits = []\<rparr>)"

section \<open>Fourier transform\<close>

text \<open>The loop that adds one to an index whose bits are in reverse order.\<close>

function carry_loop :: "nat \<Rightarrow> nat \<Rightarrow> nat" where
  "carry_loop j b = (if j AND b \<noteq> 0 then carry_loop (j XOR b) (b div 2) else j XOR b)"
  by pat_completeness auto

termination
proof (relation "measure snd")
  show "((j XOR b, b div 2), j, b) \<in> measure snd" if "j AND b \<noteq> 0" for j b :: nat
    using that by (cases "b = 0") auto
qed simp

declare carry_loop.simps [simp del]

function reorder_loop :: "nat \<Rightarrow> nat \<Rightarrow> nat \<Rightarrow> 'a list \<Rightarrow> 'a list" where
  "reorder_loop n i j x =
     (if i < n
      then (let j1 = carry_loop j (n div 2)
            in reorder_loop n (i + 1) j1 (if i < j1 then x[i := x ! j1, j1 := x ! i] else x))
      else x)"
  by pat_completeness auto

termination
  by (relation "measure (\<lambda>(n, i, j, x). n - i)") auto

declare reorder_loop.simps [simp del]

text \<open>One block of a stage, all blocks of a stage, and all stages.\<close>

function butterfly_loop :: "cf \<Rightarrow> nat \<Rightarrow> nat \<Rightarrow> nat \<Rightarrow> cf \<Rightarrow> cf list \<Rightarrow> cf list" where
  "butterfly_loop w half i k wk x =
     (if k < half
      then (let u = x ! (i + k); v = cmul (x ! (i + k + half)) wk
            in butterfly_loop w half i (k + 1) (cmul wk w) (x[i + k := cadd u v, i + k + half := csub u v]))
      else x)"
  by pat_completeness auto

termination
  by (relation "measure (\<lambda>(w, half, i, k, wk, x). half - k)") auto

declare butterfly_loop.simps [simp del]

text \<open>(The guards on \<open>len\<close> hold in the program, where it is at least 2.)\<close>

function block_loop :: "cf \<Rightarrow> nat \<Rightarrow> nat \<Rightarrow> nat \<Rightarrow> cf list \<Rightarrow> cf list" where
  "block_loop w len n i x =
     (if i < n \<and> 0 < len then block_loop w len n (i + len) (butterfly_loop w (len div 2) i 0 (1, 0) x) else x)"
  by pat_completeness auto

termination
  by (relation "measure (\<lambda>(w, len, n, i, x). n - i)") auto

declare block_loop.simps [simp del]

definition twiddle :: "bpsk_libm \<Rightarrow> nat \<Rightarrow> cf" where
  "twiddle m len = cexp_f m (0, round32 (- two_pi_f / of_nat len))"

function stage_loop :: "bpsk_libm \<Rightarrow> nat \<Rightarrow> nat \<Rightarrow> cf list \<Rightarrow> cf list" where
  "stage_loop m n len x =
     (if len \<le> n \<and> 0 < len then stage_loop m n (len * 2) (block_loop (twiddle m len) len n 0 x) else x)"
  by pat_completeness auto

termination
  by (relation "measure (\<lambda>(m, n, len, x). n + 1 - len)") auto

declare stage_loop.simps [simp del]

definition fft :: "bpsk_libm \<Rightarrow> nat \<Rightarrow> cf list \<Rightarrow> cf list" where
  "fft m n x = stage_loop m n 2 (reorder_loop n 1 0 x)"

section \<open>Coarse acquisition\<close>

text \<open>The loop that finds the first highest peak, with the sum of the spectrum.\<close>

fun peak_loop :: "rat list \<Rightarrow> nat \<Rightarrow> nat \<times> rat \<times> rat \<Rightarrow> nat \<times> rat \<times> rat" where
  "peak_loop [] k r = r"
| "peak_loop (p # ps) k (peak, peak_pwr, acc) =
     peak_loop ps (k + 1) (if peak_pwr < p then (k, p, round32 (acc + p)) else (peak, peak_pwr, round32 (acc + p)))"

definition coarse_acquire :: "bpsk_libm \<Rightarrow> bpsk_demod \<Rightarrow> bpsk_demod" where
  "coarse_acquire m d0 =
     (let d1 = d0\<lparr>acq_pwr := map2 (\<lambda>p x. round32 (p + cpower x)) (acq_pwr d0) (fft m ACQ_N (acq_buf d0)), acq_blocks := acq_blocks d0 + 1\<rparr>
      in if acq_blocks d1 < ACQ_AVG then d1
         else (let (peak, peak_pwr, acc) = peak_loop (acq_pwr d1) 0 (0, 0, 0);
                   d2 = d1\<lparr>acq_pwr := replicate ACQ_N 0, acq_blocks := 0\<rparr>
               in if peak_pwr < round32 (round32 (ACQ_SNR * acc) / of_nat ACQ_N) then d2
                  else (let k = (if ACQ_N div 2 < peak then int peak - int ACQ_N else int peak);
                            df = round32 (round32 (pi_f * of_int k) / of_nat ACQ_N); d3 = d2\<lparr>acq_locked := True\<rparr>
                        in if \<bar>df\<bar> < acq_min d3 then d3
                           else d3\<lparr>nco_hz := round32 (nco_hz d3 + df), fll_acc := (0, 0), cfreq := 0\<rparr>)))"

section \<open>Symbols\<close>

text \<open>The loops of \<open>wrap_phase\<close> do not end when a step is lost in the rounding.\<close>

partial_function (option) wrap_down :: "rat \<Rightarrow> rat option" where
  "wrap_down p = (if pi_f < p then wrap_down (round32 (p - two_pi_f)) else Some p)"

partial_function (option) wrap_up :: "rat \<Rightarrow> rat option" where
  "wrap_up p = (if p < - pi_f then wrap_up (round32 (p + two_pi_f)) else Some p)"

definition wrap_phase :: "rat \<Rightarrow> rat option" where
  "wrap_phase p = Option.bind (wrap_down p) wrap_up"

definition flush_bits :: "bpsk_demod \<Rightarrow> bpsk_demod \<times> rat list list" where
  "flush_bits d = (d\<lparr>soft_bits := []\<rparr>, if soft_bits d = [] then [] else [soft_bits d])"

definition store_bit :: "rat \<Rightarrow> bpsk_demod \<Rightarrow> bpsk_demod \<times> rat list list" where
  "store_bit b d =
     (let (d1, es) = (if SOFT_BIT_BUF \<le> length (soft_bits d) then flush_bits d else (d, []))
      in (d1\<lparr>soft_bits := soft_bits d1 @ [b]\<rparr>, es))"

text \<open>The timing error detector and its loop.\<close>

definition timing_update :: "cf \<Rightarrow> bpsk_demod \<Rightarrow> bpsk_demod" where
  "timing_update y d =
     (let e = clamp 1 (fst (cmul (csub (prev_sym d) y) (conj_f (mid_sym d))));
          max_adj = dmul (sps d) (round64 (5 / 1000))
      in d\<lparr>prev_sym := y, rate_adj := clamp max_adj (dadd (rate_adj d) (dmul (tim_beta d) e)),
           t_next := dadd (t_next d) (dmul (tim_alpha d) e)\<rparr>)"

text \<open>The phase loop, and the soft bit.\<close>

definition symbol_update :: "bpsk_libm \<Rightarrow> cf \<Rightarrow> bpsk_demod \<Rightarrow> (bpsk_demod \<times> rat) option" where
  "symbol_update m y d0 =
     (let d1 = timing_update y d0; s = unrotate m y (cphase d1); re = fst s;
          err = clamp 1 (if 0 < re then snd s else - snd s);
          freq1 = round32 (cfreq d1 + round32 (c_beta d1 * err));
          mag1 = round32 (sym_mag d1 + round32 (round32 (1 / 100) * round32 (\<bar>re\<bar> - sym_mag d1)))
      in case wrap_phase (round32 (round32 (cphase d1 + freq1) + round32 (c_alpha d1 * err))) of
           None \<Rightarrow> None
         | Some phase1 \<Rightarrow> Some (d1\<lparr>cfreq := freq1, cphase := phase1, sym_mag := mag1\<rparr>,
                               round32 (round32 (re / round32 (mag1 + round32 (1 / 10 ^ 12))) * SOFT_SCALE)))"

definition symbol_out :: "bpsk_libm \<Rightarrow> cf \<Rightarrow> bpsk_demod \<Rightarrow> (bpsk_demod \<times> rat list list) option" where
  "symbol_out m y d = (case symbol_update m y d of None \<Rightarrow> None | Some (d1, b) \<Rightarrow> Some (store_bit b d1))"

text \<open>The strobes within one sample; \<open>half\<close> is half of the current symbol length.\<close>

definition interpolate :: "cf \<Rightarrow> bpsk_demod \<Rightarrow> cf" where
  "interpolate f d = cadd (prev_filt d) (cscale (csub f (prev_filt d)) (round32 (dadd 1 (t_next d))))"

definition advance_strobe :: "bpsk_demod \<Rightarrow> bpsk_demod" where
  "advance_strobe d = d\<lparr>mid_strobe := \<not> mid_strobe d, t_next := dadd (t_next d) (ddiv (dadd (sps d) (rate_adj d)) 2)\<rparr>"

partial_function (option) strobe_loop ::
  "bpsk_libm \<Rightarrow> cf \<Rightarrow> bpsk_demod \<Rightarrow> rat list list \<Rightarrow> (bpsk_demod \<times> rat list list) option" where
  "strobe_loop m f d es =
     (if t_next d \<le> 0
      then (let y = interpolate f d; d1 = advance_strobe d
            in if mid_strobe d then strobe_loop m f (d1\<lparr>mid_sym := y\<rparr>) es
               else Option.bind (symbol_out m y d1) (\<lambda>(d2, fs). strobe_loop m f d2 (es @ fs)))
      else Some (d, es))"

section \<open>Samples\<close>

text \<open>The mixer with the coarse acquisition.\<close>

definition mixer_step :: "bpsk_libm \<Rightarrow> cf \<Rightarrow> bpsk_demod \<Rightarrow> (bpsk_demod \<times> cf) option" where
  "mixer_step m sample d0 =
     (case wrap_phase (round32 (nco_phase d0 + nco_hz d0)) of
        None \<Rightarrow> None
      | Some ph \<Rightarrow>
          (let x = unrotate m sample (nco_phase d0);
               d1 = d0\<lparr>nco_phase := ph, acq_buf := acq_buf d0 @ [cmul x x]\<rparr>
           in Some (if length (acq_buf d1) = ACQ_N then (coarse_acquire m d1)\<lparr>acq_buf := []\<rparr> else d1, x)))"

text \<open>The matched filter and the gain control.\<close>

definition filter_step :: "bpsk_libm \<Rightarrow> cf \<Rightarrow> bpsk_demod \<Rightarrow> bpsk_demod \<times> cf" where
  "filter_step m x d0 =
     (let d1 = d0\<lparr>hist := (hist d0)[hpos d0 := x, hpos d0 + ntaps d0 := x],
                   hpos := (if ntaps d0 \<le> hpos d0 + 1 then 0 else hpos d0 + 1)\<rparr>;
          f = fir_ccf (taps d1) (take (ntaps d1) (drop (hpos d1) (hist d1)));
          p = cpower f; c20 = round32 (1 / 10 ^ 20);
          pwr0 = (if agc_pwr d1 = 0 then round32 (p + c20) else agc_pwr d1);
          pwr1 = round32 (pwr0 + round32 (agc_rate d1 * round32 (p - pwr0)));
          s = sqrt_f m (round32 (pwr1 + c20))
      in (d1\<lparr>agc_pwr := pwr1\<rparr>, (round32 (fst f / s), round32 (snd f / s))))"

text \<open>The frequency loop.\<close>

definition fll_step :: "bpsk_libm \<Rightarrow> cf \<Rightarrow> bpsk_demod \<Rightarrow> bpsk_demod" where
  "fll_step m f d0 =
     (let sq = cmul f f;
          acc = cadd (fll_acc d0) (cscale (csub (cmul sq (conj_f (prev_sq d0))) (fll_acc d0)) (fll_avg d0));
          freq = (if acq_locked d0 then round32 (nco_hz d0 + round32 (round32 (fll_gain d0 * (1 / 2)) * carg_f m acc)) else nco_hz d0)
      in d0\<lparr>fll_acc := acc, prev_sq := sq, nco_hz := clamp (nco_max d0) freq\<rparr>)"

definition sample_step :: "bpsk_libm \<Rightarrow> cf \<Rightarrow> bpsk_demod \<Rightarrow> (bpsk_demod \<times> rat list list) option" where
  "sample_step m sample d0 =
     (case mixer_step m sample d0 of
        None \<Rightarrow> None
      | Some (d1, x) \<Rightarrow>
          (let (d2, f) = filter_step m x d1; d3 = fll_step m f d2
           in case strobe_loop m f (d3\<lparr>t_next := dsub (t_next d3) 1\<rparr>) [] of
                None \<Rightarrow> None
              | Some (d4, es) \<Rightarrow> Some (d4\<lparr>prev_filt := f\<rparr>, es)))"

fun samples_loop :: "bpsk_libm \<Rightarrow> cf list \<Rightarrow> bpsk_demod \<Rightarrow> (bpsk_demod \<times> rat list list) option" where
  "samples_loop m [] d = Some (d, [])"
| "samples_loop m (x # xs) d =
     (case sample_step m x d of
        None \<Rightarrow> None
      | Some (d1, es) \<Rightarrow> (case samples_loop m xs d1 of None \<Rightarrow> None | Some (d2, fs) \<Rightarrow> Some (d2, es @ fs)))"

text \<open>The result: the state and the lists of soft bits given to the callback.\<close>

definition bpsk_demod_process :: "bpsk_libm \<Rightarrow> cf list \<Rightarrow> bpsk_demod \<Rightarrow> (bpsk_demod \<times> rat list list) option" where
  "bpsk_demod_process m samples d0 =
     (case samples_loop m samples d0 of
        None \<Rightarrow> None
      | Some (d1, es) \<Rightarrow>
          if SOFT_BIT_BUF div 2 \<le> length (soft_bits d1) then (let (d2, fs) = flush_bits d1 in Some (d2, es @ fs)) else Some (d1, es))"

definition bpsk_demod_destroy :: "bpsk_demod \<Rightarrow> rat list list" where
  "bpsk_demod_destroy d = snd (flush_bits d)"

end
