(* ===== verification/Viterbi.thy ===== *)
theory Viterbi
  imports Prelude
begin

text \<open>
  The soft-decision Viterbi decoder and the convolutional encoder of \<open>viterbi.c\<close>: rate 1/2,
  constraint length 7, polynomials 109 and 79.  The trellis (encoder states, transitions and
  output symbols) is the interface \<open>trellis\<close>; its lemmas (which paths exist, what they cost,
  when the encoder's output determines its input) are proved once and used through the
  interpretation \<open>k7\<close> on the code's \<open>next_state\<close> and \<open>encode_sym\<close>.
\<close>

unbundle bit_operations_syntax

section \<open>The encoder\<close>

definition G1 :: u32 where "G1 = 0x6D"
definition G2 :: u32 where "G2 = 0x4F"

definition parity :: "u32 \<Rightarrow> nat" where
  "parity x0 =
     (let x1 = x0 XOR drop_bit 4 x0;
          x2 = x1 XOR drop_bit 2 x1;
          x3 = x2 XOR drop_bit 1 x2
      in unat (x3 AND 1))"

definition encode_sym :: "nat \<Rightarrow> bool \<Rightarrow> nat" where
  "encode_sym state b =
     (let reg = push_bit 6 (of_bool b) OR (of_nat state :: u32);
          g1 = parity (reg AND G1);
          g2 = parity (reg AND G2)
      in push_bit 1 g1 OR g2)"

text \<open>The shift of the encoder's register, \<open>(s >> 1) | (bit << (K - 2))\<close>.\<close>

definition next_state :: "nat \<Rightarrow> bool \<Rightarrow> nat" where
  "next_state s b = drop_bit 1 s OR push_bit 5 (of_bool b)"

text \<open>Bit \<open>i\<close> of a packed buffer, most significant bit first, and the packing of bits.\<close>

definition bit_at :: "u8 list \<Rightarrow> nat \<Rightarrow> bool" where
  "bit_at bits i = (drop_bit (7 - i mod 8) (bits ! (i div 8)) AND 1 \<noteq> 0)"

fun viterbi_encode_loop :: "u8 list \<Rightarrow> nat \<Rightarrow> nat \<Rightarrow> nat \<Rightarrow> nat list" where
  "viterbi_encode_loop bits i 0 state = []"
| "viterbi_encode_loop bits i (Suc n) state =
     (let b = bit_at bits i; sym = encode_sym state b
      in (drop_bit 1 sym AND 1) # (sym AND 1) #
         viterbi_encode_loop bits (Suc i) n (next_state state b))"

definition viterbi_encode :: "u8 list \<Rightarrow> nat \<Rightarrow> nat list" where
  "viterbi_encode bits num_bits = viterbi_encode_loop bits 0 num_bits 0"

section \<open>The decoder\<close>

record viterbi_t =
  path_metric :: "u32 list"
  path_history :: "u64 list list" \<comment> \<open>row \<open>t\<close>: the decisions of time step \<open>t\<close>, one per state\<close>
  traceback_len :: nat
  num_bits :: nat

definition viterbi_init :: "nat \<Rightarrow> viterbi_t" where
  "viterbi_init n =
     \<lparr>path_metric = map (\<lambda>i. if i = 0 then 0 else 0x7FFFFFFF) [0..<64],
      path_history = replicate (n + 7) (replicate 64 0),
      traceback_len = n + 7, num_bits = n\<rparr>"

definition branch_metric :: "i8 \<Rightarrow> i8 \<Rightarrow> nat \<Rightarrow> nat \<Rightarrow> u32" where
  "branch_metric soft_g1 soft_g2 exp_g1 exp_g2 =
     (let e1 = if exp_g1 \<noteq> 0 then 127 else - 127 :: int;
          e2 = if exp_g2 \<noteq> 0 then 127 else - 127 :: int;
          d1 = \<bar>sint soft_g1 - e1\<bar>; d2 = \<bar>sint soft_g2 - e2\<bar>
      in word_of_int (d1 + d2))"

text \<open>
  One add-compare-select: the transition of state \<open>s\<close> on input \<open>b\<close>, into the new metrics and
  the row of decisions.
\<close>

definition acs :: "i8 \<Rightarrow> i8 \<Rightarrow> u32 list \<Rightarrow> nat \<Rightarrow> bool \<Rightarrow>
    u32 list \<times> u64 list \<Rightarrow> u32 list \<times> u64 list" where
  "acs s0 s1 pm s b = (\<lambda>(new, row).
     let ns = next_state s b;
         expected = encode_sym s b;
         bm = branch_metric s0 s1 (drop_bit 1 expected AND 1) (expected AND 1);
         m = pm ! s + bm
     in if m < new ! ns
        then (new[ns := m], row[ns := push_bit 1 (of_nat s) OR of_bool b])
        else (new, row))"

definition viterbi_step :: "i8 list \<Rightarrow> nat \<Rightarrow> u32 list \<times> u64 list list \<Rightarrow> u32 list \<times> u64 list list" where
  "viterbi_step soft_syms t = (\<lambda>(pm, hist).
     let s0 = soft_syms ! (t * 2); s1 = soft_syms ! (t * 2 + 1);
         (new, row) = fold (\<lambda>s acc. if 0x7FFFFFFF \<le> pm ! s then acc
                                    else acs s0 s1 pm s True (acs s0 s1 pm s False acc))
                        [0..<64] (replicate 64 0xFFFFFFFF, hist ! t)
     in (new, hist[t := row]))"

text \<open>The best final state: the first one with the least metric.\<close>

definition best_state :: "u32 list \<Rightarrow> u32 \<times> nat" where
  "best_state pm =
     fold (\<lambda>s (m, b). if pm ! s < m then (pm ! s, s) else (m, b)) [0..<64] (0xFFFFFFFF, 0)"

fun traceback :: "u64 list list \<Rightarrow> nat \<Rightarrow> nat \<Rightarrow> bool list" where
  "traceback hist 0 state = []"
| "traceback hist (Suc t) state =
     (let entry = hist ! t ! state
      in traceback hist t (unat (drop_bit 1 entry)) @ [entry AND 1 \<noteq> 0])"

definition pack_byte :: "bool list \<Rightarrow> nat \<Rightarrow> u8" where
  "pack_byte bs k =
     fold (\<lambda>j acc. if 8 * k + j < length bs \<and> bs ! (8 * k + j) then acc OR drop_bit j 0x80 else acc)
       [0..<8] 0"

definition pack_bits :: "bool list \<Rightarrow> u8 list" where
  "pack_bits bs = map (pack_byte bs) [0..<(length bs + 7) div 8]"

definition viterbi_decode :: "viterbi_t \<Rightarrow> i8 list \<Rightarrow> u32 \<times> u8 list" where
  "viterbi_decode v soft_syms =
     (let (pm, hist) = fold (viterbi_step soft_syms) [0..<num_bits v] (path_metric v, path_history v);
          (best_metric, st) = best_state pm
      in (best_metric, pack_bits (traceback hist (num_bits v) st)))"

text \<open>
  The number of channel symbols that differ from the re-encoded bits, the numerator of
  \<open>viterbi_ber\<close>.
\<close>

definition viterbi_errors :: "u8 list \<Rightarrow> nat \<Rightarrow> i8 list \<Rightarrow> nat" where
  "viterbi_errors bits n soft_syms =
     (let syms = viterbi_encode bits n
      in length (filter (\<lambda>i. of_bool (0 < sint (soft_syms ! i)) \<noteq> syms ! i) [0..<n * 2]))"

section \<open>Paths through a trellis\<close>

fun path_end :: "(nat \<Rightarrow> bool \<Rightarrow> nat) \<Rightarrow> nat \<Rightarrow> bool list \<Rightarrow> nat" where
  "path_end nxt s [] = s"
| "path_end nxt s (b # bs) = path_end nxt (nxt s b) bs"

fun path_syms :: "(nat \<Rightarrow> bool \<Rightarrow> nat) \<Rightarrow> (nat \<Rightarrow> bool \<Rightarrow> nat) \<Rightarrow> nat \<Rightarrow> bool list \<Rightarrow> nat list" where
  "path_syms nxt out s [] = []"
| "path_syms nxt out s (b # bs) = out s b # path_syms nxt out (nxt s b) bs"

text \<open>The cost of a path, where \<open>w t y\<close> is the cost of sending symbol \<open>y\<close> at time \<open>t\<close>.\<close>

fun syms_cost :: "(nat \<Rightarrow> nat \<Rightarrow> nat) \<Rightarrow> nat \<Rightarrow> nat list \<Rightarrow> nat" where
  "syms_cost w t [] = 0"
| "syms_cost w t (y # ys) = w t y + syms_cost w (Suc t) ys"

lemma path_end_append [simp]: "path_end nxt s (bs @ cs) = path_end nxt (path_end nxt s bs) cs"
  by (induction bs arbitrary: s) auto

lemma path_syms_append [simp]:
  "path_syms nxt out s (bs @ cs) = path_syms nxt out s bs @ path_syms nxt out (path_end nxt s bs) cs"
  by (induction bs arbitrary: s) auto

lemma length_path_syms [simp]: "length (path_syms nxt out s bs) = length bs"
  by (induction bs arbitrary: s) auto

lemma syms_cost_append [simp]:
  "syms_cost w t (xs @ ys) = syms_cost w t xs + syms_cost w (t + length xs) ys"
  by (induction xs arbitrary: t) auto

lemma syms_cost_le:
  "(\<And>t y. w t y \<le> c) \<Longrightarrow> syms_cost w t ys \<le> c * length ys"
proof (induction ys arbitrary: t)
  case (Cons y ys)
  have "w t y + syms_cost w (Suc t) ys \<le> c + c * length ys"
    by (rule add_mono) (use Cons in auto)
  then show ?case by simp
qed simp

text \<open>
  What the decoder maintains: for every state the cheapest path into it (\<open>P s\<close>, of cost \<open>m\<close>
  when \<open>M s = Some m\<close>), or no path at all (\<open>M s = None\<close>).
\<close>

definition survivors :: "(nat \<Rightarrow> bool \<Rightarrow> nat) \<Rightarrow> (nat \<Rightarrow> bool \<Rightarrow> nat) \<Rightarrow> (nat \<Rightarrow> nat \<Rightarrow> nat) \<Rightarrow>
    nat \<Rightarrow> nat \<Rightarrow> (nat \<Rightarrow> nat option) \<Rightarrow> (nat \<Rightarrow> bool list) \<Rightarrow> bool" where
  "survivors nxt out w n t M P \<longleftrightarrow>
     (\<forall>s < n. case M s of
        None \<Rightarrow> \<forall>bs. length bs = t \<longrightarrow> path_end nxt 0 bs \<noteq> s
      | Some m \<Rightarrow> length (P s) = t \<and> path_end nxt 0 (P s) = s \<and>
          syms_cost w 0 (path_syms nxt out 0 (P s)) = m \<and>
          (\<forall>bs. length bs = t \<longrightarrow> path_end nxt 0 bs = s \<longrightarrow>
             m \<le> syms_cost w 0 (path_syms nxt out 0 bs)))"

text \<open>One step of the dynamic program, stated without reference to how it is computed.\<close>

definition selects :: "(nat \<Rightarrow> bool \<Rightarrow> nat) \<Rightarrow> (nat \<Rightarrow> bool \<Rightarrow> nat) \<Rightarrow> (nat \<Rightarrow> nat \<Rightarrow> nat) \<Rightarrow>
    nat \<Rightarrow> nat \<Rightarrow> (nat \<Rightarrow> nat option) \<Rightarrow> (nat \<Rightarrow> bool list) \<Rightarrow>
    nat \<Rightarrow> nat option \<Rightarrow> bool list \<Rightarrow> bool" where
  "selects nxt out w n t M P ns m' p' \<longleftrightarrow>
     (case m' of
        None \<Rightarrow> \<forall>s < n. \<forall>b. nxt s b = ns \<longrightarrow> M s = None
      | Some v \<Rightarrow>
          (\<exists>s < n. \<exists>b m. nxt s b = ns \<and> M s = Some m \<and> v = m + w t (out s b) \<and> p' = P s @ [b]) \<and>
          (\<forall>s < n. \<forall>b m. nxt s b = ns \<longrightarrow> M s = Some m \<longrightarrow> v \<le> m + w t (out s b)))"

locale trellis =
  fixes n_states :: nat and nxt :: "nat \<Rightarrow> bool \<Rightarrow> nat" and out :: "nat \<Rightarrow> bool \<Rightarrow> nat"
  assumes n_pos: "0 < n_states"
    and nxt_less: "s < n_states \<Longrightarrow> nxt s b < n_states"
    and out_differs: "s < n_states \<Longrightarrow> out s False \<noteq> out s True"
begin

lemma path_end_less: "s < n_states \<Longrightarrow> path_end nxt s bs < n_states"
  by (induction bs arbitrary: s) (auto simp: nxt_less)

lemma path_syms_inj:
  "s < n_states \<Longrightarrow> path_syms nxt out s bs = path_syms nxt out s cs \<Longrightarrow> bs = cs"
proof (induction bs arbitrary: s cs)
  case Nil
  then show ?case by (cases cs) auto
next
  case (Cons b bs)
  then obtain c cs' where cs: "cs = c # cs'" by (cases cs) auto
  with Cons.prems have "out s b = out s c" by simp
  with out_differs [OF Cons.prems(1)] have "b = c" by (cases b; cases c) auto
  with Cons cs show ?case by (auto intro: nxt_less)
qed

lemma survivors_init:
  assumes "M 0 = Some 0" and "\<And>s. s \<noteq> 0 \<Longrightarrow> s < n_states \<Longrightarrow> M s = None" and "P 0 = []"
  shows "survivors nxt out w n_states 0 M P"
proof -
  have "M s = (if s = 0 then Some 0 else None)" if "s < n_states" for s
    using assms that by simp
  then show ?thesis using assms(3) by (simp add: survivors_def)
qed

lemma survivors_step:
  assumes sv: "survivors nxt out w n_states t M P"
    and sel: "\<And>ns. ns < n_states \<Longrightarrow> selects nxt out w n_states t M P ns (M' ns) (P' ns)"
  shows "survivors nxt out w n_states (Suc t) M' P'"
proof -
  have split_last: "\<exists>cs b. bs = cs @ [b] \<and> length cs = t" if "length bs = Suc t" for bs :: "bool list"
    using that by (cases bs rule: rev_cases) auto
  have reach: "\<exists>m. M (path_end nxt 0 cs) = Some m \<and> m \<le> syms_cost w 0 (path_syms nxt out 0 cs)"
    if "length cs = t" for cs
    using sv path_end_less [OF n_pos, of cs] that
    by (auto simp: survivors_def split: option.splits)
  show ?thesis unfolding survivors_def
  proof (intro allI impI)
    fix ns assume ns: "ns < n_states"
    note sel = sel [OF ns, unfolded selects_def]
    show "case M' ns of
        None \<Rightarrow> \<forall>bs. length bs = Suc t \<longrightarrow> path_end nxt 0 bs \<noteq> ns
      | Some m \<Rightarrow> length (P' ns) = Suc t \<and> path_end nxt 0 (P' ns) = ns \<and>
          syms_cost w 0 (path_syms nxt out 0 (P' ns)) = m \<and>
          (\<forall>bs. length bs = Suc t \<longrightarrow> path_end nxt 0 bs = ns \<longrightarrow>
             m \<le> syms_cost w 0 (path_syms nxt out 0 bs))"
    proof (cases "M' ns")
      case None
      have "path_end nxt 0 bs \<noteq> ns" if len: "length bs = Suc t" for bs
      proof
        assume e: "path_end nxt 0 bs = ns"
        obtain cs b where bs: "bs = cs @ [b]" "length cs = t" using split_last [OF len] by blast
        then have "M (path_end nxt 0 cs) = None"
          using None sel e path_end_less [OF n_pos, of cs] by auto
        with reach [OF bs(2)] show False by simp
      qed
      with None show ?thesis by simp
    next
      case (Some v)
      with sel obtain s b m where best: "s < n_states" "nxt s b = ns" "M s = Some m"
          "v = m + w t (out s b)" "P' ns = P s @ [b]" by auto
      have P: "length (P s) = t" "path_end nxt 0 (P s) = s"
          "syms_cost w 0 (path_syms nxt out 0 (P s)) = m"
        using sv best by (auto simp: survivors_def split: option.splits)
      have "v \<le> syms_cost w 0 (path_syms nxt out 0 bs)"
        if len: "length bs = Suc t" and e: "path_end nxt 0 bs = ns" for bs
      proof -
        obtain cs c where bs: "bs = cs @ [c]" "length cs = t" using split_last [OF len] by blast
        obtain m2 where m2: "M (path_end nxt 0 cs) = Some m2"
            "m2 \<le> syms_cost w 0 (path_syms nxt out 0 cs)" using reach [OF bs(2)] by blast
        have "v \<le> m2 + w t (out (path_end nxt 0 cs) c)"
          using Some sel e bs m2 path_end_less [OF n_pos, of cs] by auto
        with m2 bs show ?thesis by simp
      qed
      with Some best P show ?thesis by simp
    qed
  qed
qed

text \<open>The best survivor is a cheapest path over all final states.\<close>

lemma survivors_best:
  assumes sv: "survivors nxt out w n_states t M P"
    and best: "s < n_states" "M s = Some m"
    and least: "\<And>s' m'. s' < n_states \<Longrightarrow> M s' = Some m' \<Longrightarrow> m \<le> m'"
  shows "length (P s) = t" and "syms_cost w 0 (path_syms nxt out 0 (P s)) = m"
    and "length bs = t \<Longrightarrow> m \<le> syms_cost w 0 (path_syms nxt out 0 bs)"
proof -
  show "length (P s) = t" "syms_cost w 0 (path_syms nxt out 0 (P s)) = m"
    using sv best by (auto simp: survivors_def split: option.splits)
  assume len: "length bs = t"
  let ?e = "path_end nxt 0 bs"
  have e: "?e < n_states" by (rule path_end_less [OF n_pos])
  obtain m' where "M ?e = Some m'" "m' \<le> syms_cost w 0 (path_syms nxt out 0 bs)"
    using sv e len by (auto simp: survivors_def split: option.splits)
  with least [OF e] show "m \<le> syms_cost w 0 (path_syms nxt out 0 bs)" by force
qed

end

section \<open>The code's trellis\<close>

lemma all_less_64: "(\<forall>s < 64. P s) \<longleftrightarrow> list_all P [0..<64::nat]"
  by (auto simp: list_all_iff)

lemma next_state_less: "s < 64 \<Longrightarrow> next_state s b < 64"
proof -
  have "\<forall>s < 64. next_state s False < 64 \<and> next_state s True < 64"
    unfolding all_less_64 by code_simp
  then show "s < 64 \<Longrightarrow> next_state s b < 64" by (cases b) auto
qed

lemma encode_sym_differs: "s < 64 \<Longrightarrow> encode_sym s False \<noteq> encode_sym s True"
proof -
  have "\<forall>s < 64. encode_sym s False \<noteq> encode_sym s True"
    unfolding all_less_64 by code_simp
  then show "s < 64 \<Longrightarrow> encode_sym s False \<noteq> encode_sym s True" by auto
qed

lemma encode_sym_less: "s < 64 \<Longrightarrow> encode_sym s b < 4"
proof -
  have "\<forall>s < 64. encode_sym s False < 4 \<and> encode_sym s True < 4"
    unfolding all_less_64 by code_simp
  then show "s < 64 \<Longrightarrow> encode_sym s b < 4" by (cases b) auto
qed

interpretation k7: trellis 64 next_state encode_sym
  by unfold_locales (auto simp: next_state_less encode_sym_differs)

text \<open>A history entry \<open>(s << 1) | bit\<close> is read back by the traceback.\<close>

lemma history_entry:
  assumes "s < 64"
  shows "unat (drop_bit 1 (push_bit 1 (of_nat s) OR of_bool b :: u64)) = s"
    and "((push_bit 1 (of_nat s) OR of_bool b :: u64) AND 1 \<noteq> 0) = b"
proof -
  have "\<forall>s < 64. unat (drop_bit 1 (push_bit 1 (of_nat s) OR of_bool False :: u64)) = s \<and>
      unat (drop_bit 1 (push_bit 1 (of_nat s) OR of_bool True :: u64)) = s"
    unfolding all_less_64 by code_simp
  with assms show "unat (drop_bit 1 (push_bit 1 (of_nat s) OR of_bool b :: u64)) = s"
    by (cases b) auto
  have "\<forall>s < 64. \<not> ((push_bit 1 (of_nat s) OR of_bool False :: u64) AND 1 \<noteq> 0) \<and>
      ((push_bit 1 (of_nat s) OR of_bool True :: u64) AND 1 \<noteq> 0)"
    unfolding all_less_64 by code_simp
  with assms show "((push_bit 1 (of_nat s) OR of_bool b :: u64) AND 1 \<noteq> 0) = b"
    by (cases b) auto
qed

section \<open>Metrics\<close>

lemma sint_i8_range: "- 128 \<le> sint (x :: i8) \<and> sint x \<le> 127"
  using sint_greater_eq [of x] sint_less [of x] by simp

lemma soft_dist_le: "\<bar>sint (a :: i8) - (if c then 127 else - 127)\<bar> \<le> 255"
  using sint_i8_range [of a] by (cases c) (simp_all add: abs_le_iff)

lemma branch_metric_unat:
  "unat (branch_metric a b g1 g2) =
     nat (\<bar>sint a - (if g1 \<noteq> 0 then 127 else - 127)\<bar> + \<bar>sint b - (if g2 \<noteq> 0 then 127 else - 127)\<bar>)"
proof -
  let ?d = "\<bar>sint a - (if g1 \<noteq> 0 then 127 else - 127)\<bar> + \<bar>sint b - (if g2 \<noteq> 0 then 127 else - 127)\<bar>"
  have lo: "0 \<le> ?d" by simp
  have hi: "?d \<le> 510"
    using soft_dist_le [of a "g1 \<noteq> 0"] soft_dist_le [of b "g2 \<noteq> 0"] by linarith
  have "take_bit LENGTH(32) ?d = ?d"
    by (rule take_bit_int_eq_self [OF lo], rule order.strict_trans1 [OF hi]) simp
  then show ?thesis
    unfolding branch_metric_def Let_def unat_eq_nat_uint uint_word_of_int_eq by (simp only:)
qed

lemma branch_metric_le: "unat (branch_metric a b g1 g2) \<le> 510"
  unfolding branch_metric_unat
  using soft_dist_le [of a "g1 \<noteq> 0"] soft_dist_le [of b "g2 \<noteq> 0"] by linarith

definition sym_cost :: "i8 list \<Rightarrow> nat \<Rightarrow> nat \<Rightarrow> nat" where
  "sym_cost soft t y =
     unat (branch_metric (soft ! (t * 2)) (soft ! (t * 2 + 1)) (drop_bit 1 y AND 1) (y AND 1))"

lemma sym_cost_le: "sym_cost soft t y \<le> 510"
  by (simp add: sym_cost_def branch_metric_le)

abbreviation path_cost :: "i8 list \<Rightarrow> bool list \<Rightarrow> nat" where
  "path_cost soft bs \<equiv> syms_cost (sym_cost soft) 0 (path_syms next_state encode_sym 0 bs)"

lemma path_cost_le: "path_cost soft bs \<le> 510 * length bs"
  using syms_cost_le [of "sym_cost soft" 510 0 "path_syms next_state encode_sym 0 bs"]
  by (simp add: sym_cost_le)

section \<open>Add-compare-select\<close>

abbreviation dead_metric :: u32 where "dead_metric \<equiv> 0x7FFFFFFF"

definition trans_cost :: "i8 \<Rightarrow> i8 \<Rightarrow> u32 list \<Rightarrow> nat \<Rightarrow> bool \<Rightarrow> nat" where
  "trans_cost s0 s1 pm s b = unat (pm ! s) +
     unat (branch_metric s0 s1 (drop_bit 1 (encode_sym s b) AND 1) (encode_sym s b AND 1))"

abbreviation entry_of :: "nat \<Rightarrow> bool \<Rightarrow> u64" where
  "entry_of s b \<equiv> push_bit 1 (of_nat s) OR of_bool b"

text \<open>What one slot of the new metrics and decisions holds after the transitions in \<open>S\<close>.\<close>

definition sel_at :: "(nat \<Rightarrow> bool) \<Rightarrow> (nat \<Rightarrow> bool \<Rightarrow> nat) \<Rightarrow> (nat \<times> bool) set \<Rightarrow> nat \<Rightarrow>
    nat \<Rightarrow> u64 \<Rightarrow> bool" where
  "sel_at live c S ns v e \<longleftrightarrow>
     (v = 0xFFFFFFFF \<and> (\<forall>s b. (s, b) \<in> S \<longrightarrow> next_state s b = ns \<longrightarrow> \<not> live s)) \<or>
     (\<exists>s b. (s, b) \<in> S \<and> next_state s b = ns \<and> live s \<and> v = c s b \<and> e = entry_of s b \<and>
        (\<forall>s2 b2. (s2, b2) \<in> S \<longrightarrow> next_state s2 b2 = ns \<longrightarrow> live s2 \<longrightarrow> v \<le> c s2 b2))"

lemma sel_at_other:
  "sel_at live c S ns v e \<Longrightarrow> next_state s b \<noteq> ns \<or> \<not> live s \<Longrightarrow> sel_at live c (insert (s, b) S) ns v e"
  unfolding sel_at_def by (metis insert_iff prod.inject)

lemma sel_at_better:
  assumes "sel_at live c S ns v e" and "next_state s b = ns" and "live s" and "c s b < v"
  shows "sel_at live c (insert (s, b) S) ns (c s b) (entry_of s b)"
proof -
  have "c s b \<le> c s2 b2" if "(s2, b2) \<in> S" "next_state s2 b2 = ns" "live s2" for s2 b2
    using assms(1,4) that unfolding sel_at_def by (metis order.strict_trans2 order_less_imp_le)
  then show ?thesis using assms(2,3) unfolding sel_at_def by (metis insert_iff order_refl prod.inject)
qed

lemma sel_at_keep:
  assumes "sel_at live c S ns v e" and "v \<le> c s b" and "c s b < 0xFFFFFFFF"
  shows "sel_at live c (insert (s, b) S) ns v e"
proof -
  have "v \<noteq> 0xFFFFFFFF" using assms by simp
  then obtain s1 b1 where "(s1, b1) \<in> S" "next_state s1 b1 = ns" "live s1" "v = c s1 b1"
      "e = entry_of s1 b1"
      "\<forall>s2 b2. (s2, b2) \<in> S \<longrightarrow> next_state s2 b2 = ns \<longrightarrow> live s2 \<longrightarrow> v \<le> c s2 b2"
    using assms(1) unfolding sel_at_def by blast
  then show ?thesis using assms(2) unfolding sel_at_def by (metis insert_iff prod.inject)
qed

definition acs_inv :: "i8 \<Rightarrow> i8 \<Rightarrow> u32 list \<Rightarrow> (nat \<times> bool) set \<Rightarrow> u32 list \<times> u64 list \<Rightarrow> bool" where
  "acs_inv s0 s1 pm S = (\<lambda>(new, row). length new = 64 \<and> length row = 64 \<and>
     (\<forall>ns < 64. sel_at (\<lambda>s. pm ! s < dead_metric) (trans_cost s0 s1 pm) S ns
        (unat (new ! ns)) (row ! ns)))"

lemma acs_inv_acs:
  assumes inv: "acs_inv s0 s1 pm S acc" and s: "s < 64" and live: "pm ! s < dead_metric"
  shows "acs_inv s0 s1 pm (insert (s, b) S) (acs s0 s1 pm s b acc)"
proof -
  obtain new row where acc: "acc = (new, row)" by (cases acc)
  let ?bm = "branch_metric s0 s1 (drop_bit 1 (encode_sym s b) AND 1) (encode_sym s b AND 1)"
  let ?ns = "next_state s b" and ?m = "pm ! s + ?bm"
  let ?live = "\<lambda>s. pm ! s < dead_metric" and ?c = "trans_cost s0 s1 pm"
  have len: "length new = 64" "length row = 64"
    and at: "\<And>k. k < 64 \<Longrightarrow> sel_at ?live ?c S k (unat (new ! k)) (row ! k)"
    using inv acc by (auto simp: acs_inv_def)
  have ns: "?ns < 64" using s by (rule next_state_less)
  have um: "unat ?m = ?c s b" and small: "?c s b < 0xFFFFFFFF"
    using live branch_metric_le [of s0 s1 "drop_bit 1 (encode_sym s b) AND 1" "encode_sym s b AND 1"]
    by (auto simp: word_less_nat_alt unat_word_ariths trans_cost_def)
  have eq: "acs s0 s1 pm s b acc =
      (if ?m < new ! ?ns then (new[?ns := ?m], row[?ns := entry_of s b]) else (new, row))"
    by (simp add: acs_def acc Let_def)
  show ?thesis
  proof (cases "?m < new ! ?ns")
    case True
    then have lt: "?c s b < unat (new ! ?ns)" using um by (simp add: word_less_nat_alt)
    have "sel_at ?live ?c (insert (s, b) S) k (unat (new[?ns := ?m] ! k)) (row[?ns := entry_of s b] ! k)"
      if k: "k < 64" for k
    proof (cases "k = ?ns")
      case True
      then show ?thesis using sel_at_better [OF at [OF ns] refl live lt] len ns um by simp
    next
      case False
      then show ?thesis using sel_at_other [OF at [OF k]] by simp
    qed
    with True eq len show ?thesis by (simp add: acs_inv_def)
  next
    case False
    then have ge: "unat (new ! ?ns) \<le> ?c s b" using um by (simp add: word_less_nat_alt)
    have "sel_at ?live ?c (insert (s, b) S) k (unat (new ! k)) (row ! k)" if k: "k < 64" for k
      using sel_at_keep [OF at [OF k] _ small] sel_at_other [OF at [OF k], of s b] ge
      by (cases "k = ?ns") auto
    with False eq len show ?thesis by (simp add: acs_inv_def)
  qed
qed

lemma acs_inv_init: "length row = 64 \<Longrightarrow> acs_inv s0 s1 pm {} (replicate 64 0xFFFFFFFF, row)"
  by (simp add: acs_inv_def sel_at_def)

lemma acs_inv_skip:
  "acs_inv s0 s1 pm S acc \<Longrightarrow> \<not> pm ! s < dead_metric \<Longrightarrow> acs_inv s0 s1 pm (insert (s, b) S) acc"
  by (cases acc) (simp add: acs_inv_def sel_at_other)

lemma upt_pairs_Suc:
  "{0..<Suc k} \<times> (UNIV :: bool set) = insert (k, True) (insert (k, False) ({0..<k} \<times> UNIV))"
  by (auto simp: atLeastLessThanSuc UNIV_bool)

lemma acs_inv_row:
  assumes "length row = 64"
  shows "acs_inv s0 s1 pm ({0..<64} \<times> UNIV)
     (fold (\<lambda>s acc. if dead_metric \<le> pm ! s then acc
                    else acs s0 s1 pm s True (acs s0 s1 pm s False acc))
        [0..<64] (replicate 64 0xFFFFFFFF, row))"
proof (rule fold_upt_invariant [where I = "\<lambda>k. acs_inv s0 s1 pm ({0..<k} \<times> UNIV)"])
  show "acs_inv s0 s1 pm ({0..<0} \<times> UNIV) (replicate 64 0xFFFFFFFF, row)"
    using acs_inv_init [OF assms] by simp
next
  fix k acc assume "k < 64" and inv: "acs_inv s0 s1 pm ({0..<k} \<times> UNIV) acc"
  show "acs_inv s0 s1 pm ({0..<Suc k} \<times> UNIV)
     (if dead_metric \<le> pm ! k then acc else acs s0 s1 pm k True (acs s0 s1 pm k False acc))"
  proof (cases "pm ! k < dead_metric")
    case True
    then have nd: "\<not> dead_metric \<le> pm ! k" by (simp add: not_le)
    show ?thesis unfolding upt_pairs_Suc if_not_P [OF nd]
      by (rule acs_inv_acs [OF acs_inv_acs [OF inv \<open>k < 64\<close> True] \<open>k < 64\<close> True])
  next
    case False
    then have d: "dead_metric \<le> pm ! k" by (simp add: not_less)
    show ?thesis unfolding upt_pairs_Suc if_P [OF d]
      by (rule acs_inv_skip [OF acs_inv_skip [OF inv False] False])
  qed
qed

definition live_metric :: "u32 list \<Rightarrow> nat \<Rightarrow> nat option" where
  "live_metric pm s = (if pm ! s < dead_metric then Some (unat (pm ! s)) else None)"

lemma traceback_update: "t \<le> k \<Longrightarrow> traceback (hist[k := r]) t s = traceback hist t s"
  by (induction t arbitrary: s) (auto simp: Let_def)

lemma length_traceback [simp]: "length (traceback hist t s) = t"
  by (induction t arbitrary: s) (auto simp: Let_def)

definition vit_inv :: "i8 list \<Rightarrow> nat \<Rightarrow> nat \<Rightarrow> u32 list \<times> u64 list list \<Rightarrow> bool" where
  "vit_inv soft T t = (\<lambda>(pm, hist). length pm = 64 \<and> length hist = T + 7 \<and>
     (\<forall>row \<in> set hist. length row = 64) \<and>
     survivors next_state encode_sym (sym_cost soft) 64 t (live_metric pm) (traceback hist t))"

lemma live_metric_bound:
  assumes "survivors next_state encode_sym (sym_cost soft) 64 t (live_metric pm) P"
    and "s < 64" and "pm ! s < dead_metric"
  shows "unat (pm ! s) \<le> 510 * t"
proof -
  have "length (P s) = t" "path_cost soft (P s) = unat (pm ! s)"
    using assms by (auto simp: survivors_def live_metric_def split: option.splits if_splits)
  with path_cost_le [of soft "P s"] show ?thesis by simp
qed

lemma acs_selects:
  assumes inv: "acs_inv (soft ! (t * 2)) (soft ! (t * 2 + 1)) pm ({0..<64} \<times> UNIV) (new, row)"
    and bound: "\<And>s. s < 64 \<Longrightarrow> pm ! s < dead_metric \<Longrightarrow> unat (pm ! s) \<le> 510 * t"
    and fits: "510 * Suc t < 0x7FFFFFFF" and ns: "ns < 64" and t: "t < length hist"
  shows "selects next_state encode_sym (sym_cost soft) 64 t (live_metric pm) (traceback hist t) ns
    (live_metric new ns) (traceback (hist[t := row]) (Suc t) ns)"
proof -
  let ?live = "\<lambda>s. pm ! s < dead_metric"
  let ?c = "trans_cost (soft ! (t * 2)) (soft ! (t * 2 + 1)) pm"
  have c: "?c s b = unat (pm ! s) + sym_cost soft t (encode_sym s b)" for s b
    by (simp add: trans_cost_def sym_cost_def)
  have at: "sel_at ?live ?c ({0..<64} \<times> UNIV) ns (unat (new ! ns)) (row ! ns)"
    using inv ns by (auto simp: acs_inv_def)
  then consider
      (none) "unat (new ! ns) = 0xFFFFFFFF" "\<And>s b. s < 64 \<Longrightarrow> next_state s b = ns \<Longrightarrow> \<not> ?live s"
    | (best) s b where "s < 64" "next_state s b = ns" "?live s" "unat (new ! ns) = ?c s b"
        "row ! ns = entry_of s b"
        "\<And>s2 b2. s2 < 64 \<Longrightarrow> next_state s2 b2 = ns \<Longrightarrow> ?live s2 \<Longrightarrow> unat (new ! ns) \<le> ?c s2 b2"
    unfolding sel_at_def by auto
  then show ?thesis
  proof cases
    case none
    then show ?thesis by (auto simp: selects_def live_metric_def word_less_nat_alt)
  next
    case best
    have "unat (new ! ns) \<le> 510 * Suc t"
      using bound [OF best(1,3)] sym_cost_le [of soft t "encode_sym s b"] best(4) c by simp
    with fits have live: "new ! ns < dead_metric" by (simp add: word_less_nat_alt)
    have tb: "traceback (hist[t := row]) (Suc t) ns = traceback hist t s @ [b]"
      using t best(5) history_entry [OF best(1), of b] by (simp add: traceback_update Let_def)
    have min: "unat (new ! ns) \<le> m2 + sym_cost soft t (encode_sym s2 b2)"
      if "s2 < 64" "next_state s2 b2 = ns" "live_metric pm s2 = Some m2" for s2 b2 m2
      using best(6) [of s2 b2] that c by (auto simp: live_metric_def split: if_splits)
    have ex: "next_state s b = ns \<and> live_metric pm s = Some (unat (pm ! s)) \<and>
        unat (new ! ns) = unat (pm ! s) + sym_cost soft t (encode_sym s b) \<and>
        traceback (hist[t := row]) (Suc t) ns = traceback hist t s @ [b]"
      using best tb c by (simp add: live_metric_def)
    have ln: "live_metric new ns = Some (unat (new ! ns))" using live by (simp add: live_metric_def)
    show ?thesis unfolding selects_def ln option.case using best(1) ex min by blast
  qed
qed

lemma vit_inv_step:
  assumes inv: "vit_inv soft T t st" and t: "t < T" and fits: "510 * T < 0x7FFFFFFF"
  shows "vit_inv soft T (Suc t) (viterbi_step soft t st)"
proof -
  obtain pm hist where st: "st = (pm, hist)" by (cases st)
  have len: "length hist = T + 7" "\<forall>row \<in> set hist. length row = 64"
    and sv: "survivors next_state encode_sym (sym_cost soft) 64 t (live_metric pm) (traceback hist t)"
    using inv st by (auto simp: vit_inv_def)
  obtain new row where fold: "fold (\<lambda>s acc. if dead_metric \<le> pm ! s then acc
        else acs (soft ! (t * 2)) (soft ! (t * 2 + 1)) pm s True
              (acs (soft ! (t * 2)) (soft ! (t * 2 + 1)) pm s False acc))
      [0..<64] (replicate 64 0xFFFFFFFF, hist ! t) = (new, row)" by fastforce
  have lrow: "length (hist ! t) = 64" using len t by simp
  have inv': "acs_inv (soft ! (t * 2)) (soft ! (t * 2 + 1)) pm ({0..<64} \<times> UNIV) (new, row)"
    using acs_inv_row [OF lrow, of "soft ! (t * 2)" "soft ! (t * 2 + 1)" pm] fold by simp
  have lens: "length new = 64" "length row = 64" using inv' by (auto simp: acs_inv_def)
  have "survivors next_state encode_sym (sym_cost soft) 64 (Suc t) (live_metric new)
      (traceback (hist[t := row]) (Suc t))"
    by (rule k7.survivors_step [OF sv], rule acs_selects [OF inv' live_metric_bound [OF sv]])
      (use fits t len in auto)
  moreover have "viterbi_step soft t st = (new, hist[t := row])"
    by (simp only: viterbi_step_def st Let_def fold prod.case)
  moreover have "\<forall>r \<in> set (hist[t := row]). length r = 64"
    using len(2) lens(2) set_update_subset_insert [of hist t row] by auto
  ultimately show ?thesis using len(1) lens(1) by (simp add: vit_inv_def)
qed

lemma vit_inv_run:
  assumes "510 * T < 0x7FFFFFFF"
  shows "vit_inv soft T T (fold (viterbi_step soft) [0..<T]
    (path_metric (viterbi_init T), path_history (viterbi_init T)))"
proof -
  have gen: "vit_inv soft T k (fold (viterbi_step soft) [0..<k]
      (path_metric (viterbi_init T), path_history (viterbi_init T)))" if "k \<le> T" for k
    using that
  proof (induction k)
    case 0
    have "survivors next_state encode_sym (sym_cost soft) 64 0
        (live_metric (map (\<lambda>i. if i = 0 then 0 else 0x7FFFFFFF) [0..<64])) (traceback h 0)" for h
      by (rule k7.survivors_init) (auto simp: live_metric_def)
    then show ?case by (simp add: vit_inv_def viterbi_init_def)
  next
    case (Suc k)
    then show ?case using vit_inv_step [OF Suc.IH _ assms] by simp
  qed
  show ?thesis by (rule gen) simp
qed

section \<open>The best final state\<close>

lemma best_state_spec:
  assumes "best_state pm = (m, b)"
  shows "(m = 0xFFFFFFFF \<or> (b < 64 \<and> pm ! b = m)) \<and> (\<forall>s < 64. m \<le> pm ! s)"
proof -
  let ?f = "\<lambda>s (m, b). if pm ! s < m then (pm ! s, s) else (m, b)"
  let ?I = "\<lambda>k (m, b). (m = 0xFFFFFFFF \<or> (b < k \<and> pm ! b = m)) \<and> (\<forall>s < k. m \<le> pm ! s)"
  have "?I 64 (fold ?f [0..<64] (0xFFFFFFFF :: u32, 0))"
  proof (rule fold_upt_invariant [where I = ?I])
    fix k and acc :: "u32 \<times> nat"
    assume "?I k acc"
    then show "?I (Suc k) (?f k acc)"
      by (cases acc) (auto simp: less_Suc_eq not_less intro: order.trans dest: order_less_imp_le)
  qed simp
  then show ?thesis using assms by (simp add: best_state_def)
qed

lemma survivors_None:
  "survivors nxt out w n t M P \<Longrightarrow> s < n \<Longrightarrow> M s = None \<Longrightarrow> length bs = t \<Longrightarrow> path_end nxt 0 bs \<noteq> s"
  by (auto simp: survivors_def split: option.splits)

lemma viterbi_decode_path:
  assumes fits: "510 * T < 0x7FFFFFFF" and dec: "viterbi_decode (viterbi_init T) soft = (m, out)"
  obtains bs where "out = pack_bits bs" "length bs = T" "path_cost soft bs = unat m"
    "\<And>cs. length cs = T \<Longrightarrow> unat m \<le> path_cost soft cs"
proof -
  obtain pm hist where run: "fold (viterbi_step soft) [0..<T]
      (path_metric (viterbi_init T), path_history (viterbi_init T)) = (pm, hist)" by fastforce
  have sv: "survivors next_state encode_sym (sym_cost soft) 64 T (live_metric pm) (traceback hist T)"
    using vit_inv_run [OF fits, of soft] run by (simp add: vit_inv_def)
  obtain best st where b: "best_state pm = (best, st)" by fastforce
  have T: "num_bits (viterbi_init T) = T" by (simp add: viterbi_init_def)
  have eqs: "m = best" "out = pack_bits (traceback hist T st)"
    using dec run b by (simp_all add: viterbi_decode_def Let_def T)
  note spec = best_state_spec [OF b]
  let ?e = "path_end next_state 0 (replicate T False)"
  have e: "?e < 64" by (rule k7.path_end_less) simp
  have "live_metric pm ?e \<noteq> None"
  proof
    assume "live_metric pm ?e = None"
    from survivors_None [OF sv e this, of "replicate T False"] show False by simp
  qed
  then have "pm ! ?e < dead_metric" by (auto simp: live_metric_def split: if_splits)
  then have "best < dead_metric" using spec e by (auto intro: order.strict_trans1)
  moreover have "\<not> (0xFFFFFFFF :: u32) < dead_metric" by simp
  ultimately have st: "st < 64" "pm ! st = best" "live_metric pm st = Some (unat best)"
    using spec by (auto simp: live_metric_def)
  have least: "unat best \<le> m'" if "s' < 64" "live_metric pm s' = Some m'" for s' m'
    using that spec by (auto simp: live_metric_def word_le_nat_alt split: if_splits)
  note best = k7.survivors_best [OF sv st(1,3) least]
  show ?thesis using that [of "traceback hist T st"] best eqs by simp
qed

end
