(* ===== verification/ViterbiCorrect.thy ===== *)
theory ViterbiCorrect
  imports Viterbi
begin

text \<open>
  What the Viterbi decoder achieves: it finds a closest code word (maximum likelihood), inverts the
  encoder on a noiseless channel, and corrects any four channel errors except in the last
  20 bits of a block.  The last fact rests on the column distance of the code, computed by
  a dynamic program over the 64 states, and on the linearity of the encoder.
\<close>

unbundle bit_operations_syntax

section \<open>Packed bits and symbol streams\<close>

definition unpack_bits :: "u8 list \<Rightarrow> nat \<Rightarrow> bool list" where
  "unpack_bits bytes n = map (bit_at bytes) [0..<n]"

definition flat_syms :: "nat list \<Rightarrow> nat list" where
  "flat_syms ys = concat (map (\<lambda>y. [drop_bit 1 y AND 1, y AND 1]) ys)"

lemma length_unpack_bits [simp]: "length (unpack_bits bytes n) = n"
  by (simp add: unpack_bits_def)

lemma length_flat_syms [simp]: "length (flat_syms ys) = 2 * length ys"
  by (induction ys) (auto simp: flat_syms_def)

lemma nth_flat_syms:
  "t < length ys \<Longrightarrow> flat_syms ys ! (2 * t) = drop_bit 1 (ys ! t) AND 1"
  "t < length ys \<Longrightarrow> flat_syms ys ! Suc (2 * t) = ys ! t AND 1"
proof -
  let ?xss = "map (\<lambda>y. [drop_bit 1 y AND 1, y AND 1]) ys"
  assume t: "t < length ys"
  have "concat ?xss ! (t * 2 + 0) = ?xss ! t ! 0" "concat ?xss ! (t * 2 + 1) = ?xss ! t ! 1"
    by (rule nth_concat_const; use t in auto)+
  with t show "flat_syms ys ! (2 * t) = drop_bit 1 (ys ! t) AND 1"
    "flat_syms ys ! Suc (2 * t) = ys ! t AND 1"
    by (simp_all add: flat_syms_def mult.commute)
qed

lemma viterbi_encode_loop_path:
  "viterbi_encode_loop bytes i n s =
     flat_syms (path_syms next_state encode_sym s (map (bit_at bytes) [i..<i + n]))"
proof (induction n arbitrary: i s)
  case 0
  then show ?case by (simp add: flat_syms_def)
next
  case (Suc n)
  have "[i..<i + Suc n] = i # [Suc i..<Suc i + n]" by (simp add: upt_conv_Cons)
  then show ?case using Suc.IH [of "Suc i"] by (simp add: flat_syms_def Let_def)
qed

lemma viterbi_encode_path:
  "viterbi_encode bytes n = flat_syms (path_syms next_state encode_sym 0 (unpack_bits bytes n))"
  by (simp add: viterbi_encode_def viterbi_encode_loop_path unpack_bits_def)

lemma length_viterbi_encode [simp]: "length (viterbi_encode bytes n) = 2 * n"
  by (simp add: viterbi_encode_path)

lemma shift_and_one: "(drop_bit k (w :: u8) AND 1 \<noteq> 0) = bit w k"
  by (metis bit_iff_and_drop_bit_eq_1 and_one_eq odd_iff_mod_2_eq_one parity_cases zero_neq_one)

lemma bit_pack_fold:
  "bit (fold (\<lambda>j acc. if c j then acc OR drop_bit j (0x80 :: u8) else acc) js a) n \<longleftrightarrow>
     bit a n \<or> (\<exists>j \<in> set js. c j \<and> n + j = 7)"
proof (induction js arbitrary: a)
  case (Cons j js)
  have "bit (drop_bit j (0x80 :: u8)) n \<longleftrightarrow> n + j = 7"
  proof -
    have "(0x80 :: u8) = push_bit 7 1" by simp
    then have "bit (0x80 :: u8) k \<longleftrightarrow> k = 7" for k by (simp only: bit_push_bit_iff bit_1_iff) auto
    then show ?thesis by (simp only: bit_drop_bit_eq o_apply) (simp add: add.commute)
  qed
  with Cons.IH show ?case by (auto simp: bit_or_iff)
qed simp

lemma bit_pack_byte:
  "n < 8 \<Longrightarrow> bit (pack_byte bs k) n \<longleftrightarrow> 8 * k + (7 - n) < length bs \<and> bs ! (8 * k + (7 - n))"
proof -
  assume n: "n < 8"
  then have "n + j = 7 \<longleftrightarrow> j = 7 - n" for j by auto
  with n show ?thesis unfolding pack_byte_def bit_pack_fold by auto
qed

lemma unpack_pack_bits: "unpack_bits (pack_bits bs) (length bs) = bs"
proof (rule nth_equalityI)
  fix i assume "i < length (unpack_bits (pack_bits bs) (length bs))"
  then have i: "i < length bs" by simp
  then have k: "i div 8 < (length bs + 7) div 8" by linarith
  have "8 * (i div 8) + (7 - (7 - i mod 8)) = i"
  proof -
    have "7 - (7 - i mod 8) = i mod 8" using mod_less_divisor [of 8 i] by linarith
    then show ?thesis by simp
  qed
  then show "unpack_bits (pack_bits bs) (length bs) ! i = bs ! i"
    using i k by (simp add: unpack_bits_def bit_at_def shift_and_one pack_bits_def bit_pack_byte)
qed simp

lemma pack_unpack_bits: "pack_bits (unpack_bits bytes (8 * length bytes)) = bytes"
proof (rule nth_equalityI)
  fix k assume "k < length (pack_bits (unpack_bits bytes (8 * length bytes)))"
  then have k: "k < length bytes" by (simp add: pack_bits_def)
  have "pack_byte (unpack_bits bytes (8 * length bytes)) k = bytes ! k"
  proof (rule bit_word_eqI)
    fix n assume n: "n < LENGTH(8)"
    then have n8: "n < 8" by simp
    have i: "8 * k + (7 - n) < 8 * length bytes" using k n8 by linarith
    have "(8 * k + (7 - n)) div 8 = k" "7 - (8 * k + (7 - n)) mod 8 = n"
    proof -
      have j: "(8 * k + j) div 8 = k" "(8 * k + j) mod 8 = j" if "j < 8" for j
        using that by simp_all
      show "(8 * k + (7 - n)) div 8 = k" "7 - (8 * k + (7 - n)) mod 8 = n"
        using n8 j [of "7 - n"] by simp_all
    qed
    then show "bit (pack_byte (unpack_bits bytes (8 * length bytes)) k) n = bit (bytes ! k) n"
      using n8 i by (simp add: bit_pack_byte unpack_bits_def bit_at_def shift_and_one)
  qed
  then show "pack_bits (unpack_bits bytes (8 * length bytes)) ! k = bytes ! k"
    using k by (simp add: pack_bits_def)
qed (simp add: pack_bits_def)

lemma length_pack_bits: "length (pack_bits bs) = (length bs + 7) div 8"
  by (simp add: pack_bits_def)

section \<open>Distance to a code word\<close>

text \<open>
  The distance of received soft symbols from a sequence of channel bits, the quantity the decoder
  minimises over the encoder's outputs.
\<close>

definition soft_dist :: "i8 list \<Rightarrow> nat list \<Rightarrow> nat \<Rightarrow> nat" where
  "soft_dist soft syms i = nat \<bar>sint (soft ! i) - (if syms ! i \<noteq> 0 then 127 else - 127)\<bar>"

definition soft_distance :: "i8 list \<Rightarrow> nat list \<Rightarrow> nat" where
  "soft_distance soft syms = (\<Sum>i < length syms. soft_dist soft syms i)"

lemma syms_cost_sum: "syms_cost w t ys = (\<Sum>i < length ys. w (t + i) (ys ! i))"
proof (induction ys arbitrary: t)
  case (Cons y ys)
  then show ?case by (simp del: sum.lessThan_Suc add: sum.lessThan_Suc_shift)
qed simp

lemma sum_pairs: "(\<Sum>i < 2 * n. f i) = (\<Sum>t < n. f (2 * t) + f (Suc (2 * t)))"
  for f :: "nat \<Rightarrow> nat"
  by (induction n) (auto simp: sum.lessThan_Suc)

lemma sym_cost_dist:
  assumes "t < length ys"
  shows "sym_cost soft t (ys ! t) =
    soft_dist soft (flat_syms ys) (2 * t) + soft_dist soft (flat_syms ys) (Suc (2 * t))"
proof -
  have "t * 2 = 2 * t" "t * 2 + 1 = Suc (2 * t)" by simp_all
  then show ?thesis
    by (simp only: sym_cost_def branch_metric_unat soft_dist_def nth_flat_syms [OF assms]
        nat_add_distrib [OF abs_ge_zero abs_ge_zero])
qed

lemma syms_cost_distance: "syms_cost (sym_cost soft) 0 ys = soft_distance soft (flat_syms ys)"
  by (simp add: syms_cost_sum soft_distance_def sum_pairs sym_cost_dist)

lemma path_cost_distance: "path_cost soft (unpack_bits bytes n) = soft_distance soft (viterbi_encode bytes n)"
  by (simp add: syms_cost_distance viterbi_encode_path)

lemma viterbi_decode_ml:
  assumes "510 * T < 0x7FFFFFFF" and "length soft = 2 * T"
    and "viterbi_decode (viterbi_init T) soft = (m, out)"
  shows "length out = (T + 7) div 8 \<and>
    unat m = soft_distance soft (viterbi_encode out T) \<and>
    (\<forall>cand. soft_distance soft (viterbi_encode out T) \<le> soft_distance soft (viterbi_encode cand T))"
proof -
  obtain bs where bs: "out = pack_bits bs" "length bs = T" "path_cost soft bs = unat m"
      "\<And>cs. length cs = T \<Longrightarrow> unat m \<le> path_cost soft cs"
    using viterbi_decode_path [OF assms(1,3)] by blast
  have "unpack_bits out T = bs" using bs(1,2) unpack_pack_bits [of bs] by simp
  then have m: "unat m = soft_distance soft (viterbi_encode out T)"
    using bs(3) path_cost_distance [of soft out T] by simp
  have "unat m \<le> soft_distance soft (viterbi_encode cand T)" for cand
    using bs(4) [of "unpack_bits cand T"] by (simp add: path_cost_distance)
  with m bs(1,2) show ?thesis by (simp add: length_pack_bits)
qed

section \<open>Hard decisions and the noiseless channel\<close>

text \<open>The soft symbol a noiseless channel delivers for a channel bit.\<close>

definition soft_sym :: "nat \<Rightarrow> i8" where
  "soft_sym y = (if y \<noteq> 0 then 127 else - 127)"

lemma sint_soft_sym [simp]: "sint (soft_sym y) = (if y \<noteq> 0 then 127 else - 127)"
  by (simp add: soft_sym_def)

lemma soft_dist_hard:
  "i < length soft \<Longrightarrow>
   soft_dist (map soft_sym soft) syms i = (if (soft ! i \<noteq> 0) = (syms ! i \<noteq> 0) then 0 else 254)"
  by (simp add: soft_dist_def)

lemma sum_filter_count:
  "(\<Sum>i < n. if P i then 0 else c) = c * length (filter (\<lambda>i. \<not> P i) [0..<n])" for c :: nat
  by (induction n) auto

lemma soft_distance_hard:
  assumes "length soft = length syms"
  shows "soft_distance (map soft_sym soft) syms =
    254 * length (filter (\<lambda>i. (soft ! i \<noteq> 0) \<noteq> (syms ! i \<noteq> 0)) [0..<length syms])"
  unfolding soft_distance_def sum_filter_count [symmetric]
  by (rule sum.cong [OF refl]) (use assms in \<open>simp add: soft_dist_hard\<close>)

lemma soft_distance_0_iff:
  "length soft = length syms \<Longrightarrow> soft_distance (map soft_sym soft) syms = 0 \<longleftrightarrow>
     (\<forall>i < length syms. (soft ! i \<noteq> 0) = (syms ! i \<noteq> 0))"
  by (auto simp: soft_distance_hard filter_empty_conv)

lemma flat_syms_range: "y \<in> set (flat_syms ys) \<Longrightarrow> y = 0 \<or> y = 1"
  by (auto simp: flat_syms_def and_one_eq)

lemma flat_syms_inj:
  assumes "flat_syms xs = flat_syms ys" and "\<forall>x \<in> set xs. x < 4" and "\<forall>y \<in> set ys. y < 4"
  shows "xs = ys"
proof -
  have dec: "y = drop_bit 1 y mod 2 * 2 + y mod 2" if "y < 4" for y :: nat
    using that by (simp add: drop_bit_eq_div)
  have "length xs = length ys" using assms(1) length_flat_syms [of xs] length_flat_syms [of ys] by simp
  then show ?thesis using assms
  proof (induction xs ys rule: list_induct2)
    case (Cons x xs y ys)
    have "drop_bit 1 x AND 1 = drop_bit 1 y AND 1" "x AND 1 = y AND 1" "flat_syms xs = flat_syms ys"
      using Cons.prems(1) by (simp_all add: flat_syms_def)
    with Cons dec [of x] dec [of y] show ?case by (simp add: and_one_eq)
  qed simp
qed

lemma path_syms_less: "s < 64 \<Longrightarrow> y \<in> set (path_syms next_state encode_sym s bs) \<Longrightarrow> y < 4"
proof (induction bs arbitrary: s)
  case (Cons b bs)
  then show ?case using Cons.IH [OF next_state_less [OF Cons.prems(1), of b]] encode_sym_less by auto
qed simp

text \<open>The code words of two different bit strings differ.\<close>

lemma viterbi_encode_inj:
  assumes "viterbi_encode xs n = viterbi_encode ys n"
  shows "unpack_bits xs n = unpack_bits ys n"
  using flat_syms_inj [OF assms [unfolded viterbi_encode_path]] path_syms_less [of 0]
    k7.path_syms_inj [of 0] by auto

text \<open>Decoding inverts encoding on a noiseless channel.\<close>

lemma viterbi_decode_encode:
  assumes "510 * (8 * length bytes) < 0x7FFFFFFF"
  shows "viterbi_decode (viterbi_init (8 * length bytes))
    (map soft_sym (viterbi_encode bytes (8 * length bytes))) = (0, bytes)"
proof -
  let ?T = "8 * length bytes"
  let ?code = "viterbi_encode bytes ?T"
  obtain m out where dec: "viterbi_decode (viterbi_init ?T) (map soft_sym ?code) = (m, out)" by fastforce
  have ml: "length out = (?T + 7) div 8"
      "unat m = soft_distance (map soft_sym ?code) (viterbi_encode out ?T)"
      "soft_distance (map soft_sym ?code) (viterbi_encode out ?T) \<le> soft_distance (map soft_sym ?code) ?code"
    using viterbi_decode_ml [OF assms _ dec] by auto
  have "soft_distance (map soft_sym ?code) ?code = 0" by (simp add: soft_distance_0_iff)
  with ml have zero: "soft_distance (map soft_sym ?code) (viterbi_encode out ?T) = 0" by simp
  have bit01: "\<And>xs i. i < 2 * ?T \<Longrightarrow> viterbi_encode xs ?T ! i = 0 \<or> viterbi_encode xs ?T ! i = 1"
    using flat_syms_range length_viterbi_encode viterbi_encode_path nth_mem by metis
  have "?code = viterbi_encode out ?T"
  proof (rule nth_equalityI)
    fix i assume "i < length ?code"
    then have i: "i < 2 * ?T" by simp
    with zero have "(?code ! i \<noteq> 0) = (viterbi_encode out ?T ! i \<noteq> 0)"
      by (simp add: soft_distance_0_iff)
    with bit01 [OF i, of bytes] bit01 [OF i, of out] show "?code ! i = viterbi_encode out ?T ! i"
      by auto
  qed simp
  then have "unpack_bits bytes ?T = unpack_bits out ?T" by (rule viterbi_encode_inj)
  moreover have "8 * length out = ?T" using ml(1) by simp
  ultimately have "out = bytes" using pack_unpack_bits [of out] pack_unpack_bits [of bytes] by metis
  moreover have "m = 0" using ml(2) zero by (simp add: unat_eq_0)
  ultimately show ?thesis using dec by simp
qed

section \<open>Linearity\<close>

lemma parity_xor: "parity (x XOR y) = parity x XOR parity y"
proof -
  define f where "f n a = a XOR drop_bit n a" for n and a :: u32
  have par: "parity a = unat (f 1 (f 2 (f 4 a)) AND 1)" for a
    by (simp add: parity_def Let_def f_def)
  have f: "f n (a XOR b) = f n a XOR f n b" for n a b
    by (simp add: f_def ac_simps)
  have "(a XOR b) AND 1 = (a AND 1) XOR (b AND 1)" for a b :: u32
    by (simp add: bit_eq_iff bit_simps) blast
  then show ?thesis by (simp only: par f unsigned_xor_eq)
qed

lemma parity_less: "parity x < 2"
proof -
  have "unat (a AND 1) \<le> unat (1 :: u32)" for a :: u32
    by (rule word_and_le1 [THEN word_le_nat_alt [THEN iffD1]])
  then show ?thesis unfolding parity_def Let_def by (rule le_less_trans) simp
qed

lemma parity_high_bit: "0 < n \<Longrightarrow> \<not> bit (parity x) n"
proof -
  assume "0 < n"
  moreover have "parity x = 0 \<or> parity x = 1" using parity_less [of x] by linarith
  ultimately show ?thesis by (elim disjE) (simp_all only: bit_1_iff, simp_all)
qed

lemma nat_less_64_bit: "s < (64::nat) \<longleftrightarrow> (\<forall>n \<ge> 6. \<not> bit s n)"
proof -
  have "s < 64 \<longleftrightarrow> drop_bit 6 s = 0" by (auto simp: drop_bit_eq_div div_eq_0_iff)
  also have "\<dots> \<longleftrightarrow> (\<forall>n. \<not> bit s (6 + n))" by (auto simp: bit_eq_iff bit_simps)
  also have "\<dots> \<longleftrightarrow> (\<forall>n \<ge> 6. \<not> bit s n)" by (metis le_add1 le_Suc_ex)
  finally show ?thesis .
qed

lemma xor_less_64: "s1 < 64 \<Longrightarrow> s2 < 64 \<Longrightarrow> s1 XOR s2 < (64::nat)"
  by (simp add: nat_less_64_bit bit_xor_iff)

lemma register_xor:
  assumes "s < 64"
  shows "push_bit 6 (of_bool b) OR (of_nat s :: u32) = push_bit 6 (of_bool b) XOR of_nat s"
  using assms by (auto simp: nat_less_64_bit bit_eq_iff bit_simps)

lemma of_bool_xor: "(of_bool (b1 \<noteq> b2) :: 'a :: ring_bit_operations) = of_bool b1 XOR of_bool b2"
  by (cases b1; cases b2) auto

lemma encode_sym_xor:
  assumes "s1 < 64" "s2 < 64"
  shows "encode_sym (s1 XOR s2) (b1 \<noteq> b2) = encode_sym s1 b1 XOR encode_sym s2 b2"
proof -
  let ?r = "\<lambda>s b. push_bit 6 (of_bool b) XOR (of_nat s :: u32)"
  let ?y = "\<lambda>r. push_bit 1 (parity (r AND G1)) XOR parity (r AND G2)"
  have sum: "push_bit 1 (parity u) OR parity v = push_bit 1 (parity u) XOR parity v" for u v
  proof (rule bit_eqI)
    fix n
    show "bit (push_bit 1 (parity u) OR parity v) n = bit (push_bit 1 (parity u) XOR parity v) n"
      using parity_high_bit [of n v]
      by (cases n) (simp_all only: bit_or_iff bit_xor_iff bit_push_bit_iff, auto)
  qed
  have enc: "encode_sym s b = ?y (?r s b)" if "s < 64" for s b
    unfolding encode_sym_def Let_def register_xor [OF that] sum ..
  have reg: "?r (s1 XOR s2) (b1 \<noteq> b2) = ?r s1 b1 XOR ?r s2 b2"
    unfolding of_nat_xor_eq of_bool_xor push_bit_xor by (simp only: ac_simps)
  have dist: "(u XOR v) AND g = (u AND g) XOR (v AND g)" for u v g :: u32
    by (auto simp: bit_eq_iff bit_simps)
  have "?y (u XOR v) = ?y u XOR ?y v" for u v
    unfolding dist parity_xor push_bit_xor by (simp only: ac_simps)
  then show ?thesis using assms by (simp only: enc xor_less_64 reg)
qed

lemma next_state_xor:
  assumes "s1 < 64" "s2 < 64"
  shows "next_state (s1 XOR s2) (b1 \<noteq> b2) = next_state s1 b1 XOR next_state s2 b2"
proof -
  have enc: "next_state s b = drop_bit 1 s XOR push_bit 5 (of_bool b)" if "s < 64" for s b
  proof -
    have "\<not> bit s (Suc n)" if "5 \<le> n" for n using \<open>s < 64\<close> that by (auto simp: nat_less_64_bit)
    then show ?thesis by (auto simp: next_state_def bit_eq_iff bit_simps)
  qed
  have ob: "(of_bool (b1 \<noteq> b2) :: nat) = of_bool b1 XOR of_bool b2" by (cases b1; cases b2) auto
  show ?thesis using assms
    by (simp only: enc xor_less_64 ob drop_bit_xor push_bit_xor) (simp only: ac_simps)
qed

section \<open>Column distance\<close>

definition sym_weight :: "nat \<Rightarrow> nat" where
  "sym_weight y = (drop_bit 1 y AND 1) + (y AND 1)"

fun twice :: "'a list \<Rightarrow> 'a list" where
  "twice [] = []"
| "twice (x # xs) = x # x # twice xs"

text \<open>The weights of the two output symbols of every state.\<close>

definition weights0 :: "nat list" where
  "weights0 =
    [0, 2, 1, 1, 2, 0, 1, 1, 2, 0, 1, 1, 0, 2, 1, 1, 0, 2, 1, 1, 2, 0, 1, 1, 2, 0, 1, 1, 0, 2, 1, 1,
     1, 1, 2, 0, 1, 1, 0, 2, 1, 1, 0, 2, 1, 1, 2, 0, 1, 1, 2, 0, 1, 1, 0, 2, 1, 1, 0, 2, 1, 1, 2, 0]"

definition weights1 :: "nat list" where
  "weights1 =
    [2, 0, 1, 1, 0, 2, 1, 1, 0, 2, 1, 1, 2, 0, 1, 1, 2, 0, 1, 1, 0, 2, 1, 1, 0, 2, 1, 1, 2, 0, 1, 1,
     1, 1, 0, 2, 1, 1, 2, 0, 1, 1, 2, 0, 1, 1, 0, 2, 1, 1, 0, 2, 1, 1, 2, 0, 1, 1, 2, 0, 1, 1, 0, 2]"

text \<open>From every state, the least weight of \<open>n\<close> further symbols.\<close>

definition col_step :: "nat list \<Rightarrow> nat list" where
  "col_step d = map2 min (map2 (+) weights0 (twice (take 32 d))) (map2 (+) weights1 (twice (drop 32 d)))"

definition col_dist :: "nat \<Rightarrow> nat list" where
  "col_dist n = (col_step ^^ n) (replicate 64 0)"

lemma length_twice [simp]: "length (twice xs) = 2 * length xs"
  by (induction xs) auto

lemma nth_twice: "i < 2 * length xs \<Longrightarrow> twice xs ! i = xs ! (i div 2)"
proof (induction xs arbitrary: i rule: twice.induct)
  case (2 x xs)
  then show ?case by (cases i; cases "i - 1") auto
qed simp

definition sym_weight4 :: "nat \<Rightarrow> nat" where
  "sym_weight4 y = (if y = 0 then 0 else if y = 3 then 2 else 1)"

lemma sym_weight_less_4: "y < 4 \<Longrightarrow> sym_weight y = sym_weight4 y"
  by (auto simp: sym_weight_def sym_weight4_def and_one_eq drop_bit_eq_div) presburger+

lemma weights_table:
  assumes "s < 64"
  shows "weights0 ! s = sym_weight (encode_sym s False)" "weights1 ! s = sym_weight (encode_sym s True)"
proof -
  have "list_all2 (\<lambda>s w. sym_weight4 (encode_sym s False) = w) [0..<64] weights0"
    "list_all2 (\<lambda>s w. sym_weight4 (encode_sym s True) = w) [0..<64] weights1" by code_simp+
  from this [THEN list_all2_nthD, of s] assms
  show "weights0 ! s = sym_weight (encode_sym s False)" "weights1 ! s = sym_weight (encode_sym s True)"
    by (simp_all add: sym_weight_less_4 encode_sym_less)
qed

lemma next_state_eq:
  assumes "s < 64"
  shows "next_state s b = s div 2 + (if b then 32 else 0)"
proof -
  have "\<forall>s < 64. next_state s False = s div 2 \<and> next_state s True = s div 2 + 32"
    unfolding all_less_64 by code_simp
  with assms show ?thesis by (cases b) auto
qed

lemma col_step_nth:
  assumes "s < 64" "length d = 64"
  shows "col_step d ! s \<le> sym_weight (encode_sym s b) + d ! next_state s b"
proof -
  have len: "length weights0 = 64" "length weights1 = 64" by (simp_all add: weights0_def weights1_def)
  have "s div 2 < 32" using assms by linarith
  with assms len have "col_step d ! s =
      min (sym_weight (encode_sym s False) + d ! next_state s False)
        (sym_weight (encode_sym s True) + d ! next_state s True)"
    by (simp add: col_step_def nth_twice weights_table next_state_eq add.commute)
  then show ?thesis by (cases b) auto
qed

lemma length_col_dist [simp]: "length (col_dist n) = 64"
  by (induction n) (simp_all add: col_dist_def col_step_def weights0_def weights1_def)

lemma col_dist_le:
  assumes "s < 64"
  shows "col_dist (length bs) ! s \<le> sum_list (map sym_weight (path_syms next_state encode_sym s bs))"
  using assms
proof (induction bs arbitrary: s)
  case Nil
  then show ?case by (simp add: col_dist_def)
next
  case (Cons b bs)
  have "col_dist (length (b # bs)) ! s \<le> sym_weight (encode_sym s b) + col_dist (length bs) ! next_state s b"
    using col_step_nth [OF Cons.prems length_col_dist] by (simp add: col_dist_def)
  also have "\<dots> \<le> sym_weight (encode_sym s b) +
      sum_list (map sym_weight (path_syms next_state encode_sym (next_state s b) bs))"
    by (rule add_left_mono) (rule Cons.IH [OF next_state_less [OF Cons.prems]])
  finally show ?case by simp
qed

lemma col_dist_20: "col_dist 20 ! 32 = 7"
proof -
  have step: "col_dist (Suc n) = col_step (col_dist n)" for n by (simp add: col_dist_def)
  note ev = col_step_def weights0_def weights1_def
  have 0: "col_dist 0 = replicate 64 0" by (simp add: col_dist_def)
  have "(20::nat) = Suc (Suc (Suc (Suc (Suc (Suc (Suc (Suc (Suc (Suc (Suc (Suc (Suc (Suc (Suc
    (Suc (Suc (Suc (Suc (Suc 0)))))))))))))))))))" by simp
  then show ?thesis by (simp only:) (simp add: step 0 ev numeral_eq_Suc)
qed

section \<open>Error correction\<close>

text \<open>The number of positions below \<open>n\<close> at which two bit sequences differ.\<close>

definition mismatches :: "nat list \<Rightarrow> nat list \<Rightarrow> nat \<Rightarrow> nat" where
  "mismatches xs ys n = length (filter (\<lambda>i. (xs ! i \<noteq> 0) \<noteq> (ys ! i \<noteq> 0)) [0..<n])"

lemma mismatches_sum: "mismatches xs ys n = (\<Sum>i < n. of_bool ((xs ! i \<noteq> 0) \<noteq> (ys ! i \<noteq> 0)))"
  by (induction n) (simp_all add: mismatches_def)

lemma mismatches_triangle: "mismatches xs zs n \<le> mismatches ys xs n + mismatches ys zs n"
  unfolding mismatches_sum sum.distrib [symmetric] by (rule sum_mono) auto

lemma sym_weight_xor:
  "sym_weight (a XOR b) = of_bool ((drop_bit 1 a AND 1 \<noteq> 0) \<noteq> (drop_bit 1 b AND 1 \<noteq> 0)) +
     of_bool ((a AND 1 \<noteq> 0) \<noteq> (b AND 1 \<noteq> 0))" for a b :: nat
proof -
  have "(u XOR v) AND 1 = of_bool ((u AND 1 \<noteq> 0) \<noteq> (v AND 1 \<noteq> 0))" for u v :: nat
    by (auto simp: and_one_eq even_xor_iff odd_iff_mod_2_eq_one mod2_eq_if)
  then show ?thesis by (simp only: sym_weight_def drop_bit_xor)
qed

lemma mismatches_flat_syms:
  "length xs = length ys \<Longrightarrow> mismatches (flat_syms xs) (flat_syms ys) (2 * length xs) =
     sum_list (map sym_weight (map2 (XOR) xs ys))"
  unfolding mismatches_sum sum_pairs
  by (simp add: nth_flat_syms sym_weight_xor sum_list_sum_nth atLeast0LessThan)

lemma path_syms_xor:
  assumes "length bs = length cs" "s1 < 64" "s2 < 64"
  shows "map2 (XOR) (path_syms next_state encode_sym s1 bs) (path_syms next_state encode_sym s2 cs) =
     path_syms next_state encode_sym (s1 XOR s2) (map2 (\<noteq>) bs cs)"
  using assms
proof (induction bs cs arbitrary: s1 s2 rule: list_induct2)
  case (Cons b bs c cs)
  have IH: "map2 (XOR) (path_syms next_state encode_sym (next_state s1 b) bs)
      (path_syms next_state encode_sym (next_state s2 c) cs) =
    path_syms next_state encode_sym (next_state s1 b XOR next_state s2 c) (map2 (\<noteq>) bs cs)"
    by (rule Cons.IH) (auto intro: next_state_less Cons.prems)
  show ?case using IH encode_sym_xor [OF Cons.prems, of b c] next_state_xor [OF Cons.prems, of b c] by simp
qed simp

text \<open>Two paths that part and go on for 20 more steps differ in at least nine channel symbols.\<close>

lemma diverging_paths:
  assumes "length bs = length cs" and "20 \<le> length bs" and "b \<noteq> c" and "s < 64"
  shows "9 \<le> sum_list (map sym_weight (map2 (XOR)
     (path_syms next_state encode_sym s (b # bs)) (path_syms next_state encode_sym s (c # cs))))"
proof -
  let ?ds = "map2 (\<noteq>) bs cs"
  let ?w = "\<lambda>s ds. sum_list (map sym_weight (path_syms next_state encode_sym s ds))"
  have first: "sym_weight (encode_sym 0 True) = 2" "next_state 0 True = 32" by code_simp+
  have ds: "?ds = take 20 ?ds @ drop 20 ?ds" by simp
  have "length (take 20 ?ds) = 20" using assms(1,2) by simp
  with col_dist_le [of 32 "take 20 ?ds"] col_dist_20 have "7 \<le> ?w 32 (take 20 ?ds)" by simp
  then have rest: "7 \<le> ?w 32 ?ds"
    by (subst ds) (simp only: path_syms_append map_append sum_list_append)
  have "map2 (XOR) (path_syms next_state encode_sym s (b # bs)) (path_syms next_state encode_sym s (c # cs)) =
      path_syms next_state encode_sym 0 (True # ?ds)"
    using path_syms_xor [of "b # bs" "c # cs" s s] assms by simp
  moreover have "?w 0 (True # ?ds) = 2 + ?w 32 ?ds" using first by simp
  ultimately show ?thesis using rest by simp
qed

lemma first_difference:
  assumes "length xs = length ys" and "i < length xs" and "xs ! i \<noteq> ys ! i"
  obtains p b bs c cs where "xs = p @ b # bs" "ys = p @ c # cs" "b \<noteq> c" "length p \<le> i"
proof -
  define k where "k = (LEAST k. xs ! k \<noteq> ys ! k)"
  have k: "xs ! k \<noteq> ys ! k" "k \<le> i" unfolding k_def using assms(3)
    by (rule LeastI [of "\<lambda>k. xs ! k \<noteq> ys ! k"], rule Least_le)
  have "\<And>j. j < k \<Longrightarrow> xs ! j = ys ! j" unfolding k_def using not_less_Least by blast
  then have "take k xs = take k ys" using assms k by (intro nth_equalityI) auto
  with k assms that [of "take k xs" "xs ! k" "drop (Suc k) xs" "ys ! k" "drop (Suc k) ys"]
  show ?thesis by (simp add: id_take_nth_drop [symmetric]) (metis id_take_nth_drop le_less_trans)
qed

lemma viterbi_decode_corrects:
  assumes "510 * T < 0x7FFFFFFF" and "length rx = 2 * T"
    and "mismatches rx (viterbi_encode bytes T) (2 * T) \<le> 4"
    and "viterbi_decode (viterbi_init T) (map soft_sym rx) = (m, out)"
    and "i + 21 \<le> T"
  shows "bit_at out i = bit_at bytes i"
proof (rule ccontr)
  assume "bit_at out i \<noteq> bit_at bytes i"
  moreover define xs ys where "xs = unpack_bits out T" and "ys = unpack_bits bytes T"
  ultimately have len: "length xs = T" "length ys = T" and "xs ! i \<noteq> ys ! i"
    using assms(5) by (simp_all add: unpack_bits_def)
  then obtain p b bs c cs where parts: "xs = p @ b # bs" "ys = p @ c # cs" "b \<noteq> c" "length p \<le> i"
  proof -
    have "length xs = length ys" "i < length xs" using len assms(5) by simp_all
    from first_difference [OF this \<open>xs ! i \<noteq> ys ! i\<close>] show thesis using that by blast
  qed
  let ?path = "path_syms next_state encode_sym"
  let ?s = "path_end next_state 0 p"
  have "20 \<le> length bs" "length bs = length cs" using parts len assms(5) by auto
  moreover have "?s < 64" by (rule k7.path_end_less) simp
  ultimately have "9 \<le> sum_list (map sym_weight (map2 (XOR) (?path ?s (b # bs)) (?path ?s (c # cs))))"
    using diverging_paths parts(3) by blast
  also have "\<dots> \<le> sum_list (map sym_weight (map2 (XOR) (?path 0 xs) (?path 0 ys)))"
    using parts(1,2) by (simp del: path_syms.simps add: zip_append1)
  also have "\<dots> = mismatches (viterbi_encode out T) (viterbi_encode bytes T) (2 * T)"
    using mismatches_flat_syms [of "?path 0 xs" "?path 0 ys"] len
    by (simp add: viterbi_encode_path xs_def ys_def)
  also have "\<dots> \<le> mismatches rx (viterbi_encode out T) (2 * T) + mismatches rx (viterbi_encode bytes T) (2 * T)"
    by (rule mismatches_triangle)
  finally have "5 \<le> mismatches rx (viterbi_encode out T) (2 * T)" using assms(3) by simp
  moreover have "mismatches rx (viterbi_encode out T) (2 * T) \<le> mismatches rx (viterbi_encode bytes T) (2 * T)"
    using viterbi_decode_ml [OF assms(1) _ assms(4)] assms(2)
    by (auto simp: soft_distance_hard mismatches_def)
  ultimately show False using assms(3) by simp
qed

section \<open>Properties\<close>

text \<open>
  C8: the decoder is a maximum-likelihood decoder.  For every block of \<open>T\<close> bits whose metrics fit
  below \<open>0x7FFFFFFF\<close> it returns \<open>(T + 7) / 8\<close> bytes, its metric is the distance of the soft
  symbols from the encoding of these bytes, and no other bytes have an encoding that is closer.
\<close>

theorem viterbi_maximum_likelihood:
  assumes "510 * T < 0x7FFFFFFF" and "length soft = 2 * T"
    and "viterbi_decode (viterbi_init T) soft = (m, out)"
  shows "length out = (T + 7) div 8 \<and>
    unat m = soft_distance soft (viterbi_encode out T) \<and>
    (\<forall>cand. soft_distance soft (viterbi_encode out T) \<le> soft_distance soft (viterbi_encode cand T))"
  using viterbi_decode_ml [OF assms] .

theorem viterbi_maximum_likelihood_witness:
  "let (m, out) = viterbi_decode (viterbi_init 2) [100, - 3, - 128, 5]
   in length out = 1 \<and>
     soft_distance [100, - 3, - 128, 5] (viterbi_encode out 2) \<le>
     soft_distance [100, - 3, - 128, 5] (viterbi_encode [0x80] 2)"
proof -
  obtain m out where dec: "viterbi_decode (viterbi_init 2) [100, - 3, - 128, 5] = (m, out)"
    by fastforce
  show ?thesis using viterbi_maximum_likelihood [OF _ _ dec] by (simp add: dec)
qed

text \<open>
  C12: decoding the noiseless soft symbols of an encoded message returns the message, at metric 0.
\<close>

theorem viterbi_roundtrip:
  assumes "510 * (8 * length bytes) < 0x7FFFFFFF"
  shows "viterbi_decode (viterbi_init (8 * length bytes))
    (map soft_sym (viterbi_encode bytes (8 * length bytes))) = (0, bytes)"
  using assms by (rule viterbi_decode_encode)

theorem viterbi_roundtrip_witness:
  "viterbi_decode (viterbi_init (8 * length [0xAA :: u8, 0x55]))
    (map soft_sym (viterbi_encode [0xAA, 0x55] (8 * length [0xAA :: u8, 0x55]))) = (0, [0xAA, 0x55])"
  by (rule viterbi_roundtrip) simp

text \<open>
  C9: error correction.  When at most four channel symbols of an encoded message of \<open>T\<close> bits
  are inverted, wherever they are, all decoded bits but the last 20 are the bits sent.
\<close>

theorem viterbi_corrects_errors:
  assumes "510 * T < 0x7FFFFFFF" and "length rx = 2 * T"
    and "mismatches rx (viterbi_encode bytes T) (2 * T) \<le> 4"
    and "i + 21 \<le> T"
  shows "bit_at (snd (viterbi_decode (viterbi_init T) (map soft_sym rx))) i = bit_at bytes i"
  using viterbi_decode_corrects [OF assms(1,2,3) surjective_pairing assms(4)] .

text \<open>Four inverted symbols (0, 1, 2 and 4) in the encoding of three bytes.\<close>

theorem viterbi_corrects_errors_witness:
  "bit_at (snd (viterbi_decode (viterbi_init 24) (map soft_sym
     (let c = viterbi_encode [0xB4, 0x01, 0xFF] 24
      in [1 - c ! 0, 1 - c ! 1, 1 - c ! 2, c ! 3, 1 - c ! 4] @ drop 5 c)))) 0"
proof -
  let ?c = "viterbi_encode [0xB4, 0x01, 0xFF] 24"
  let ?rx = "let c = ?c in [1 - c ! 0, 1 - c ! 1, 1 - c ! 2, c ! 3, 1 - c ! 4] @ drop 5 c"
  have len: "length ?rx = 2 * 24" by (simp add: Let_def)
  have mis: "mismatches ?rx ?c (2 * 24) \<le> 4" by code_simp
  have "bit_at [0xB4, 0x01, 0xFF] 0" by code_simp
  with viterbi_corrects_errors [OF _ len mis, of 0] show ?thesis by simp
qed

end
