(* ===== verification/StdcTables.thy ===== *)
theory StdcTables
  imports Prelude
begin

text \<open>
  The lookup tables of \<open>stdc_decode.c\<close> (satellites, land earth stations, descriptors, address
  lengths) and the message type \<open>stdc_message_t\<close> that the decoder hands to its callback.
\<close>

section \<open>Names\<close>

definition get_sat_name :: "int \<Rightarrow> string" where
  "get_sat_name sat =
     (if sat = 0 then ''AOR-W'' else if sat = 1 then ''AOR-E'' else if sat = 2 then ''POR''
      else if sat = 3 then ''IOR'' else if sat = 9 then ''All Regions'' else ''Unknown'')"

definition get_les_name :: "int \<Rightarrow> int \<Rightarrow> string" where
  "get_les_name sat les_id =
     (let v = les_id + sat * 100
      in if v \<in> set [1, 101, 201, 301] then ''Vizada-Telenor, USA''
         else if v \<in> set [2, 102, 302] then ''Stratos Global (Burum-2), Netherlands''
         else if v = 202 then ''Stratos Global (Auckland), New Zealand''
         else if v \<in> set [3, 103, 203, 303] then ''KDDI, Japan''
         else if v \<in> set [4, 104, 204, 304] then ''Vizada-Telenor, Norway''
         else if v \<in> set [44, 144, 244, 344] then ''NCS''
         else if v \<in> set [105, 335] then ''Telecom, Italy''
         else if v \<in> set [305, 120] then ''OTESTAT, Greece''
         else if v = 306 then ''VSNL, India''
         else if v \<in> set [110, 310] then ''Turk Telecom, Turkey''
         else if v \<in> set [211, 311] then ''Beijing MCN, China''
         else if v \<in> set [12, 112, 212, 312] then ''Stratos Global (Burum), Netherlands''
         else if v = 114 then ''Embratel, Brazil''
         else if v \<in> set [116, 316] then ''TP, Poland''
         else if v \<in> set [117, 217, 317] then ''Morsviazsputnik, Russia''
         else if v \<in> set [21, 121, 221, 321] then ''Vizada (FT), France''
         else if v \<in> set [127, 327] then ''Bezeq, Israel''
         else if v \<in> set [210, 328] then ''Singapore Telecom, Singapore''
         else if v = 330 then ''VISHIPEL, Vietnam''
         else ''Unknown'')"

definition get_service_name :: "int \<Rightarrow> string" where
  "get_service_name code =
     (if code = 0x00 then ''All ships''
      else if code = 0x02 then ''FleetNET group call''
      else if code = 0x04 then ''SafetyNET rect area warning''
      else if code = 0x11 then ''Inmarsat system message''
      else if code = 0x13 then ''Coastal warning''
      else if code = 0x14 then ''Distress alert (circular)''
      else if code = 0x23 then ''EGC system message''
      else if code = 0x24 then ''SafetyNET circular area warning''
      else if code = 0x31 then ''NAVAREA/METAREA warning''
      else if code = 0x33 then ''Download group identity''
      else if code = 0x34 then ''SAR coordination (rect)''
      else if code = 0x44 then ''SAR coordination (circular)''
      else if code = 0x72 then ''FleetNET chart correction''
      else if code = 0x73 then ''SafetyNET chart correction''
      else ''Unknown'')"

definition get_priority_name :: "int \<Rightarrow> string" where
  "get_priority_name p =
     (if p = 0 then ''Routine'' else if p = 1 then ''Safety'' else if p = 2 then ''Urgency''
      else if p = 3 then ''Distress'' else ''Unknown'')"

definition get_address_length :: "int \<Rightarrow> int" where
  "get_address_length msg_type =
     (if msg_type = 0x00 then 3
      else if msg_type \<in> set [0x11, 0x31] then 4
      else if msg_type \<in> set [0x02, 0x72] then 5
      else if msg_type \<in> set [0x13, 0x23, 0x33, 0x73] then 6
      else if msg_type \<in> set [0x04, 0x14, 0x24, 0x34, 0x44] then 7
      else 3)"

definition get_descriptor_name :: "int \<Rightarrow> string" where
  "get_descriptor_name d =
     (if d = 0x08 then ''Ack Request''
      else if d = 0x27 then ''Channel Clear''
      else if d = 0x2A then ''Message Ack''
      else if d = 0x6C then ''Signalling Channel''
      else if d = 0x7D then ''Bulletin Board''
      else if d = 0x81 then ''Announcement''
      else if d = 0x83 then ''Channel Assignment''
      else if d = 0x91 then ''Distress Alert Ack''
      else if d = 0x92 then ''Login Ack''
      else if d = 0x9A then ''Data Report Ack''
      else if d = 0xA0 then ''Distress Test Request''
      else if d = 0xA3 then ''Individual Poll''
      else if d = 0xA8 then ''Confirmation''
      else if d = 0xAA then ''Message''
      else if d = 0xAB then ''LES List''
      else if d = 0xAC then ''Request Status''
      else if d = 0xAD then ''Test Result''
      else if d = 0xB1 then ''EGC Part 1''
      else if d = 0xB2 then ''EGC Part 2''
      else if d = 0xBD then ''Multiframe Start''
      else if d = 0xBE then ''Multiframe Continue''
      else ''Unknown'')"

section \<open>Messages\<close>

datatype stdc_msg_type =
    STDC_MSG_EGC_SINGLE | STDC_MSG_EGC_DOUBLE_1 | STDC_MSG_EGC_DOUBLE_2 | STDC_MSG_ANNOUNCEMENT
  | STDC_MSG_BULLETIN | STDC_MSG_DISTRESS_ACK | STDC_MSG_MESSAGE_DATA | STDC_MSG_NET_UPDATE
  | STDC_MSG_MULTIFRAME_START | STDC_MSG_MULTIFRAME_CONT | STDC_MSG_CHANNEL_CLEAR
  | STDC_MSG_ACK_REQUEST | STDC_MSG_MSG_ACK | STDC_MSG_CHAN_ASSIGNMENT | STDC_MSG_LOGIN_ACK
  | STDC_MSG_INDIVIDUAL_POLL | STDC_MSG_CONFIRMATION | STDC_MSG_LES_LIST

text \<open>
  Frequencies are kept in ten-thousandths of a MHz, which represents every value the code
  computes exactly; \<open>text\<close> is the \<open>text_len\<close> bytes of the text buffer; \<open>lat\<close> and \<open>lon\<close> are
  \<^const>\<open>None\<close> for NaN; a name that is never set is a null pointer, \<^const>\<open>None\<close>.
\<close>

record stdc_message =
  msg_type :: stdc_msg_type
  descriptor :: int
  sat_id :: int
  les_id :: int
  sat_name :: "string option"
  les_name :: "string option"
  service_code :: int
  priority :: int
  repetition :: int
  message_id :: int
  continuation :: int
  packet_no :: int
  logical_channel :: int
  uplink_mhz :: int
  downlink_mhz :: int
  mes_id :: int
  presentation :: int
  frame_number :: int
  msg_text :: string
  lat :: "int option"
  lon :: "int option"
  has_position :: bool
  timestamp :: nat
  crc_ok :: bool

text \<open>The \<open>memset\<close> and the first assignments that every packet decoder starts with.\<close>

definition new_message :: "stdc_msg_type \<Rightarrow> int \<Rightarrow> stdc_message" where
  "new_message ty desc =
     \<lparr>msg_type = ty, descriptor = desc, sat_id = 0, les_id = 0, sat_name = None, les_name = None,
      service_code = 0, priority = 0, repetition = 0, message_id = 0, continuation = 0,
      packet_no = 0, logical_channel = 0, uplink_mhz = 0, downlink_mhz = 0, mes_id = 0,
      presentation = 0, frame_number = 0, msg_text = [], lat = None, lon = None,
      has_position = False, timestamp = 0, crc_ok = True\<rparr>"

lemma get_address_length_range: "3 \<le> get_address_length t \<and> get_address_length t \<le> 7"
  by (simp add: get_address_length_def)

lemma length_get_sat_name: "length (get_sat_name s) \<le> 11"
  by (simp add: get_sat_name_def)

lemma length_get_les_name: "length (get_les_name s l) \<le> 38"
  by (simp add: get_les_name_def Let_def)

end
