(* ===== verification/StdcPacket.thy ===== *)
theory StdcPacket
  imports StdcTables
begin

text \<open>
  The packet layer of \<open>stdc_decode.c\<close>: packet length, Fletcher checksum, text extraction and the
  twelve stateless packet decoders.  A decoder takes the frame, the position and length of the
  packet and returns the messages it emits; \<^const>\<open>None\<close> is a read outside the frame buffer.
\<close>

unbundle bit_operations_syntax

section \<open>Multi-byte reads\<close>

definition rd16 :: "u8 list \<Rightarrow> int \<Rightarrow> int option" where
  "rd16 buf i = do { a \<leftarrow> rd buf i; b \<leftarrow> rd buf (i + 1); Some (push_bit 8 a OR b) }"

definition rd24 :: "u8 list \<Rightarrow> int \<Rightarrow> int option" where
  "rd24 buf i = do {
     a \<leftarrow> rd buf i; b \<leftarrow> rd buf (i + 1); c \<leftarrow> rd buf (i + 2);
     Some (push_bit 16 a OR push_bit 8 b OR c) }"

definition uplink_of :: "int \<Rightarrow> int" where
  "uplink_of n = (n - 6000) * 25 + 16265000"

definition downlink_of :: "int \<Rightarrow> int" where
  "downlink_of n = (n - 8000) * 25 + 15305000"

definition set_station :: "int \<Rightarrow> stdc_message \<Rightarrow> stdc_message" where
  "set_station b m =
     (let sat = drop_bit 6 b AND 0x03; les = b AND 0x3F
      in m\<lparr>sat_id := sat, les_id := les, sat_name := Some (get_sat_name sat),
           les_name := Some (get_les_name sat les)\<rparr>)"

text \<open>A \<open>%s\<close> of a name; glibc prints a null pointer as \<open>(null)\<close>.\<close>

definition name_str :: "string option \<Rightarrow> string" where
  "name_str n = (case n of None \<Rightarrow> ''(null)'' | Some s \<Rightarrow> s)"

section \<open>Packet length and checksum\<close>

definition get_packet_length :: "u8 list \<Rightarrow> int \<Rightarrow> int \<Rightarrow> int option" where
  "get_packet_length frame pos frame_len = do {
     desc \<leftarrow> rd frame pos;
     if drop_bit 7 desc = 0 then Some ((desc AND 0x0F) + 1)
     else if drop_bit 6 desc = 0x02 then
       (if frame_len \<le> pos + 1 then Some (frame_len - pos)
        else do { n \<leftarrow> rd frame (pos + 1); Some (n + 2) })
     else Some (frame_len - pos) }"

text \<open>The running sums \<open>c0\<close>, \<open>c1\<close> of type \<open>short\<close>; the last two bytes count as zero.\<close>

fun crc_loop :: "u8 list \<Rightarrow> int \<Rightarrow> int \<Rightarrow> int \<Rightarrow> nat \<Rightarrow> 16 word \<times> 16 word \<Rightarrow> (16 word \<times> 16 word) option" where
  "crc_loop data pos len i 0 cs = Some cs"
| "crc_loop data pos len i (Suc n) (c0, c1) = do {
     b \<leftarrow> (if i < len - 2 then rd data (pos + i) else Some 0);
     let c0' = c0 + of_int b;
     crc_loop data pos len (i + 1) n (c0', c1 + c0') }"

definition compute_crc :: "u8 list \<Rightarrow> int \<Rightarrow> int \<Rightarrow> int option" where
  "compute_crc data pos len = do {
     (c0, c1) \<leftarrow> crc_loop data pos len 0 (nat len) (0, 0);
     let cb1 = (ucast (c0 - c1) :: u8);
     let cb2 = (ucast (c1 - 2 * c0) :: u8);
     Some (push_bit 8 (uint cb1) OR uint cb2) }"

section \<open>Text\<close>

text \<open>
  \<open>extract_ia5_text\<close>: \<open>n\<close> bytes from \<open>data[i]\<close> into a buffer with room for \<open>room\<close> characters.
\<close>

fun ia5_loop :: "u8 list \<Rightarrow> int \<Rightarrow> nat \<Rightarrow> nat \<Rightarrow> string option" where
  "ia5_loop data i 0 room = Some []"
| "ia5_loop data i (Suc n) room =
     (if room = 0 then Some [] else do {
        b \<leftarrow> rd data i;
        let c = b AND 0x7F;
        if 0x20 \<le> c \<or> c = 10 \<or> c = 13 \<or> c = 9 then do {
          s \<leftarrow> ia5_loop data (i + 1) n (room - 1);
          Some (char_of (nat c) # s) }
        else if c = 0x03 then Some []
        else ia5_loop data (i + 1) n room })"

definition extract_ia5_text :: "nat \<Rightarrow> u8 list \<Rightarrow> int \<Rightarrow> int \<Rightarrow> string option" where
  "extract_ia5_text max_out data start len = ia5_loop data start (nat len) (max_out - 1)"

text \<open>The text loop of \<open>decode_individual_poll\<close> and \<open>decode_confirmation\<close>: no tab, no ETX.\<close>

fun short_text_loop :: "u8 list \<Rightarrow> int \<Rightarrow> nat \<Rightarrow> nat \<Rightarrow> string option" where
  "short_text_loop data i 0 room = Some []"
| "short_text_loop data i (Suc n) room =
     (if room = 0 then Some [] else do {
        b \<leftarrow> rd data i;
        let c = b AND 0x7F;
        s \<leftarrow> short_text_loop data (i + 1) n
              (if 0x20 \<le> c \<or> c = 10 \<or> c = 13 then room - 1 else room);
        Some (if 0x20 \<le> c \<or> c = 10 \<or> c = 13 then char_of (nat c) # s else s) })"

section \<open>Packet decoders\<close>

definition decode_channel_clear :: "u8 list \<Rightarrow> int \<Rightarrow> int \<Rightarrow> stdc_message list option" where
  "decode_channel_clear frame pos pkt_len =
     (if pkt_len < 8 then Some [] else do {
        mes \<leftarrow> rd24 frame (pos + 1);
        st \<leftarrow> rd frame (pos + 4);
        ch \<leftarrow> rd frame (pos + 5);
        let m = set_station st (new_message STDC_MSG_CHANNEL_CLEAR 0x27)
                  \<lparr>mes_id := mes, logical_channel := ch\<rparr>;
        Some [m\<lparr>msg_text := snprintf 4096
          (''Channel Clear: MES='' @ int_str mes @ '' LES='' @ name_str (les_name m) @
           '' ch='' @ int_str ch)\<rparr>] })"

definition decode_msg_ack :: "u8 list \<Rightarrow> int \<Rightarrow> int \<Rightarrow> stdc_message list option" where
  "decode_msg_ack frame pos pkt_len =
     (if pkt_len < 9 then Some [] else do {
        mes \<leftarrow> rd24 frame (pos + 1);
        st \<leftarrow> rd frame (pos + 4);
        ch \<leftarrow> rd frame (pos + 5);
        let m = set_station st (new_message STDC_MSG_MSG_ACK 0x2A)
                  \<lparr>mes_id := mes, logical_channel := ch\<rparr>;
        Some [m\<lparr>msg_text := snprintf 4096
          (''Message Ack: MES='' @ int_str mes @ '' LES='' @ name_str (les_name m) @
           '' ch='' @ int_str ch)\<rparr>] })"

definition decode_ack_request :: "u8 list \<Rightarrow> int \<Rightarrow> int \<Rightarrow> stdc_message list option" where
  "decode_ack_request frame pos pkt_len =
     (if pkt_len < 6 then Some [] else do {
        st \<leftarrow> rd frame (pos + 1);
        ch \<leftarrow> rd frame (pos + 2);
        up \<leftarrow> rd16 frame (pos + 3);
        let m = set_station st (new_message STDC_MSG_ACK_REQUEST 0x08)
                  \<lparr>logical_channel := ch, uplink_mhz := uplink_of up\<rparr>;
        Some [m\<lparr>msg_text := snprintf 4096
          (''Ack Request: LES='' @ name_str (les_name m) @ '' ch='' @ int_str ch @
           '' uplink='' @ fix4_str (uplink_mhz m) @ '' MHz'')\<rparr>] })"

definition decode_signalling :: "u8 list \<Rightarrow> int \<Rightarrow> int \<Rightarrow> stdc_message list option" where
  "decode_signalling frame pos pkt_len =
     (if pkt_len < 11 then Some [] else do {
        up \<leftarrow> rd16 frame (pos + 2);
        let m = new_message STDC_MSG_NET_UPDATE 0x6C\<lparr>uplink_mhz := uplink_of up\<rparr>;
        Some [m\<lparr>msg_text := snprintf 4096
          (''Signalling Channel: uplink='' @ fix4_str (uplink_mhz m) @ '' MHz'')\<rparr>] })"

text \<open>
  The frame's time of day: \<open>frame_number * 8.64\<close> seconds, truncated to hours, minutes, seconds.
\<close>

definition bulletin_time :: "int \<Rightarrow> int \<times> int \<times> int" where
  "bulletin_time frame_no =
     (let ts = frame_no * 864 div 100
      in (frame_no * 864 div 360000, ts mod 3600 div 60, ts mod 60))"

definition decode_bulletin_board :: "u8 list \<Rightarrow> int \<Rightarrow> int \<Rightarrow> stdc_message list option" where
  "decode_bulletin_board frame pos pkt_len =
     (if pkt_len < 14 then Some [] else do {
        nv \<leftarrow> rd frame (pos + 1);
        fn \<leftarrow> rd16 frame (pos + 2);
        let (ts_h, ts_m, ts_s) = bulletin_time fn;
        st \<leftarrow> rd frame (pos + 7);
        let m = set_station st (new_message STDC_MSG_BULLETIN 0x7D)\<lparr>frame_number := fn\<rparr>;
        Some [m\<lparr>msg_text := snprintf 4096
          (''Bulletin Board: LES='' @ name_str (les_name m) @ '' sat='' @ name_str (sat_name m) @
           '' frame='' @ int_str fn @ '' time='' @ pad_str 2 ts_h @ '':'' @ pad_str 2 ts_m @ '':'' @
           pad_str 2 ts_s @ '' ver='' @ int_str nv @ '' ['' @ get_descriptor_name 0x7D @ '']'')\<rparr>] })"

definition decode_announcement :: "u8 list \<Rightarrow> int \<Rightarrow> int \<Rightarrow> stdc_message list option" where
  "decode_announcement frame pos pkt_len =
     (if pkt_len < 17 then Some [] else do {
        mes \<leftarrow> rd24 frame (pos + 2);
        st \<leftarrow> rd frame (pos + 5);
        ch \<leftarrow> rd frame (pos + 9);
        dl \<leftarrow> rd16 frame (pos + 6);
        pres \<leftarrow> rd frame (pos + 14);
        let m = set_station st (new_message STDC_MSG_ANNOUNCEMENT 0x81)
                  \<lparr>mes_id := mes, logical_channel := ch, downlink_mhz := downlink_of dl,
                   presentation := pres\<rparr>;
        Some [m\<lparr>msg_text := snprintf 4096
          (''Announcement: MES='' @ int_str mes @ '' LES='' @ name_str (les_name m) @
           '' ch='' @ int_str ch @ '' downlink='' @ fix4_str (downlink_mhz m) @
           '' MHz pres='' @ int_str pres)\<rparr>] })"

definition decode_chan_assignment :: "u8 list \<Rightarrow> int \<Rightarrow> int \<Rightarrow> stdc_message list option" where
  "decode_chan_assignment frame pos pkt_len =
     (if pkt_len < 16 then Some [] else do {
        mes \<leftarrow> rd24 frame (pos + 2);
        st \<leftarrow> rd frame (pos + 5);
        ch \<leftarrow> rd frame (pos + 7);
        dl \<leftarrow> rd16 frame (pos + 10);
        up \<leftarrow> rd16 frame (pos + 12);
        let m = set_station st (new_message STDC_MSG_CHAN_ASSIGNMENT 0x83)
                  \<lparr>mes_id := mes, logical_channel := ch, downlink_mhz := downlink_of dl,
                   uplink_mhz := uplink_of up\<rparr>;
        Some [m\<lparr>msg_text := snprintf 4096
          (''Channel Assignment: MES='' @ int_str mes @ '' LES='' @ name_str (les_name m) @
           '' ch='' @ int_str ch @ '' down='' @ fix4_str (downlink_mhz m) @
           '' up='' @ fix4_str (uplink_mhz m) @ '' MHz'')\<rparr>] })"

definition decode_login_ack :: "u8 list \<Rightarrow> int \<Rightarrow> int \<Rightarrow> stdc_message list option" where
  "decode_login_ack frame pos pkt_len =
     (if pkt_len < 8 then Some [] else do {
        dl \<leftarrow> rd16 frame (pos + 5);
        let m = new_message STDC_MSG_LOGIN_ACK 0x92\<lparr>downlink_mhz := downlink_of dl\<rparr>;
        Some [m\<lparr>msg_text := snprintf 4096
          (''Login Ack: downlink='' @ fix4_str (downlink_mhz m) @ '' MHz'')\<rparr>] })"

definition decode_individual_poll :: "u8 list \<Rightarrow> int \<Rightarrow> int \<Rightarrow> stdc_message list option" where
  "decode_individual_poll frame pos pkt_len =
     (if pkt_len < 8 then Some [] else do {
        mes \<leftarrow> rd24 frame (pos + 2);
        st \<leftarrow> rd frame (pos + 5);
        let m = set_station st (new_message STDC_MSG_INDIVIDUAL_POLL 0xA3)\<lparr>mes_id := mes\<rparr>;
        t \<leftarrow> (if 38 \<le> pkt_len then short_text_loop frame (pos + 13) (nat (pkt_len - 15)) 4095
              else Some (snprintf 4096
                (''Individual Poll: MES='' @ int_str mes @ '' LES='' @ name_str (les_name m))));
        Some [m\<lparr>msg_text := t\<rparr>] })"

definition decode_confirmation :: "u8 list \<Rightarrow> int \<Rightarrow> int \<Rightarrow> stdc_message list option" where
  "decode_confirmation frame pos pkt_len =
     (if pkt_len < 9 then Some [] else do {
        mes \<leftarrow> rd24 frame (pos + 2);
        st \<leftarrow> rd frame (pos + 5);
        let m = set_station st (new_message STDC_MSG_CONFIRMATION 0xA8)\<lparr>mes_id := mes\<rparr>;
        sm_len \<leftarrow> rd frame (pos + 9);
        t \<leftarrow> (if 2 < sm_len \<and> pos + 11 < pos + pkt_len - 2
              then short_text_loop frame (pos + 11) (nat (pkt_len - 13)) 4095
              else Some (snprintf 4096
                (''Confirmation: MES='' @ int_str mes @ '' LES='' @ name_str (les_name m))));
        Some [m\<lparr>msg_text := t\<rparr>] })"

definition decode_message :: "u8 list \<Rightarrow> int \<Rightarrow> int \<Rightarrow> stdc_message list option" where
  "decode_message frame pos pkt_len =
     (if pkt_len < 7 then Some [] else do {
        st \<leftarrow> rd frame (pos + 2);
        ch \<leftarrow> rd frame (pos + 3);
        no \<leftarrow> rd frame (pos + 4);
        let m = set_station st (new_message STDC_MSG_MESSAGE_DATA 0xAA)
                  \<lparr>logical_channel := ch, packet_no := no\<rparr>;
        let payload_len = (if pkt_len - 5 - 2 < 0 then 0 else pkt_len - 5 - 2);
        t \<leftarrow> extract_ia5_text 4096 frame (pos + 5) payload_len;
        Some (if 0 < length t then [m\<lparr>msg_text := t\<rparr>] else []) })"

text \<open>
  One \<open>tlen += snprintf(text + tlen, sizeof(text) - tlen, ...)\<close>.  \<open>tlen\<close> counts the characters
  that were to be written; beyond the end of the buffer the size wraps around and the
  write is out of bounds.
\<close>

definition append_text :: "string \<times> nat \<Rightarrow> string \<Rightarrow> (string \<times> nat) option" where
  "append_text tt s =
     (let (t, tlen) = tt
      in if 4096 < tlen then None else Some (t @ snprintf (4096 - tlen) s, tlen + length s))"

fun les_list_loop :: "u8 list \<Rightarrow> int \<Rightarrow> int \<Rightarrow> nat \<Rightarrow> string \<times> nat \<Rightarrow> (string \<times> nat) option" where
  "les_list_loop frame limit j 0 tt = Some tt"
| "les_list_loop frame limit j (Suc n) tt =
     (if j + 5 < limit then do {
        b \<leftarrow> rd frame j;
        let sat = drop_bit 6 b AND 0x03;
        let lid = b AND 0x3F;
        dl \<leftarrow> rd16 frame (j + 4);
        tt' \<leftarrow> append_text tt ('' '' @ get_sat_name sat @ ''/'' @ get_les_name sat lid @
                 ''@'' @ fix4_str (downlink_of dl));
        les_list_loop frame limit (j + 6) n tt' }
      else Some tt)"

definition decode_les_list :: "u8 list \<Rightarrow> int \<Rightarrow> int \<Rightarrow> stdc_message list option" where
  "decode_les_list frame pos pkt_len =
     (if pkt_len < 6 then Some [] else do {
        station_count \<leftarrow> rd frame (pos + 3);
        tt \<leftarrow> append_text ([], 0) (''LES List ('' @ int_str station_count @ '' stations):'');
        (t, tlen) \<leftarrow> les_list_loop frame (pos + pkt_len - 2) (pos + 4) (nat station_count) tt;
        (if 4096 \<le> tlen then None
         else Some [new_message STDC_MSG_LES_LIST 0xAB\<lparr>msg_text := t\<rparr>]) })"

end
