(* ===== verification/StdcEgc.thy ===== *)
theory StdcEgc
  imports StdcPacket
begin

text \<open>
  The state of the STD-C decoder (\<open>struct stdc_decoder\<close>) and the reassembly of EGC messages:
  sixteen slots found by message id, filled by the 0xB1 and 0xB2 packets and
  emitted when the last part of a message arrives.
\<close>

unbundle bit_operations_syntax

section \<open>State\<close>

record multiframe_state =
  mf_active :: bool
  mf_data :: "u8 list" \<comment> \<open>4096 bytes\<close>
  mf_total_len :: int
  mf_filled :: int

record egc_reassembly =
  egc_active :: bool
  egc_message_id :: int
  egc_presentation :: int
  egc_service_code :: int
  egc_priority :: int
  egc_repetition :: int
  parts :: "u8 list" \<comment> \<open>8192 bytes, 128 for each part\<close>
  part_lens :: "int list" \<comment> \<open>64 entries\<close>
  max_pkt_no :: int
  complete :: bool
  last_seen :: int

text \<open>
  \<open>struct stdc_decoder\<close>, with the process-wide statistics counters, the messages handed to the
  callback so far, and the number of calls of \<open>time\<close>; the \<open>n\<close>-th call returns \<open>clk n\<close>,
  where \<open>clk\<close> is a parameter of the operations.
\<close>

record stdc_decoder =
  shift_reg :: "i8 list" \<comment> \<open>10368 soft bits\<close>
  shift_pos :: int
  synced :: bool
  frame_count :: int
  depermuted :: "i8 list"
  deinterleaved :: "i8 list"
  decoded :: "u8 list" \<comment> \<open>640 bytes\<close>
  mfp :: multiframe_state
  egc_slots :: "egc_reassembly list"
  stat_crc_ok :: u64
  stat_crc_fail :: u64
  stat_frames :: u64
  stat_ber_sum :: u64
  stat_ber_count :: u64
  stat_synced :: bool
  time_calls :: nat
  emitted :: "stdc_message list"

definition emit_message :: "stdc_message \<Rightarrow> stdc_decoder \<Rightarrow> stdc_decoder" where
  "emit_message m d = d\<lparr>emitted := emitted d @ [m]\<rparr>"

definition empty_slot :: egc_reassembly where
  "empty_slot =
     \<lparr>egc_active = False, egc_message_id = 0, egc_presentation = 0, egc_service_code = 0,
      egc_priority = 0, egc_repetition = 0, parts = replicate 8192 0, part_lens = replicate 64 0,
      max_pkt_no = 0, complete = False, last_seen = 0\<rparr>"

definition stdc_decoder_create :: stdc_decoder where
  "stdc_decoder_create =
     \<lparr>shift_reg = replicate 10368 0, shift_pos = 0, synced = False, frame_count = 0,
      depermuted = replicate 10368 0, deinterleaved = replicate 10240 0, decoded = replicate 640 0,
      mfp = \<lparr>mf_active = False, mf_data = replicate 4096 0, mf_total_len = 0, mf_filled = 0\<rparr>,
      egc_slots = replicate 16 empty_slot,
      stat_crc_ok = 0, stat_crc_fail = 0, stat_frames = 0, stat_ber_sum = 0, stat_ber_count = 0,
      stat_synced = False, time_calls = 0, emitted = []\<rparr>"

section \<open>Slots\<close>

text \<open>A slot taken over for a message: cleared and marked.\<close>

definition claim_slot :: "int \<Rightarrow> int \<Rightarrow> egc_reassembly" where
  "claim_slot msg_id now = empty_slot\<lparr>egc_active := True, egc_message_id := msg_id, last_seen := now\<rparr>"

definition oldest_slot :: "egc_reassembly list \<Rightarrow> nat" where
  "oldest_slot slots =
     fold (\<lambda>i oldest. if last_seen (slots ! i) < last_seen (slots ! oldest) then i else oldest) [1..<16] 0"

definition find_egc_slot :: "int \<Rightarrow> int \<Rightarrow> egc_reassembly list \<Rightarrow> nat \<times> egc_reassembly list" where
  "find_egc_slot now msg_id slots =
     (case List.find (\<lambda>i. egc_active (slots ! i) \<and> egc_message_id (slots ! i) = msg_id) [0..<16] of
        Some i \<Rightarrow> (i, slots)
      | None \<Rightarrow>
         (case List.find (\<lambda>i. \<not> egc_active (slots ! i) \<or> 60 < now - last_seen (slots ! i)) [0..<16] of
            Some i \<Rightarrow> (i, slots[i := claim_slot msg_id now])
          | None \<Rightarrow> (let i = oldest_slot slots in (i, slots[i := claim_slot msg_id now]))))"

section \<open>Emission of a completed message\<close>

text \<open>
  The loop of \<open>try_emit_egc\<close> over the parts \<open>i\<close>, \<open>i + 1\<close>, ...: \<open>n\<close> of them are left, \<open>text\<close> is what was
  assembled so far.
\<close>

fun egc_text_loop :: "egc_reassembly \<Rightarrow> nat \<Rightarrow> nat \<Rightarrow> string \<Rightarrow> string option" where
  "egc_text_loop s i 0 text = Some text"
| "egc_text_loop s i (Suc n) text =
     (if \<not> length text < 4095 then Some text
      else if length (part_lens s) \<le> i then None
      else (let off = int i * 128; plen0 = part_lens s ! i
            in if plen0 \<le> 0 then egc_text_loop s (Suc i) n text
               else (let plen = (if 128 < plen0 then 128 else plen0)
                     in if egc_presentation s = 0
                        then (case extract_ia5_text (4096 - length text) (parts s) off plen of
                                None \<Rightarrow> None
                              | Some t \<Rightarrow> egc_text_loop s (Suc i) n (text @ t))
                        else (let k = (if 4096 \<le> int (length text) + plen
                                       then 4096 - int (length text) - 1 else plen)
                              in case rd_block (parts s) off k of
                                   None \<Rightarrow> None
                                 | Some bs \<Rightarrow> egc_text_loop s (Suc i) n (text @ map byte_char bs)))))"

definition try_emit_egc :: "nat \<Rightarrow> stdc_decoder \<Rightarrow> stdc_decoder option" where
  "try_emit_egc i d =
     (let s = egc_slots d ! i
      in if \<not> complete s then Some d
         else (case egc_text_loop s 0 (nat (max_pkt_no s + 1)) [] of
             None \<Rightarrow> None
           | Some text \<Rightarrow>
               (let m = new_message STDC_MSG_EGC_DOUBLE_1 0xB1
                          \<lparr>service_code := egc_service_code s, priority := egc_priority s,
                           repetition := egc_repetition s, message_id := egc_message_id s,
                           msg_text := text\<rparr>;
                    d1 = (if 0 < length text then emit_message m d else d)
                in Some (d1\<lparr>egc_slots := (egc_slots d1)[i := s\<lparr>egc_active := False\<rparr>]\<rparr>))))"

section \<open>The packets\<close>

text \<open>The index of a part: the packet number from 1, two parts each, clamped to the table.\<close>

definition part_index :: "int \<Rightarrow> bool \<Rightarrow> int" where
  "part_index pkt_no is_part2 =
     (let i = (pkt_no - 1) * 2 + of_bool is_part2
      in if i < 0 then 0 else if 64 \<le> i then 63 else i)"

text \<open>Storing the payload of a part.\<close>

definition store_part :: "nat \<Rightarrow> u8 list \<Rightarrow> egc_reassembly \<Rightarrow> egc_reassembly" where
  "store_part i payload s =
     (let off = i * 128
      in if off + length payload \<le> 8192
         then s\<lparr>parts := take off (parts s) @ payload @ drop (off + length payload) (parts s),
                part_lens := (part_lens s)[i := int (length payload)]\<rparr>
         else s)"

text \<open>The message shown at once for a single part.\<close>

definition egc_part_text :: "int \<Rightarrow> u8 list \<Rightarrow> int \<Rightarrow> int \<Rightarrow> string option" where
  "egc_part_text pres frame start len =
     (if pres = 0 then extract_ia5_text 4096 frame start len
      else (let n = (if 4096 \<le> len then 4095 else len)
            in map_option (map byte_char) (rd_block frame start n)))"

definition decode_egc :: "(nat \<Rightarrow> int) \<Rightarrow> u8 list \<Rightarrow> int \<Rightarrow> int \<Rightarrow> bool \<Rightarrow> stdc_decoder \<Rightarrow> stdc_decoder option" where
  "decode_egc clk frame pos pkt_len is_part2 d =
     (if pkt_len < 10 then Some d else do {
        msg_type \<leftarrow> rd frame (pos + 2);
        b3 \<leftarrow> rd frame (pos + 3);
        let cont = drop_bit 7 b3 AND 1;
        let prio = drop_bit 5 b3 AND 3;
        let rep = b3 AND 0x1F;
        msg_id \<leftarrow> rd16 frame (pos + 4);
        pkt_no \<leftarrow> rd frame (pos + 6);
        pres \<leftarrow> rd frame (pos + 7);
        let hdr0 = 8 + get_address_length msg_type;
        let hdr_size = (if pkt_len - 2 < hdr0 then pkt_len - 2 else hdr0);
        let payload_start = pos + hdr_size;
        let payload_len0 = (if pkt_len - 2 - hdr_size < 0 then 0 else pkt_len - 2 - hdr_size);
        let (i, slots) = find_egc_slot (clk (time_calls d)) msg_id (egc_slots d);
        let part_idx = part_index pkt_no is_part2;
        let payload_len = (if 128 < payload_len0 then 128 else payload_len0);
        payload \<leftarrow> rd_block frame payload_start payload_len;
        let s1 = (slots ! i)\<lparr>egc_service_code := msg_type, egc_priority := prio, egc_repetition := rep,
                   egc_presentation := pres, last_seen := clk (Suc (time_calls d))\<rparr>;
        let s2 = store_part (nat part_idx) payload s1;
        let s3 = (if max_pkt_no s2 < part_idx then s2\<lparr>max_pkt_no := part_idx\<rparr> else s2);
        let s4 = (if cont = 0 \<and> is_part2 then s3\<lparr>complete := True\<rparr> else s3);
        let d1 = d\<lparr>egc_slots := slots[i := s4], time_calls := time_calls d + 2\<rparr>;
        text \<leftarrow> (if 0 < payload_len then egc_part_text pres frame payload_start payload_len else Some []);
        let m = new_message (if is_part2 then STDC_MSG_EGC_DOUBLE_2 else STDC_MSG_EGC_DOUBLE_1)
                  (if is_part2 then 0xB2 else 0xB1)
                  \<lparr>service_code := msg_type, priority := prio, repetition := rep, message_id := msg_id,
                   packet_no := pkt_no, continuation := cont, presentation := pres, msg_text := text\<rparr>;
        let d2 = (if 0 < length text then emit_message m d1 else d1);
        if complete s4 then try_emit_egc i d2 else Some d2 })"

end
