(* ===== verification/StdcPacketFacts.thy ===== *)
theory StdcPacketFacts
  imports StdcPacket
begin

text \<open>
  Facts about the packet layer: which reads are inside the buffer, the checksum in closed form and
  the errors it detects, the sender's side of the checksum (\<open>seal\<close>), and the memory
  safety of the packet decoders.
\<close>

unbundle bit_operations_syntax

section \<open>Reads inside a packet\<close>

text \<open>The packet of \<open>n\<close> bytes at \<open>pos\<close> lies inside the buffer.\<close>

definition readable :: "u8 list \<Rightarrow> int \<Rightarrow> int \<Rightarrow> bool" where
  "readable buf pos n \<longleftrightarrow> 0 \<le> pos \<and> pos + n \<le> int (length buf)"

lemma readable_mono: "readable buf pos n \<Longrightarrow> m \<le> n \<Longrightarrow> readable buf pos m"
  by (simp add: readable_def)

lemma readable_rd: "readable buf pos n \<Longrightarrow> 0 \<le> k \<Longrightarrow> k < n \<Longrightarrow> \<exists>v. rd buf (pos + k) = Some v \<and> 0 \<le> v \<and> v < 256"
  using rd_Some [of "pos + k" buf] rd_range by (fastforce simp: readable_def)

lemma or_bytes: "0 \<le> a \<Longrightarrow> 0 \<le> b \<Longrightarrow> b < 2 ^ n \<Longrightarrow> push_bit n a OR b = a * 2 ^ n + (b :: int)"
proof -
  assume "0 \<le> a" "0 \<le> b" "b < 2 ^ n"
  then have b: "take_bit n b = b" by (simp add: take_bit_int_eq_self)
  have "push_bit n a OR take_bit n b = push_bit n a + take_bit n b"
    by (rule disjunctive_add [symmetric]) (auto simp: bit_simps)
  then show ?thesis using b by (simp add: push_bit_eq_mult)
qed

lemma rd16_Some:
  "0 \<le> i \<Longrightarrow> i + 1 < int (length buf) \<Longrightarrow>
   rd16 buf i = Some (uint (buf ! nat i) * 256 + uint (buf ! nat (i + 1)))"
  using uint_lt2p [of "buf ! nat (i + 1)"] or_bytes [of "uint (buf ! nat i)" "uint (buf ! nat (i + 1))" 8]
  by (simp add: rd16_def rd_Some)

lemma rd24_Some:
  assumes "0 \<le> i" "i + 2 < int (length buf)"
  shows "rd24 buf i = Some (uint (buf ! nat i) * 65536 + uint (buf ! nat (i + 1)) * 256 + uint (buf ! nat (i + 2)))"
proof -
  define a b c where abc: "a = uint (buf ! nat i)" "b = uint (buf ! nat (i + 1))" "c = uint (buf ! nat (i + 2))"
  have r: "0 \<le> a" "0 \<le> b" "b < 256" "0 \<le> c" "c < 256"
    unfolding abc using uint_lt2p [where 'a = 8] by (auto simp: order.strict_trans2)
  have "push_bit 8 b OR c = b * 256 + c" using or_bytes [of b c 8] r by simp
  moreover have "push_bit 16 a OR (b * 256 + c) = a * 65536 + (b * 256 + c)"
    using or_bytes [of a "b * 256 + c" 16] r by simp
  ultimately have "push_bit 16 a OR push_bit 8 b OR c = a * 65536 + b * 256 + c" by (simp add: or.assoc)
  with assms show ?thesis by (simp add: rd24_def rd_Some abc)
qed

lemmas reads = rd_Some rd16_Some rd24_Some

lemma rd16_range: "rd16 buf i = Some v \<Longrightarrow> 0 \<le> v \<and> v < 65536"
  unfolding rd16_def
  by (auto simp: bind_eq_Some_conv dest!: rd_range)
    (use or_bytes [where n = 8] in fastforce)+

lemma rd24_range: "rd24 buf i = Some v \<Longrightarrow> 0 \<le> v \<and> v < 16777216"
proof -
  assume v: "rd24 buf i = Some v"
  then have "0 \<le> i" "i + 2 < int (length buf)"
    by (auto simp: rd24_def rd_def bind_eq_Some_conv split: if_splits)
  from rd24_Some [OF this] v show ?thesis
    using uint_lt2p [of "buf ! nat i"] uint_lt2p [of "buf ! nat (i + 1)"] uint_lt2p [of "buf ! nat (i + 2)"]
    by simp
qed

lemma ia5_loop_defined:
  "0 \<le> i \<Longrightarrow> i + int n \<le> int (length data) \<Longrightarrow> \<exists>s. ia5_loop data i n room = Some s"
proof (induction n arbitrary: i room)
  case (Suc n)
  then have "\<exists>s. ia5_loop data (i + 1) n r = Some s" for r by simp
  with Suc.prems show ?case by (auto simp: rd_Some Let_def bind_eq_Some_conv)
qed simp

lemma ia5_loop_length: "ia5_loop data i n room = Some s \<Longrightarrow> length s \<le> min n room"
proof (induction n arbitrary: i room s)
  case (Suc n)
  then show ?case by (fastforce simp: bind_eq_Some_conv Let_def split: if_splits)
qed simp

lemma ia5_loop_chars:
  "ia5_loop data i n room = Some s \<Longrightarrow> c \<in> set s \<Longrightarrow> of_char c < (128 :: nat)"
proof (induction n arbitrary: i room s)
  case (Suc n)
  have "b AND 0x7F \<le> 0x7F" for b :: int by (rule AND_upper2) simp
  then have small: "nat (b AND 0x7F) mod 256 < 128" for b :: int
  proof -
    have "nat (b AND 0x7F) \<le> nat 0x7F" by (rule nat_mono) fact
    with mod_less_eq_dividend [of "nat (b AND 0x7F)" 256] show ?thesis by simp
  qed
  from Suc.prems show ?case
    by (auto simp: bind_eq_Some_conv Let_def small split: if_splits intro: Suc.IH)
qed simp

lemma short_text_loop_defined:
  "0 \<le> i \<Longrightarrow> i + int n \<le> int (length data) \<Longrightarrow> \<exists>s. short_text_loop data i n room = Some s"
proof (induction n arbitrary: i room)
  case (Suc n)
  then have "\<exists>s. short_text_loop data (i + 1) n r = Some s" for r by simp
  with Suc.prems show ?case by (auto simp: rd_Some Let_def bind_eq_Some_conv)
qed simp

lemma short_text_loop_length: "short_text_loop data i n room = Some s \<Longrightarrow> length s \<le> min n room"
proof (induction n arbitrary: i room s)
  case (Suc n)
  then show ?case by (fastforce simp: bind_eq_Some_conv Let_def split: if_splits)
qed simp

section \<open>The checksum\<close>

definition fletcher :: "int list \<Rightarrow> int \<times> int" where
  "fletcher bs = fold (\<lambda>b (c0, c1). (c0 + b, c1 + (c0 + b))) bs (0, 0)"

lemma fletcher_snoc:
  "fletcher (bs @ [b]) = (fst (fletcher bs) + b, snd (fletcher bs) + (fst (fletcher bs) + b))"
  by (simp add: fletcher_def split_beta)

lemma fletcher_sum:
  "fletcher bs = (\<Sum>i < length bs. bs ! i, \<Sum>i < length bs. (int (length bs) - int i) * bs ! i)"
proof (induction bs rule: rev_induct)
  case Nil
  then show ?case by (simp add: fletcher_def)
next
  case (snoc b bs)
  have "(\<Sum>i < length bs. (int (length (bs @ [b])) - int i) * (bs @ [b]) ! i) =
      (\<Sum>i < length bs. (int (length bs) - int i) * bs ! i) + (\<Sum>i < length bs. bs ! i)"
    unfolding sum.distrib [symmetric] by (rule sum.cong) (simp_all add: nth_append algebra_simps)
  moreover have "(\<Sum>i < length bs. (bs @ [b]) ! i) = (\<Sum>i < length bs. bs ! i)"
    by (rule sum.cong) (simp_all add: nth_append)
  ultimately show ?case using snoc.IH by (simp add: fletcher_snoc)
qed

lemma crc_loop_fold:
  assumes "0 \<le> pos" and "pos + len - 2 \<le> int (length data)" and "0 \<le> i"
  shows "crc_loop data pos len i n (of_int s0, of_int s1) =
    (let (t0, t1) = fold (\<lambda>b (c0, c1). (c0 + b, c1 + (c0 + b)))
       (map (\<lambda>j. if j < len - 2 then uint (data ! nat (pos + j)) else 0) (map (\<lambda>k. i + int k) [0..<n])) (s0, s1)
     in Some (of_int t0, of_int t1))"
  using assms(3)
proof (induction n arbitrary: i s0 s1)
  case (Suc n)
  define b where "b = (if i < len - 2 then uint (data ! nat (pos + i)) else 0)"
  have r: "(if i < len - 2 then rd data (pos + i) else Some 0) = Some b"
    using assms Suc.prems by (simp add: b_def rd_Some)
  have upt: "map (\<lambda>k. i + int k) [0..<Suc n] = i # map (\<lambda>k. i + 1 + int k) [0..<n]"
    by (simp add: upt_conv_Cons map_Suc_upt [symmetric] del: upt_Suc)
  have "of_int s0 + of_int b = (of_int (s0 + b) :: 16 word)"
    "of_int s1 + (of_int s0 + of_int b) = (of_int (s1 + (s0 + b)) :: 16 word)" by simp_all
  then show ?case using Suc.IH [of "i + 1" "s0 + b" "s1 + (s0 + b)"] Suc.prems
    by (simp add: r upt b_def [symmetric] Let_def del: upt_Suc of_int_add)
qed (simp add: Let_def)

lemma ucast_of_int_16_8: "ucast (of_int k :: 16 word) = (of_int k :: u8)"
  by (rule bit_word_eqI) (auto simp: bit_simps of_int_def [symmetric])


lemma ucast_arith_16_8: "ucast (a - b :: 16 word) = (ucast a - ucast b :: u8)"
proof -
  have "a = of_int (uint a)" "b = of_int (uint b)" by simp_all
  then show ?thesis by (metis ucast_of_int_16_8 of_int_diff)
qed

lemma uint_of_int_u8: "uint (of_int k :: u8) = k mod 256"
  by (simp add: uint_word_of_int)

text \<open>The bytes of a packet as integers.\<close>

definition pkt_bytes :: "u8 list \<Rightarrow> int \<Rightarrow> int \<Rightarrow> int list" where
  "pkt_bytes data pos len = map uint (take (nat len) (drop (nat pos) data))"

lemma length_pkt_bytes: "readable data pos len \<Longrightarrow> 0 \<le> len \<Longrightarrow> length (pkt_bytes data pos len) = nat len"
  unfolding pkt_bytes_def readable_def by simp linarith

lemma nth_pkt_bytes:
  "readable data pos len \<Longrightarrow> int i < len \<Longrightarrow> pkt_bytes data pos len ! i = uint (data ! nat (pos + int i))"
proof -
  assume "readable data pos len" "int i < len"
  then have "i < nat len" "nat pos + i < length data" "nat (pos + int i) = nat pos + i"
    unfolding readable_def by linarith+
  then show ?thesis by (simp add: pkt_bytes_def)
qed

text \<open>The checksum in closed form, from the Fletcher sums of the bytes before it.\<close>

lemma compute_crc_fletcher:
  assumes "readable data pos len" and "2 \<le> len" and "fletcher (pkt_bytes data pos (len - 2)) = (s0, s1)"
  shows "compute_crc data pos len = Some ((- s0 - s1) mod 256 * 256 + s1 mod 256)"
proof -
  let ?f = "\<lambda>j. if j < len - 2 then uint (data ! nat (pos + j)) else 0"
  let ?bs = "map ?f (map (\<lambda>k. 0 + int k) [0..<nat len])"
  have r: "0 \<le> pos" "pos + len - 2 \<le> int (length data)" using assms(1) by (simp_all add: readable_def)
  obtain n where n: "nat len = Suc (Suc n)" using assms(2) by (metis Suc_nat_eq_nat_zadd1 add_2_eq_Suc' le_Suc_ex nat_numeral nat_mono numeral_2_eq_2 add.commute)
  have len: "len = int n + 2" using n assms(2) by linarith
  have "map ?f (map (\<lambda>k. 0 + int k) [0..<n]) = pkt_bytes data pos (len - 2)"
    using assms(1) by (intro nth_equalityI) (simp_all add: nth_pkt_bytes length_pkt_bytes len readable_def)
  then have bs: "?bs = (pkt_bytes data pos (len - 2) @ [0]) @ [0]" using n len by simp
  have "fletcher ?bs = (s0, s1 + 2 * s0)"
    unfolding bs fletcher_snoc using assms(3) by simp
  then have "crc_loop data pos len 0 (nat len) (of_int 0, of_int 0) = Some (of_int s0, of_int (s1 + 2 * s0))"
    unfolding crc_loop_fold [OF r order_refl] by (simp only: fletcher_def) simp
  then have loop: "crc_loop data pos len 0 (nat len) (0, 0) = Some (of_int s0, of_int (s1 + 2 * s0))" by simp
  have c1: "ucast (of_int s0 - of_int (s1 + 2 * s0) :: 16 word) = (of_int (- s0 - s1) :: u8)"
    unfolding of_int_diff [symmetric] ucast_of_int_16_8 by simp
  have "of_int (s1 + 2 * s0) - 2 * of_int s0 = (of_int s1 :: 16 word)" by simp
  then have c2: "ucast (of_int (s1 + 2 * s0) - 2 * of_int s0 :: 16 word) = (of_int s1 :: u8)"
    by (simp only: ucast_of_int_16_8)
  have "push_bit 8 ((- s0 - s1) mod 256) OR s1 mod 256 = (- s0 - s1) mod 256 * 256 + s1 mod 256"
    using or_bytes [of "(- s0 - s1) mod 256" "s1 mod 256" 8] by simp
  then show ?thesis by (simp only: compute_crc_def loop bind.simps prod.case Let_def c1 c2 uint_of_int_u8)
qed

lemma fletcher_packet:
  assumes "readable data pos len" and "2 \<le> len" and "fletcher (pkt_bytes data pos (len - 2)) = (s0, s1)"
    and "x = uint (data ! nat (pos + len - 2))" and "y = uint (data ! nat (pos + len - 1))"
  shows "fletcher (pkt_bytes data pos len) = (s0 + x + y, s1 + 2 * s0 + 2 * x + y)"
proof -
  have "pkt_bytes data pos len = (pkt_bytes data pos (len - 2) @ [x]) @ [y]"
  proof (rule nth_equalityI)
    fix i assume "i < length (pkt_bytes data pos len)"
    then have i: "int i < len" using assms(1,2) by (simp add: length_pkt_bytes zless_nat_eq_int_zless)
    have r2: "readable data pos (len - 2)" using assms(1) by (rule readable_mono) simp
    have l2: "length (pkt_bytes data pos (len - 2)) = nat (len - 2)"
      by (rule length_pkt_bytes [OF r2]) (use assms(2) in simp)
    consider "int i < len - 2" | "int i = len - 2" | "int i = len - 1" using i by linarith
    then show "pkt_bytes data pos len ! i = ((pkt_bytes data pos (len - 2) @ [x]) @ [y]) ! i"
    proof cases
      case 1
      then have "i < nat (len - 2)" by linarith
      then show ?thesis using nth_pkt_bytes [OF r2 1] nth_pkt_bytes [OF assms(1) i] l2
        by (simp add: nth_append)
    next
      case 2
      then have ix: "i = nat (len - 2)" "pos + int i = pos + len - 2" by simp_all
      show ?thesis using nth_pkt_bytes [OF assms(1) i, unfolded ix(2)] l2 ix(1) assms(4)
        by (simp add: nth_append)
    next
      case 3
      then have ix: "i = Suc (nat (len - 2))" "pos + int i = pos + len - 1" using assms(2) by simp_all
      show ?thesis using nth_pkt_bytes [OF assms(1) i, unfolded ix(2)] l2 ix(1) assms(5)
        by (simp add: nth_append)
    qed
  qed (use assms(1,2) readable_mono [OF assms(1)] in \<open>simp add: length_pkt_bytes\<close>)
  then show ?thesis using assms(3) by (simp only: fletcher_snoc) simp
qed

text \<open>
  A packet's stored checksum is the computed one exactly if both Fletcher sums of the whole packet
  vanish modulo 256.
\<close>

definition crc_matches :: "u8 list \<Rightarrow> int \<Rightarrow> int \<Rightarrow> bool" where
  "crc_matches data pos len \<longleftrightarrow> rd16 data (pos + len - 2) = compute_crc data pos len"

lemma mod_256_split:
  assumes "0 \<le> x" "x < 256" "0 \<le> y" "y < 256"
  shows "x * 256 + y = a mod 256 * 256 + b mod 256 \<longleftrightarrow> x = a mod 256 \<and> y = b mod (256 :: int)"
proof
  assume e: "x * 256 + y = a mod 256 * 256 + b mod 256"
  have "(x * 256 + y) mod 256 = y" "(a mod 256 * 256 + b mod 256) mod 256 = b mod 256"
    using assms by simp_all
  with e show "x = a mod 256 \<and> y = b mod 256" by simp
qed simp

lemma crc_matches_iff:
  assumes "readable data pos len" and "2 \<le> len"
  shows "crc_matches data pos len \<longleftrightarrow>
    fst (fletcher (pkt_bytes data pos len)) mod 256 = 0 \<and> snd (fletcher (pkt_bytes data pos len)) mod 256 = 0"
proof -
  define x y where xy: "x = uint (data ! nat (pos + len - 2))" "y = uint (data ! nat (pos + len - 1))"
  obtain s0 s1 where s: "fletcher (pkt_bytes data pos (len - 2)) = (s0, s1)" by fastforce
  have range: "0 \<le> x" "x < 256" "0 \<le> y" "y < 256"
    unfolding xy using uint_lt2p [where 'a = 8] by (auto simp: order.strict_trans2)
  have i: "0 \<le> pos + len - 2" "pos + len - 2 + 1 < int (length data)"
    using assms by (simp_all add: readable_def)
  have "pos + len - 2 + 1 = pos + len - 1" by simp
  then have "rd16 data (pos + len - 2) = Some (x * 256 + y)" using rd16_Some [OF i] xy by simp
  then have "crc_matches data pos len \<longleftrightarrow> x = (- s0 - s1) mod 256 \<and> y = s1 mod 256"
    using compute_crc_fletcher [OF assms s] mod_256_split [OF range] by (simp add: crc_matches_def)
  also have "\<dots> \<longleftrightarrow> (s0 + x + y) mod 256 = 0 \<and> (s1 + 2 * s0 + 2 * x + y) mod 256 = 0"
  proof -
    have dvd: "u = v mod 256 \<longleftrightarrow> 256 dvd u - v" if "0 \<le> u" "u < 256" for u v :: int
      using that by (metis mod_eq_dvd_iff mod_pos_pos_trivial mod_mod_trivial)
    have "256 dvd x - (- s0 - s1) \<and> 256 dvd y - s1 \<longleftrightarrow> 256 dvd s0 + x + y \<and> 256 dvd s1 + 2 * s0 + 2 * x + y"
      (is "?a \<and> ?b \<longleftrightarrow> ?c \<and> ?d")
    proof
      assume ab: "?a \<and> ?b"
      have "s0 + x + y = (x - (- s0 - s1)) + (y - s1)"
        "s1 + 2 * s0 + 2 * x + y = 2 * (x - (- s0 - s1)) + (y - s1)" by simp_all
      with ab show "?c \<and> ?d" by (metis dvd_add dvd_mult)
    next
      assume cd: "?c \<and> ?d"
      have "x - (- s0 - s1) = (s1 + 2 * s0 + 2 * x + y) - (s0 + x + y)"
        "y - s1 = 2 * (s0 + x + y) - (s1 + 2 * s0 + 2 * x + y)" by simp_all
      with cd show "?a \<and> ?b" by (metis dvd_diff dvd_mult)
    qed
    then show ?thesis using range by (simp only: dvd dvd_eq_mod_eq_0)
  qed
  finally show ?thesis using fletcher_packet [OF assms s xy] by simp
qed

section \<open>What the checksum detects\<close>

definition differ_at :: "'a list \<Rightarrow> 'a list \<Rightarrow> nat list" where
  "differ_at p q = filter (\<lambda>i. p ! i \<noteq> q ! i) [0..<length p]"

lemma fletcher_diff:
  assumes "length p = length q"
  shows "fst (fletcher q) - fst (fletcher p) = (\<Sum>i\<leftarrow>differ_at p q. q ! i - p ! i)"
    and "snd (fletcher q) - snd (fletcher p) = (\<Sum>i\<leftarrow>differ_at p q. (int (length p) - int i) * (q ! i - p ! i))"
proof -
  have sum: "(\<Sum>i < length p. f i * (q ! i - p ! i)) = (\<Sum>i\<leftarrow>differ_at p q. f i * (q ! i - p ! i))" for f :: "nat \<Rightarrow> int"
  proof -
    have "(\<Sum>i\<leftarrow>filter P xs. g i) = (\<Sum>i\<leftarrow>xs. if P i then g i else 0)" for P and g :: "nat \<Rightarrow> int" and xs
      by (induction xs) auto
    then have "(\<Sum>i\<leftarrow>differ_at p q. f i * (q ! i - p ! i)) = (\<Sum>i\<leftarrow>[0..<length p]. if p ! i \<noteq> q ! i then f i * (q ! i - p ! i) else 0)"
      by (simp add: differ_at_def)
    also have "\<dots> = (\<Sum>i\<leftarrow>[0..<length p]. f i * (q ! i - p ! i))"
      by (rule arg_cong [of _ _ sum_list], rule map_cong) auto
    finally show ?thesis by (simp add: interv_sum_list_conv_sum_set_nat lessThan_atLeast0)
  qed
  show "fst (fletcher q) - fst (fletcher p) = (\<Sum>i\<leftarrow>differ_at p q. q ! i - p ! i)"
    using sum [of "\<lambda>_. 1"] assms by (simp add: fletcher_sum sum_subtractf)
  show "snd (fletcher q) - snd (fletcher p) = (\<Sum>i\<leftarrow>differ_at p q. (int (length p) - int i) * (q ! i - p ! i))"
    using sum [of "\<lambda>i. int (length p) - int i"] assms
    by (simp add: fletcher_sum sum_subtractf right_diff_distrib)
qed

lemma byte_diff_not_dvd:
  assumes "x \<noteq> (y :: u8)"
  shows "\<not> 256 dvd uint x - uint y"
proof
  assume "256 dvd uint x - uint y"
  moreover have "uint x < 256" "uint y < 256" using uint_lt2p [where 'a = 8] by simp_all
  ultimately have "uint x = uint y"
    by (metis mod_eq_dvd_iff mod_pos_pos_trivial uint_nonnegative)
  then have "x = y" by (rule word_eq_iff_unsigned [THEN iffD2])
  with assms show False ..
qed

lemma pkt_bytes_all: "pkt_bytes p 0 (int (length p)) = map uint p"
  by (simp add: pkt_bytes_def)

lemma crc_matches_all:
  "2 \<le> length p \<Longrightarrow> crc_matches p 0 (int (length p)) \<longleftrightarrow>
     256 dvd fst (fletcher (map uint p)) \<and> 256 dvd snd (fletcher (map uint p))"
  using crc_matches_iff [of p 0 "int (length p)"]
  by (simp add: readable_def pkt_bytes_all dvd_eq_mod_eq_0)

lemma crc_detects:
  assumes len: "length q = length p" "2 \<le> length p" and ok: "crc_matches p 0 (int (length p))"
    and diff: "differ_at p q = [i] \<or> (differ_at p q = [i, j] \<and> odd (int j - int i))"
  shows "\<not> crc_matches q 0 (int (length q))"
proof
  assume "crc_matches q 0 (int (length q))"
  with ok len have dvd: "256 dvd fst (fletcher (map uint q)) - fst (fletcher (map uint p))"
      "256 dvd snd (fletcher (map uint q)) - snd (fletcher (map uint p))"
    using crc_matches_all [of p] crc_matches_all [of q] by (auto intro: dvd_diff)
  have da: "differ_at (map uint p) (map uint q) = differ_at p q"
    unfolding differ_at_def by (rule filter_cong) (use len in \<open>auto intro: word_uint_eqI\<close>)
  have mem: "k < length p \<and> p ! k \<noteq> q ! k" if "k \<in> set (differ_at p q)" for k
    using that by (auto simp: differ_at_def)
  note fd = fletcher_diff [of "map uint p" "map uint q", unfolded da length_map, OF len(1) [symmetric]]
  let ?d = "\<lambda>k. uint (q ! k) - uint (p ! k)"
  have nd: "\<not> 256 dvd ?d i" using diff mem [of i] byte_diff_not_dvd [of "q ! i" "p ! i"] by auto
  from diff show False
  proof (elim disjE conjE)
    assume d: "differ_at p q = [i]"
    with fd(1) dvd(1) mem [of i] len nd show False by simp
  next
    assume d: "differ_at p q = [i, j]" and odd: "odd (int j - int i)"
    have nth: "map uint q ! k - map uint p ! k = ?d k" if "k \<in> {i, j}" for k
      using that d mem [of k] len by auto
    have "256 dvd ?d i + ?d j" using fd(1) dvd(1) nth d by simp
    moreover have "256 dvd (int (length p) - int i) * ?d i + (int (length p) - int j) * ?d j"
      using fd(2) dvd(2) nth d by simp
    ultimately have "256 dvd (int (length p) - int i) * ?d i + (int (length p) - int j) * ?d j
        - (int (length p) - int j) * (?d i + ?d j)" by (meson dvd_diff dvd_mult)
    then have "256 dvd (int j - int i) * ?d i" by (simp add: algebra_simps)
    moreover have "coprime 256 (int j - int i)"
    proof -
      have "coprime 2 (int j - int i)" unfolding coprime_left_2_iff_odd by (rule odd)
      then have "coprime (2 ^ 8) (int j - int i)" by (rule coprime_power_left_iff [THEN iffD2, OF disjI1])
      moreover have "(2 :: int) ^ 8 = 256" by simp
      ultimately show ?thesis by metis
    qed
    ultimately show False using nd by (simp add: coprime_dvd_mult_right_iff)
  qed
qed

section \<open>Sealing a packet\<close>

text \<open>The sender's side: a packet body with its two checksum bytes.\<close>

definition seal :: "u8 list \<Rightarrow> u8 list" where
  "seal body =
     (let (s0, s1) = fletcher (map uint body) in body @ [of_int (- s0 - s1), of_int s1])"

lemma length_seal [simp]: "length (seal body) = length body + 2"
  by (simp add: seal_def split_beta)

lemma fletcher_seal:
  "256 dvd fst (fletcher (map uint (seal body))) \<and> 256 dvd snd (fletcher (map uint (seal body)))"
proof -
  obtain s0 s1 where s: "fletcher (map uint body) = (s0, s1)" by fastforce
  define x y where xy: "x = (- s0 - s1) mod 256" "y = s1 mod 256"
  have "seal body = (body @ [of_int (- s0 - s1)]) @ [of_int s1]" by (simp add: seal_def s)
  then have "map uint (seal body) = (map uint body @ [x]) @ [y]"
    by (simp only: map_append list.map uint_of_int_u8 xy)
  then have f: "fletcher (map uint (seal body)) = (s0 + x + y, s1 + (s0 + x) + (s0 + x + y))"
    by (simp only: fletcher_snoc s fst_conv snd_conv)
  have "256 dvd x - (- s0 - s1)" "256 dvd y - s1" unfolding xy by (simp_all add: mod_eq_dvd_iff [symmetric])
  moreover have "s0 + x + y = (x - (- s0 - s1)) + (y - s1)"
    "s1 + (s0 + x) + (s0 + x + y) = 2 * (x - (- s0 - s1)) + (y - s1)" by simp_all
  ultimately show ?thesis unfolding f fst_conv snd_conv by (metis dvd_add dvd_mult)
qed

lemma crc_matches_slice:
  assumes "2 \<le> length p"
  shows "crc_matches (pre @ p @ post) (int (length pre)) (int (length p)) \<longleftrightarrow>
    256 dvd fst (fletcher (map uint p)) \<and> 256 dvd snd (fletcher (map uint p))"
proof -
  have "readable (pre @ p @ post) (int (length pre)) (int (length p))" by (simp add: readable_def)
  moreover have "pkt_bytes (pre @ p @ post) (int (length pre)) (int (length p)) = map uint p"
    by (simp add: pkt_bytes_def)
  ultimately show ?thesis using crc_matches_iff assms by (simp add: dvd_eq_mod_eq_0)
qed

lemma seal_matches:
  "crc_matches (pre @ seal body @ post) (int (length pre)) (int (length (seal body)))"
  using crc_matches_slice [of "seal body"] fletcher_seal by simp

section \<open>The decoders inside a packet\<close>

lemma fix4_str_length: "0 \<le> k \<Longrightarrow> k < 10 ^ 10 \<Longrightarrow> length (fix4_str k) \<le> 11"
proof -
  assume k: "0 \<le> k" "k < 10 ^ 10"
  then have "nat (k div 10000) < 10 ^ 6" by (simp add: nat_less_iff)
  then have 1: "length (int_str (k div 10000)) \<le> 6" using k nat_str_length [of "nat (k div 10000)" 6]
    by (simp add: int_str_def not_less [THEN iffD2] pos_imp_zdiv_nonneg_iff)
  have "nat (k mod 10000) < 10 ^ 4" by (simp add: nat_less_iff)
  then have "length (nat_str (nat (k mod 10000))) \<le> 4" by (rule nat_str_length) simp
  then have 2: "length (pad_str 4 (k mod 10000)) = 4" by (simp add: pad_str_def Let_def)
  show ?thesis using 1 2 by (simp add: fix4_str_def)
qed

lemma les_list_loop_defined:
  assumes "0 \<le> j" "limit + 2 \<le> int (length frame)"
    and "tlen + 64 * nat ((limit - j) div 6) \<le> 4000" and "length t = tlen"
  shows "\<exists>t' tlen'. les_list_loop frame limit j n (t, tlen) = Some (t', tlen') \<and> tlen' < 4096 \<and> length t' = tlen'"
  using assms
proof (induction n arbitrary: j t tlen)
  case (Suc n)
  show ?case
  proof (cases "j + 5 < limit")
    case True
    define b dl where bd: "b = uint (frame ! nat j)" "dl = uint (frame ! nat (j + 4)) * 256 + uint (frame ! nat (j + 5))"
    define s where "s = '' '' @ get_sat_name (drop_bit 6 b AND 3) @ ''/'' @ get_les_name (drop_bit 6 b AND 3) (b AND 0x3F) @
        ''@'' @ fix4_str (downlink_of dl)"
    have dlr: "0 \<le> dl" "dl < 65536" unfolding bd
      using uint_lt2p [of "frame ! nat (j + 4)"] uint_lt2p [of "frame ! nat (j + 5)"] by simp_all
    have "length s \<le> 64"
      using length_get_sat_name [of "drop_bit 6 b AND 3"] length_get_les_name [of "drop_bit 6 b AND 3" "b AND 0x3F"]
        fix4_str_length [of "downlink_of dl"] dlr by (simp add: s_def downlink_of_def)
    moreover have "nat ((limit - j) div 6) = Suc (nat ((limit - (j + 6)) div 6))"
      using True by (simp add: nat_div_distrib Suc_nat_eq_nat_zadd1)
    ultimately have "\<exists>t' tlen'. les_list_loop frame limit (j + 6) n (t @ s, tlen + length s) = Some (t', tlen') \<and>
        tlen' < 4096 \<and> length t' = tlen'"
      using Suc.prems by (intro Suc.IH) simp_all
    moreover have app: "append_text (t, tlen) s = Some (t @ s, tlen + length s)"
      using \<open>length s \<le> 64\<close> Suc.prems by (simp add: append_text_def snprintf_def)
    moreover have "rd frame j = Some b" "rd16 frame (j + 4) = Some dl"
      using True Suc.prems by (simp_all add: reads bd add.assoc)
    ultimately show ?thesis using True by (simp add: Let_def app [unfolded s_def, simplified]) (simp add: s_def)
  qed (use Suc.prems in simp)
qed simp


lemma bind_defined: "x \<noteq> None \<Longrightarrow> (\<And>v. x = Some v \<Longrightarrow> f v \<noteq> None) \<Longrightarrow> x \<bind> f \<noteq> None"
  by (cases x) auto

lemma readable_Some:
  assumes "readable frame pos n" "0 \<le> k"
  shows "k < n \<Longrightarrow> \<exists>v. rd frame (pos + k) = Some v"
    and "k + 1 < n \<Longrightarrow> \<exists>v. rd16 frame (pos + k) = Some v"
    and "k + 2 < n \<Longrightarrow> \<exists>v. rd24 frame (pos + k) = Some v"
  using assms by (simp_all add: readable_def reads)

text \<open>
  The stateless decoders by descriptor, as \<open>parse_packets\<close> dispatches to them.
\<close>

definition decoder_of :: "int \<Rightarrow> (u8 list \<Rightarrow> int \<Rightarrow> int \<Rightarrow> stdc_message list option) option" where
  "decoder_of desc =
     (if desc = 0x08 then Some decode_ack_request
      else if desc = 0x27 then Some decode_channel_clear
      else if desc = 0x2A then Some decode_msg_ack
      else if desc = 0x6C then Some decode_signalling
      else if desc = 0x7D then Some decode_bulletin_board
      else if desc = 0x81 then Some decode_announcement
      else if desc = 0x83 then Some decode_chan_assignment
      else if desc = 0x92 then Some decode_login_ack
      else if desc = 0xA3 then Some decode_individual_poll
      else if desc = 0xA8 then Some decode_confirmation
      else if desc = 0xAA then Some decode_message
      else if desc = 0xAB then Some decode_les_list
      else None)"

lemma decode_les_list_defined:
  assumes "readable frame pos pkt_len" "pkt_len \<le> 257"
  shows "\<exists>ms. decode_les_list frame pos pkt_len = Some ms"
proof (cases "pkt_len < 6")
  case False
  then obtain n where n: "rd frame (pos + 3) = Some n" "0 \<le> n" "n < 256"
    using readable_rd [OF assms(1), of 3] by auto
  define s where "s = ''LES List ('' @ int_str n @ '' stations):''"
  have "nat n < 10 ^ 3" using n by simp
  then have "length (nat_str (nat n)) \<le> 3" by (rule nat_str_length) simp
  then have s: "length s \<le> 24" using n by (simp add: s_def int_str_def)
  then have a: "append_text ([], 0) s = Some (s, length s)" by (simp add: append_text_def snprintf_def)
  have "nat ((pkt_len - 6) div 6) \<le> 41" using assms(2) by linarith
  then obtain t tlen where "les_list_loop frame (pos + pkt_len - 2) (pos + 4) (nat n) (s, length s) = Some (t, tlen)" "tlen < 4096"
    using les_list_loop_defined [of "pos + 4" "pos + pkt_len - 2" frame "length s" s "nat n"] assms(1) s
    by (auto simp: readable_def)
  with n a False show ?thesis by (simp add: decode_les_list_def s_def)
qed (simp add: decode_les_list_def)

lemma readable_packet: "readable frame pos n \<Longrightarrow> 0 \<le> pos \<and> pos + n \<le> int (length frame)"
  by (simp add: readable_def)

lemma header_decoders_defined:
  assumes "readable frame pos n"
  shows "\<exists>ms. decode_ack_request frame pos n = Some ms"
    "\<exists>ms. decode_channel_clear frame pos n = Some ms"
    "\<exists>ms. decode_msg_ack frame pos n = Some ms"
    "\<exists>ms. decode_signalling frame pos n = Some ms"
    "\<exists>ms. decode_bulletin_board frame pos n = Some ms"
    "\<exists>ms. decode_announcement frame pos n = Some ms"
    "\<exists>ms. decode_chan_assignment frame pos n = Some ms"
    "\<exists>ms. decode_login_ack frame pos n = Some ms"
  using readable_packet [OF assms]
  by (simp_all add: reads Let_def split_beta decode_ack_request_def decode_channel_clear_def
      decode_msg_ack_def decode_signalling_def decode_bulletin_board_def decode_announcement_def
      decode_chan_assignment_def decode_login_ack_def)

lemma text_decoders_defined:
  assumes r: "readable frame pos n"
  shows "\<exists>ms. decode_individual_poll frame pos n = Some ms"
    and "\<exists>ms. decode_message frame pos n = Some ms"
    and "n \<noteq> 9 \<or> pos + 9 < int (length frame) \<Longrightarrow> \<exists>ms. decode_confirmation frame pos n = Some ms"
proof -
  note p = readable_packet [OF r]
  have t: "\<exists>s. short_text_loop frame (pos + k) (nat (n - k - 2)) 4095 = Some s" if "0 \<le> k" "k + 2 \<le> n" for k
    using p that by (intro short_text_loop_defined) simp_all
  have poll: "\<exists>s. short_text_loop frame (pos + 13) (nat (n - 15)) 4095 = Some s" if "38 \<le> n"
    using t [of 13] that by simp
  then show "\<exists>ms. decode_individual_poll frame pos n = Some ms"
    using p by (auto simp: decode_individual_poll_def reads Let_def)
  have "\<exists>s. ia5_loop frame (pos + 5) (nat (if n - 5 - 2 < 0 then 0 else n - 5 - 2)) 4095 = Some s" if "\<not> n < 7"
    using p that by (intro ia5_loop_defined) simp_all
  then show "\<exists>ms. decode_message frame pos n = Some ms"
    using p by (auto simp: decode_message_def extract_ia5_text_def reads Let_def)
  assume "n \<noteq> 9 \<or> pos + 9 < int (length frame)"
  moreover have "\<exists>s. short_text_loop frame (pos + 11) (nat (n - 13)) 4095 = Some s" if "13 < n"
    using t [of 11] that by simp
  ultimately show "\<exists>ms. decode_confirmation frame pos n = Some ms"
    using p by (auto simp: decode_confirmation_def reads Let_def)
qed

lemma decoder_defined:
  assumes r: "readable frame pos pkt_len" and len: "pkt_len \<le> 257"
    and d: "decoder_of desc = Some f"
    and conf: "desc = 0xA8 \<Longrightarrow> pkt_len = 9 \<Longrightarrow> pos + 9 < int (length frame)"
  shows "\<exists>ms. f frame pos pkt_len = Some ms"
  using d conf header_decoders_defined [OF r] text_decoders_defined [OF r]
    decode_les_list_defined [OF r len]
  by (auto simp: decoder_of_def split: if_splits)

section \<open>Properties\<close>

text \<open>
  C14: error detection.  When a packet with a matching checksum is altered in one byte, or in two bytes
  an odd distance apart (two neighbours, for instance), its checksum no longer matches.
\<close>

theorem crc_detects_errors:
  assumes "length q = length p" and "2 \<le> length p" and "crc_matches p 0 (int (length p))"
    and "differ_at p q = [i] \<or> (differ_at p q = [i, j] \<and> odd (int j - int i))"
  shows "\<not> crc_matches q 0 (int (length q))"
  using assms by (rule crc_detects)

text \<open>Two neighbouring bytes of a packet exchanged.\<close>

theorem crc_detects_errors_witness:
  "\<not> crc_matches [0x27, 1, 3, 2, 4, 5, 0xBD, 0x0D] 0 (int (length [0x27, 1, 3, 2, 4, 5, 0xBD, 0x0D :: u8]))"
proof (rule crc_detects_errors [of _ "[0x27, 1, 2, 3, 4, 5, 0xBD, 0x0D]" 2 3])
  show "crc_matches [0x27, 1, 2, 3, 4, 5, 0xBD, 0x0D] 0 (int (length [0x27, 1, 2, 3, 4, 5, 0xBD, 0x0D :: u8]))"
    by code_simp
qed (simp_all add: differ_at_def upt_rec)

text \<open>
  C15: memory safety of the packet decoders.  On a packet of at most 257 bytes that lies inside
  the frame buffer no decoder reads outside the buffer, with one exception: the confirmation decoder
  (0xA8) on a packet of exactly nine bytes at the very end of the buffer.  The texts
  fit their buffer, the list of stations included.
\<close>

theorem decoders_memory_safe:
  assumes "0 \<le> pos" and "pos + pkt_len \<le> int (length frame)" and "pkt_len \<le> 257"
    and "decoder_of desc = Some f"
    and "desc = 0xA8 \<Longrightarrow> pkt_len = 9 \<Longrightarrow> pos + 9 < int (length frame)"
  shows "\<exists>ms. f frame pos pkt_len = Some ms"
  using decoder_defined [of frame pos pkt_len desc f] assms by (simp add: readable_def)

theorem decoders_memory_safe_witness:
  "\<exists>ms. decode_les_list [0xAB, 10, 0, 1, 0x44, 0, 0, 0, 0x2F, 0x00, 0x12, 0x34] 0 12 = Some ms"
  by (rule decoders_memory_safe [where desc = "0xAB" and f = decode_les_list]) (simp_all add: decoder_of_def)

text \<open>
  The one read beyond a packet.  A nine-byte confirmation packet at the end of the buffer makes
  \<open>decode_confirmation\<close> read the byte after the buffer, although its length check passes.
\<close>

theorem confirmation_reads_past_end:
  assumes "length frame = n + 9"
  shows "decode_confirmation frame (int n) 9 = None"
proof -
  have "rd frame (int n + 9) = None" using assms by (simp add: rd_None)
  moreover have "\<exists>a. rd24 frame (int n + 2) = Some a" "\<exists>b. rd frame (int n + 5) = Some b"
    using assms by (simp_all add: reads)
  ultimately show ?thesis by (auto simp: decode_confirmation_def Let_def)
qed

theorem confirmation_reads_past_end_witness:
  "decode_confirmation (replicate 631 0 @ [0xA8, 7, 0, 0, 1, 0x44, 0, 0, 0]) 631 9 = None"
  using confirmation_reads_past_end [of "replicate 631 0 @ [0xA8, 7, 0, 0, 1, 0x44, 0, 0, 0]" 631] by simp

end
