(* ===== verification/StdcEgcFacts.thy ===== *)
theory StdcEgcFacts
  imports StdcEgc StdcPacketFacts
begin

text \<open>
  Facts about EGC reassembly: the slot table keeps its invariant (sixteen well-formed slots, one active
  slot for a message id), the parts table is a store of parts (locale \<open>part_store\<close>, interpreted as
  \<open>egc\<close>), the text loop computes the concatenation of the parts, and a message
  delivered part by part is emitted whole.
\<close>

unbundle bit_operations_syntax

section \<open>Invariant of the slots\<close>

definition slot_wf :: "egc_reassembly \<Rightarrow> bool" where
  "slot_wf s \<longleftrightarrow> length (parts s) = 8192 \<and> length (part_lens s) = 64 \<and>
     (\<forall>n \<in> set (part_lens s). 0 \<le> n \<and> n \<le> 128) \<and> 0 \<le> max_pkt_no s \<and> max_pkt_no s < 64"

definition slots_wf :: "egc_reassembly list \<Rightarrow> bool" where
  "slots_wf slots \<longleftrightarrow> length slots = 16 \<and> (\<forall>s \<in> set slots. slot_wf s) \<and>
     (\<forall>i < 16. \<forall>j < 16. egc_active (slots ! i) \<longrightarrow> egc_active (slots ! j) \<longrightarrow>
        egc_message_id (slots ! i) = egc_message_id (slots ! j) \<longrightarrow> i = j)"

lemma slot_wf_empty: "slot_wf empty_slot"
  by (simp add: slot_wf_def empty_slot_def)

lemma slot_wf_claim [wf_intros]: "slot_wf (claim_slot i t)"
  by (simp add: slot_wf_def empty_slot_def claim_slot_def)

lemma claim_slot_simps [simp]:
  "egc_active (claim_slot i t)" "egc_message_id (claim_slot i t) = i"
  by (simp_all add: claim_slot_def)

lemma oldest_slot_less: "oldest_slot slots < 16"
  unfolding oldest_slot_def by (rule fold_invariant) auto

lemma find_upt_Some:
  "List.find P [0..<n] = Some i \<longleftrightarrow> i < n \<and> P i \<and> (\<forall>j < i. \<not> P j)"
  by (auto simp: find_Some_iff)

lemma find_upt_None: "List.find P [0..<n] = None \<longleftrightarrow> (\<forall>j < n. \<not> P j)"
  by (auto simp: find_None_iff)

lemma slots_wf_replace:
  assumes wf: "slots_wf slots" and s: "slot_wf s" and i: "i < 16"
    and other: "\<And>j. j < 16 \<Longrightarrow> j \<noteq> i \<Longrightarrow> egc_active s \<Longrightarrow> egc_active (slots ! j) \<Longrightarrow>
      egc_message_id (slots ! j) \<noteq> egc_message_id s"
  shows "slots_wf (slots[i := s])"
proof -
  have len: "length slots = 16" and all: "\<forall>s \<in> set slots. slot_wf s" using wf by (simp_all add: slots_wf_def)
  have "\<forall>x \<in> set (slots[i := s]). slot_wf x"
    using all s set_update_subset_insert [of slots i s] by blast
  moreover have "j = k" if j: "j < 16" and k: "k < 16" and act: "egc_active (slots[i := s] ! j)" "egc_active (slots[i := s] ! k)"
      and id: "egc_message_id (slots[i := s] ! j) = egc_message_id (slots[i := s] ! k)" for j k
  proof -
    consider "j = i" "k = i" | "j = i" "k \<noteq> i" | "j \<noteq> i" "k = i" | "j \<noteq> i" "k \<noteq> i" by blast
    then show ?thesis
    proof cases
      case 2
      then show ?thesis using other [OF k] act id len i by simp
    next
      case 3
      then show ?thesis using other [OF j] act id len i by simp
    next
      case 4
      then show ?thesis using wf j k act id unfolding slots_wf_def by simp
    qed simp
  qed
  ultimately show ?thesis using len unfolding slots_wf_def by simp
qed

text \<open>The slot returned is active and carries the message id; no other active slot does.\<close>

lemma find_egc_slot_result:
  assumes "slots_wf slots" and "find_egc_slot now msg_id slots = (i, slots')"
  shows "i < 16" "egc_active (slots' ! i)" "egc_message_id (slots' ! i) = msg_id" "slots_wf slots'"
proof -
  have len: "length slots = 16" using assms(1) by (simp add: slots_wf_def)
  let ?P = "\<lambda>i. egc_active (slots ! i) \<and> egc_message_id (slots ! i) = msg_id"
  let ?Q = "\<lambda>i. \<not> egc_active (slots ! i) \<or> 60 < now - last_seen (slots ! i)"
  have free: "\<exists>k < 16. (case List.find ?Q [0..<16] of Some i \<Rightarrow> (i, slots[i := claim_slot msg_id now])
      | None \<Rightarrow> (let i = oldest_slot slots in (i, slots[i := claim_slot msg_id now]))) = (k, slots[k := claim_slot msg_id now])"
  proof (cases "List.find ?Q [0..<16]")
    case None
    then show ?thesis using oldest_slot_less [of slots] by (simp only: option.case Let_def) blast
  next
    case (Some k)
    then have "k < 16" by (simp only: find_upt_Some)
    with Some show ?thesis by (simp only: option.case) blast
  qed
  consider (found) "List.find ?P [0..<16] = Some i" "slots' = slots"
    | (claimed) "List.find ?P [0..<16] = None" "slots' = slots[i := claim_slot msg_id now]" "i < 16"
  proof (cases "List.find ?P [0..<16]")
    case None
    with assms(2) free show ?thesis using that(2) unfolding find_egc_slot_def by (simp only: option.case) auto
  next
    case (Some k)
    with assms(2) show ?thesis using that(1) unfolding find_egc_slot_def by (simp only: option.case) simp
  qed
  then have "i < 16 \<and> egc_active (slots' ! i) \<and> egc_message_id (slots' ! i) = msg_id \<and> slots_wf slots'"
  proof cases
    case found
    with assms(1) show ?thesis by (simp only: find_upt_Some)
  next
    case claimed
    then have none: "\<And>j. j < 16 \<Longrightarrow> egc_active (slots ! j) \<Longrightarrow> egc_message_id (slots ! j) \<noteq> msg_id"
      by (simp only: find_upt_None) blast
    have "slots_wf slots'" unfolding claimed(2)
      by (rule slots_wf_replace [OF assms(1) slot_wf_claim claimed(3)]) (simp add: none)
    with claimed len show ?thesis by simp
  qed
  then show "i < 16" "egc_active (slots' ! i)" "egc_message_id (slots' ! i) = msg_id" "slots_wf slots'" by auto
qed

lemma find_egc_slot_again:
  assumes "slots_wf slots" and "i < 16" and "egc_active (slots ! i)" and "egc_message_id (slots ! i) = msg_id"
  shows "find_egc_slot now msg_id slots = (i, slots)"
proof -
  have "List.find (\<lambda>i. egc_active (slots ! i) \<and> egc_message_id (slots ! i) = msg_id) [0..<16] = Some i"
    unfolding find_upt_Some using assms
    by (auto simp: slots_wf_def) (metis less_irrefl order.strict_trans)
  then show ?thesis by (simp add: find_egc_slot_def)
qed

lemma slots_wf_update:
  assumes "slots_wf slots" and "slot_wf s" and "i < 16"
    and "egc_active s \<Longrightarrow> egc_active (slots ! i) \<and> egc_message_id s = egc_message_id (slots ! i)"
  shows "slots_wf (slots[i := s])"
proof (rule slots_wf_replace [OF assms(1,2,3)])
  fix j assume "j < 16" "j \<noteq> i" "egc_active s" "egc_active (slots ! j)"
  with assms(1,3,4) show "egc_message_id (slots ! j) \<noteq> egc_message_id s" unfolding slots_wf_def by metis
qed

section \<open>Parts\<close>

text \<open>What is stored for part \<open>i\<close>.\<close>

definition part_of :: "egc_reassembly \<Rightarrow> nat \<Rightarrow> u8 list" where
  "part_of s i = take (nat (part_lens s ! i)) (drop (i * 128) (parts s))"

locale part_store =
  fixes wf :: "'s \<Rightarrow> bool" and n_parts :: nat and part :: "'s \<Rightarrow> nat \<Rightarrow> 'p list"
    and store :: "nat \<Rightarrow> 'p list \<Rightarrow> 's \<Rightarrow> 's" and fits :: "'p list \<Rightarrow> bool"
  assumes wf_store: "wf s \<Longrightarrow> i < n_parts \<Longrightarrow> fits p \<Longrightarrow> wf (store i p s)"
    and part_store: "wf s \<Longrightarrow> i < n_parts \<Longrightarrow> fits p \<Longrightarrow> j < n_parts \<Longrightarrow>
      part (store i p s) j = (if j = i then p else part s j)"
begin

definition store_all :: "(nat \<times> 'p list) list \<Rightarrow> 's \<Rightarrow> 's" where
  "store_all ps s = fold (\<lambda>(i, p). store i p) ps s"

lemma wf_store_all:
  "wf s \<Longrightarrow> \<forall>(i, p) \<in> set ps. i < n_parts \<and> fits p \<Longrightarrow> wf (store_all ps s)"
  by (induction ps arbitrary: s) (auto simp: store_all_def wf_store)

text \<open>The last part stored at an index is the one that is kept, in whatever order the parts came.\<close>

lemma part_store_all:
  "wf s \<Longrightarrow> \<forall>(i, p) \<in> set ps. i < n_parts \<and> fits p \<Longrightarrow> j < n_parts \<Longrightarrow>
   part (store_all ps s) j = (case map_of (rev ps) j of None \<Rightarrow> part s j | Some p \<Rightarrow> p)"
proof (induction ps arbitrary: s)
  case (Cons a ps)
  obtain i p where a: "a = (i, p)" by (cases a)
  have s: "store_all (a # ps) s = store_all ps (store i p s)" by (simp add: store_all_def a)
  have "part (store_all ps (store i p s)) j =
      (case map_of (rev ps) j of None \<Rightarrow> part (store i p s) j | Some p \<Rightarrow> p)"
    by (rule Cons.IH) (use Cons.prems a in \<open>auto simp: wf_store\<close>)
  with Cons.prems a show ?case
    by (auto simp: s [unfolded a] part_store map_add_def split: option.splits)
qed (simp add: store_all_def)

end

lemma slot_wf_store:
  assumes "slot_wf s" "i < 64" "length p \<le> 128"
  shows "slot_wf (store_part i p s)"
  using assms by (auto simp: slot_wf_def store_part_def Let_def dest!: set_update_subset_insert [THEN subsetD])

lemma part_of_store:
  assumes "slot_wf s" "i < 64" "length p \<le> 128" "j < 64"
  shows "part_of (store_part i p s) j = (if j = i then p else part_of s j)"
proof -
  let ?new = "take (i * 128) (parts s) @ p @ drop (i * 128 + length p) (parts s)"
  have len: "length (parts s) = 8192" "length (part_lens s) = 64" using assms(1) by (simp_all add: slot_wf_def)
  have st: "parts (store_part i p s) = ?new" "part_lens (store_part i p s) = (part_lens s)[i := int (length p)]"
    using assms by (simp_all add: store_part_def Let_def)
  show ?thesis
  proof (cases "j = i")
    case True
    then show ?thesis using len assms by (simp add: part_of_def st)
  next
    case False
    define k where "k = nat (part_lens s ! j)"
    have k: "k \<le> 128" using assms(1,4) len unfolding k_def slot_wf_def by (simp add: nat_le_iff)
    define new where new: "new = ?new"
    have lnew: "length new = 8192" using len assms(2,3) by (simp add: new)
    have "take k (drop (j * 128) new) = take k (drop (j * 128) (parts s))"
    proof (rule nth_equalityI)
      fix m assume "m < length (take k (drop (j * 128) new))"
      then have m: "m < k" by (simp only: length_take min_less_iff_conj)
      have "j * 128 + m < i * 128 \<or> i * 128 + 128 \<le> j * 128 + m"
        using False m k by (cases "j < i") (auto simp: not_less)
      moreover have "j * 128 + m < 8192" using assms(4) m k by linarith
      ultimately have "?new ! (j * 128 + m) = parts s ! (j * 128 + m)"
        using assms(2,3) len by (auto simp: nth_append)
      then show "take k (drop (j * 128) new) ! m = take k (drop (j * 128) (parts s)) ! m"
        using m len assms(4) k lnew new [symmetric] by simp
    qed (use len lnew in simp)
    with False len show ?thesis by (simp add: part_of_def st k_def new)
  qed
qed

interpretation egc: part_store slot_wf 64 part_of store_part "\<lambda>p. length p \<le> 128"
  by unfold_locales (simp_all add: slot_wf_store part_of_store)

section \<open>Text, specified\<close>

text \<open>The printable characters up to the first ETX, each without its top bit.\<close>

definition ia5_text :: "u8 list \<Rightarrow> string" where
  "ia5_text bs = map (\<lambda>c. char_of (nat c))
     (filter (\<lambda>c. 0x20 \<le> c \<or> c = 10 \<or> c = 13 \<or> c = 9)
       (takeWhile (\<lambda>c. c \<noteq> 3) (map (\<lambda>b. uint b AND 0x7F) bs)))"

lemma ia5_text_Cons:
  "ia5_text (b # bs) = (let c = uint b AND 0x7F
     in if 0x20 \<le> c \<or> c = 10 \<or> c = 13 \<or> c = 9 then char_of (nat c) # ia5_text bs
        else if c = 3 then [] else ia5_text bs)"
  by (auto simp: ia5_text_def Let_def)

lemma ia5_text_length: "length (ia5_text bs) \<le> length bs"
  unfolding ia5_text_def
  by (metis (no_types, lifting) le_trans length_filter_le length_map length_takeWhile_le)

lemma ia5_loop_text:
  "0 \<le> i \<Longrightarrow> i + int n \<le> int (length data) \<Longrightarrow>
   ia5_loop data i n room = Some (take room (ia5_text (take n (drop (nat i) data))))"
proof (induction n arbitrary: i room)
  case 0
  then show ?case by (simp add: ia5_text_def)
next
  case (Suc n)
  have d: "take (Suc n) (drop (nat i) data) = data ! nat i # take n (drop (nat (i + 1)) data)"
    using Suc.prems by (simp add: Cons_nth_drop_Suc [symmetric] nat_add_distrib)
  show ?case
  proof (cases room)
    case 0
    then show ?thesis by simp
  next
    case (Suc r)
    with Suc.prems Suc.IH [of "i + 1"] show ?thesis
      by (simp add: d ia5_text_Cons Let_def rd_Some)
  qed
qed

definition part_text :: "int \<Rightarrow> u8 list \<Rightarrow> string" where
  "part_text pres bs = (if pres = 0 then ia5_text bs else map byte_char bs)"

lemma part_text_length: "length (part_text pres bs) \<le> length bs"
  by (simp add: part_text_def ia5_text_length)

lemma part_text_Nil [simp]: "part_text pres [] = []"
  by (simp add: part_text_def ia5_text_def)

lemma egc_part_text_eq:
  assumes "0 \<le> start" "start + int (length p) \<le> int (length frame)" "length p \<le> 128"
    and "take (length p) (drop (nat start) frame) = p"
  shows "egc_part_text pres frame start (int (length p)) = Some (part_text pres p)"
proof (cases "pres = 0")
  case True
  have "take 4095 (ia5_text p) = ia5_text p" using ia5_text_length [of p] assms(3) by simp
  with assms True show ?thesis
    by (simp add: egc_part_text_def part_text_def extract_ia5_text_def ia5_loop_text)
next
  case False
  have "rd_block frame start (int (length p)) = Some p"
    using assms by (auto simp: rd_block_def)
  with assms False show ?thesis by (simp add: egc_part_text_def part_text_def)
qed

lemma take_take_append: "take n (take n xs @ ys) = take n (xs @ ys)"
  by (cases "length xs \<le> n") simp_all

text \<open>The text of a completed message: its parts in order, cut to the size of the text buffer.\<close>

lemma egc_text_loop_eq:
  assumes "slot_wf s" and "i + n \<le> 64" and "length acc \<le> 4095"
  shows "egc_text_loop s i n acc =
    Some (take 4095 (acc @ concat (map (\<lambda>j. part_text (egc_presentation s) (part_of s j)) [i..<i + n])))"
  using assms(2,3)
proof (induction n arbitrary: i acc)
  case 0
  then show ?case by simp
next
  case (Suc n)
  let ?pt = "\<lambda>j. part_text (egc_presentation s) (part_of s j)"
  have upt: "[i..<i + Suc n] = i # [Suc i..<Suc i + n]" by (simp add: upt_conv_Cons del: upt_Suc)
  show ?case
  proof (cases "length acc < 4095")
    case False
    with Suc.prems have "length acc = 4095" by simp
    with False show ?thesis by simp
  next
    case True
    have len: "length (parts s) = 8192" "length (part_lens s) = 64" and i: "i < 64"
      using assms(1) Suc.prems by (simp_all add: slot_wf_def)
    then have pl: "0 \<le> part_lens s ! i" "part_lens s ! i \<le> 128"
      using assms(1) by (auto simp: slot_wf_def)
    define k where "k = nat (part_lens s ! i)"
    have k: "part_lens s ! i = int k" "k \<le> 128" using pl by (auto simp: k_def nat_le_iff)
    have off: "nat (int i * 128) = i * 128" "int i * 128 + int k \<le> 8192" using i k by linarith+
    have po: "part_of s i = take k (drop (i * 128) (parts s))" by (simp add: part_of_def k)
    have lpo: "length (part_of s i) = k" using off len by (simp add: po)
    let ?acc' = "take 4095 (acc @ ?pt i)"
    have IH: "egc_text_loop s (Suc i) n ?acc' =
        Some (take 4095 (?acc' @ concat (map ?pt [Suc i..<Suc i + n])))"
      by (rule Suc.IH) (use Suc.prems in simp_all)
    have cut: "take 4095 (?acc' @ ys) = take 4095 (acc @ ?pt i @ ys)" for ys
      using take_take_append [of 4095 "acc @ ?pt i" ys] by (simp only: append_assoc)
    have "egc_text_loop s i (Suc n) acc = egc_text_loop s (Suc i) n ?acc'"
    proof (cases "k = 0")
      case True
      then have "?pt i = []" using lpo by simp
      with True \<open>length acc < 4095\<close> len i k show ?thesis by (simp add: Let_def)
    next
      case False
      show ?thesis
      proof (cases "egc_presentation s = 0")
        case True
        have "extract_ia5_text (4096 - length acc) (parts s) (int i * 128) (int k) =
            Some (take (4095 - length acc) (ia5_text (part_of s i)))"
          using off len by (simp add: extract_ia5_text_def ia5_loop_text po)
        moreover have "?acc' = acc @ take (4095 - length acc) (ia5_text (part_of s i))"
          using \<open>length acc < 4095\<close> True by (simp add: part_text_def)
        ultimately show ?thesis
          using True False \<open>length acc < 4095\<close> len i k by (simp add: Let_def)
      next
        case np: False
        define m where "m = (if 4096 \<le> int (length acc) + int k then 4096 - int (length acc) - 1 else int k)"
        have m: "0 \<le> m" "m \<le> int k" "nat m = min k (4095 - length acc)"
          using \<open>length acc < 4095\<close> by (auto simp: m_def)
        have "rd_block (parts s) (int i * 128) m = Some (take (4095 - length acc) (part_of s i))"
          using m off len by (auto simp: rd_block_def po min.commute)
        moreover have "?acc' = acc @ map byte_char (take (4095 - length acc) (part_of s i))"
          using \<open>length acc < 4095\<close> np by (simp add: part_text_def take_map)
        ultimately show ?thesis
          using np False \<open>length acc < 4095\<close> len i k by (simp add: Let_def m_def)
      qed
    qed
    then show ?thesis by (simp only: IH cut upt list.map concat.simps append_assoc)
  qed
qed


section \<open>One packet\<close>

text \<open>The slot after a part of a message: header fields, payload and completion mark.\<close>

definition slot_after :: "int \<Rightarrow> int \<Rightarrow> int \<Rightarrow> int \<Rightarrow> int \<Rightarrow> int \<Rightarrow> bool \<Rightarrow> int \<Rightarrow> u8 list \<Rightarrow>
    egc_reassembly \<Rightarrow> egc_reassembly" where
  "slot_after now service prio rep pres cont is_part2 idx payload s =
     (let s2 = store_part (nat idx) payload (s\<lparr>egc_service_code := service, egc_priority := prio,
                 egc_repetition := rep, egc_presentation := pres, last_seen := now\<rparr>);
          s3 = (if max_pkt_no s2 < idx then s2\<lparr>max_pkt_no := idx\<rparr> else s2)
      in if cont = 0 \<and> is_part2 then s3\<lparr>complete := True\<rparr> else s3)"

lemma part_index_range: "0 \<le> part_index no p2 \<and> part_index no p2 < 64"
  by (auto simp: part_index_def Let_def not_less not_le)

lemma store_part_fields [simp]:
  "egc_active (store_part i p s) = egc_active s" "egc_message_id (store_part i p s) = egc_message_id s"
  "egc_presentation (store_part i p s) = egc_presentation s"
  "egc_service_code (store_part i p s) = egc_service_code s"
  "egc_priority (store_part i p s) = egc_priority s" "egc_repetition (store_part i p s) = egc_repetition s"
  "max_pkt_no (store_part i p s) = max_pkt_no s" "complete (store_part i p s) = complete s"
  "last_seen (store_part i p s) = last_seen s"
  by (simp_all add: store_part_def Let_def)

lemma slot_wf_fields [simp]:
  "slot_wf (s\<lparr>egc_active := a\<rparr>) = slot_wf s" "slot_wf (s\<lparr>egc_service_code := x\<rparr>) = slot_wf s"
  "slot_wf (s\<lparr>egc_priority := x\<rparr>) = slot_wf s" "slot_wf (s\<lparr>egc_repetition := x\<rparr>) = slot_wf s"
  "slot_wf (s\<lparr>egc_presentation := x\<rparr>) = slot_wf s" "slot_wf (s\<lparr>last_seen := x\<rparr>) = slot_wf s"
  "slot_wf (s\<lparr>complete := a\<rparr>) = slot_wf s"
  by (simp_all add: slot_wf_def)

lemma part_of_fields [simp]:
  "part_of (s\<lparr>egc_active := a\<rparr>) = part_of s" "part_of (s\<lparr>egc_service_code := x\<rparr>) = part_of s"
  "part_of (s\<lparr>egc_priority := x\<rparr>) = part_of s" "part_of (s\<lparr>egc_repetition := x\<rparr>) = part_of s"
  "part_of (s\<lparr>egc_presentation := x\<rparr>) = part_of s" "part_of (s\<lparr>last_seen := x\<rparr>) = part_of s"
  "part_of (s\<lparr>complete := a\<rparr>) = part_of s" "part_of (s\<lparr>max_pkt_no := x\<rparr>) = part_of s"
  by (simp_all add: part_of_def fun_eq_iff)

lemma slot_after_fields:
  "egc_active (slot_after now sv pr rp ps c p2 idx p s) = egc_active s"
  "egc_message_id (slot_after now sv pr rp ps c p2 idx p s) = egc_message_id s"
  "egc_presentation (slot_after now sv pr rp ps c p2 idx p s) = ps"
  "egc_service_code (slot_after now sv pr rp ps c p2 idx p s) = sv"
  "egc_priority (slot_after now sv pr rp ps c p2 idx p s) = pr"
  "egc_repetition (slot_after now sv pr rp ps c p2 idx p s) = rp"
  "max_pkt_no (slot_after now sv pr rp ps c p2 idx p s) = max (max_pkt_no s) idx"
  "complete (slot_after now sv pr rp ps c p2 idx p s) \<longleftrightarrow> complete s \<or> (c = 0 \<and> p2)"
  by (auto simp: slot_after_def Let_def)

lemma slot_after_wf:
  assumes "slot_wf s" "0 \<le> idx" "idx < 64" "length p \<le> 128"
  shows "slot_wf (slot_after now sv pr rp ps c p2 idx p s)"
    and "j < 64 \<Longrightarrow> part_of (slot_after now sv pr rp ps c p2 idx p s) j = (if j = nat idx then p else part_of s j)"
proof -
  let ?s1 = "s\<lparr>egc_service_code := sv, egc_priority := pr, egc_repetition := rp, egc_presentation := ps, last_seen := now\<rparr>"
  have w1: "slot_wf ?s1" using assms(1) by simp
  have i: "nat idx < 64" using assms(2,3) by simp
  note w2 = slot_wf_store [OF w1 i assms(4)]
  have "slot_wf (store_part (nat idx) p ?s1\<lparr>max_pkt_no := idx\<rparr>)"
    using w2 assms(2,3) by (simp add: slot_wf_def)
  with w2 show "slot_wf (slot_after now sv pr rp ps c p2 idx p s)"
    by (simp add: slot_after_def Let_def)
  assume "j < 64"
  from part_of_store [OF w1 i assms(4) this]
  show "part_of (slot_after now sv pr rp ps c p2 idx p s) j = (if j = nat idx then p else part_of s j)"
    by (auto simp: slot_after_def Let_def)
qed

section \<open>A message sent in parts\<close>

text \<open>
  The sender's side: the header fields that all packets of a message share, and the packet of part
  \<open>k\<close>; odd parts travel in 0xB2 packets, \<open>final\<close> clears the continuation bit.
\<close>

record egc_header =
  h_service :: int
  h_priority :: int
  h_repetition :: int
  h_id :: int
  h_presentation :: int
  h_addr :: "u8 list"

definition egc_header_wf :: "egc_header \<Rightarrow> bool" where
  "egc_header_wf h \<longleftrightarrow> 0 \<le> h_service h \<and> h_service h < 256 \<and> 0 \<le> h_priority h \<and> h_priority h < 4 \<and>
     0 \<le> h_repetition h \<and> h_repetition h < 32 \<and> 0 \<le> h_id h \<and> h_id h < 65536 \<and>
     0 \<le> h_presentation h \<and> h_presentation h < 256 \<and>
     int (length (h_addr h)) = get_address_length (h_service h)"

definition egc_body :: "egc_header \<Rightarrow> nat \<Rightarrow> bool \<Rightarrow> u8 list \<Rightarrow> u8 list" where
  "egc_body h k final payload =
     [if odd k then 0xB2 else 0xB1, of_nat (8 + length (h_addr h) + length payload),
      of_int (h_service h), of_int (of_bool (\<not> final) * 128 + h_priority h * 32 + h_repetition h),
      of_int (h_id h div 256), of_int (h_id h mod 256), of_nat (k div 2 + 1), of_int (h_presentation h)]
     @ h_addr h @ payload"

definition egc_packet :: "egc_header \<Rightarrow> nat \<Rightarrow> bool \<Rightarrow> u8 list \<Rightarrow> u8 list" where
  "egc_packet h k final payload = seal (egc_body h k final payload)"

definition part_message :: "egc_header \<Rightarrow> nat \<Rightarrow> bool \<Rightarrow> u8 list \<Rightarrow> stdc_message" where
  "part_message h k final payload =
     new_message (if odd k then STDC_MSG_EGC_DOUBLE_2 else STDC_MSG_EGC_DOUBLE_1) (if odd k then 0xB2 else 0xB1)
       \<lparr>service_code := h_service h, priority := h_priority h, repetition := h_repetition h,
        message_id := h_id h, packet_no := int (k div 2 + 1), continuation := of_bool (\<not> final),
        presentation := h_presentation h, msg_text := part_text (h_presentation h) payload\<rparr>"

lemma length_egc_packet: "length (egc_packet h k final p) = 10 + length (h_addr h) + length p"
  by (simp add: egc_packet_def egc_body_def)

lemma part_index_even_odd: "k < 64 \<Longrightarrow> part_index (int (k div 2 + 1)) (odd k) = int k"
proof -
  assume "k < 64"
  moreover have "int (k div 2) * 2 + of_bool (odd k) = int k"
    by (cases "odd k") (simp_all add: odd_two_times_div_two_succ [symmetric] algebra_simps flip: of_nat_mult of_nat_add, presburger+)
  ultimately show ?thesis by (simp add: part_index_def Let_def algebra_simps)
qed

lemma flag_byte:
  fixes c :: bool
  assumes "0 \<le> p" "p < 4" "0 \<le> r" "r < (32 :: int)"
  defines "b \<equiv> of_bool c * 128 + p * 32 + r"
  shows "drop_bit 7 b AND 1 = of_bool c" "drop_bit 5 b AND 3 = p" "b AND 0x1F = r" "0 \<le> b" "b < 256"
proof -
  have m: "x AND 1 = x mod 2" "x AND 3 = x mod 4" "x AND 0x1F = x mod 32" for x :: int
    using take_bit_eq_mask [of 1 x] take_bit_eq_mask [of 2 x] take_bit_eq_mask [of 5 x]
    by (simp_all add: take_bit_eq_mod mask_numeral and_one_eq)
  define e where "e = (of_bool c :: int)"
  have e: "0 \<le> e" "e < 2" by (cases c; simp add: e_def)+
  have 1: "b = (p * 32 + r) + e * 128" and 2: "b = r + (e * 4 + p) * 32" by (simp_all add: b_def e_def)
  have "b div 128 = e" unfolding 1 using assms(1-4) by simp
  moreover have "b div 32 = e * 4 + p" unfolding 2 using assms(1-4) by simp
  moreover have "b mod 32 = r" unfolding 2 mod_mult_self1 using assms(1-4) by simp
  moreover have "e mod 2 = e" "(e * 4 + p) mod 4 = p" using e assms(1,2) by simp_all
  ultimately show "drop_bit 7 b AND 1 = of_bool c" "drop_bit 5 b AND 3 = p" "b AND 0x1F = r"
    unfolding m by (simp_all add: drop_bit_eq_div e_def)
  show "0 \<le> b" "b < 256" using assms(1-4) e by (simp_all add: b_def flip: e_def)
qed

lemma rd_append:
  "rd (pre @ xs) (int (length pre) + int j) = rd xs (int j)"
  by (simp add: rd_def nat_add_distrib nth_append)

lemma rd_packet:
  assumes "frame = pre @ bs @ post" "pos = int (length pre)" "j < length bs"
  shows "rd frame (pos + int j) = Some (uint (bs ! j))"
  using assms by (simp add: rd_def nat_add_distrib nth_append)

lemma egc_header_read:
  assumes wf: "egc_header_wf h" and k: "k < 64"
    and frame: "frame = pre @ egc_packet h k final p @ post" "pos = int (length pre)"
  shows "rd frame (pos + 2) = Some (h_service h)"
    "rd frame (pos + 3) = Some (of_bool (\<not> final) * 128 + h_priority h * 32 + h_repetition h)"
    "rd16 frame (pos + 4) = Some (h_id h)"
    "rd frame (pos + 6) = Some (int (k div 2 + 1))"
    "rd frame (pos + 7) = Some (h_presentation h)"
proof -
  let ?body = "egc_body h k final p"
  have at: "rd frame (pos + int j) = Some (uint (?body ! j))" if "j < 8" for j
  proof -
    have "j < length ?body" "j < length (egc_packet h k final p)"
      using that by (simp_all add: length_egc_packet egc_body_def)
    then show ?thesis using rd_packet [OF frame] by (simp add: egc_packet_def seal_def split_beta nth_append)
  qed
  have u: "uint (of_int x :: u8) = x" if "0 \<le> x" "x < 256" for x using that by (simp add: uint_of_int_u8)
  have fb: "0 \<le> of_bool (\<not> final) * 128 + h_priority h * 32 + h_repetition h"
      "of_bool (\<not> final) * 128 + h_priority h * 32 + h_repetition h < 256"
    using flag_byte(4,5) [of "h_priority h" "h_repetition h" "\<not> final"] wf by (auto simp: egc_header_wf_def)
  show "rd frame (pos + 2) = Some (h_service h)"
    using at [of 2] u [of "h_service h"] wf by (simp add: egc_body_def egc_header_wf_def)
  show "rd frame (pos + 3) = Some (of_bool (\<not> final) * 128 + h_priority h * 32 + h_repetition h)"
    using at [of 3] u [OF fb] by (simp add: egc_body_def)
  have "0 \<le> h_id h div 256" "h_id h div 256 < 256" using wf by (auto simp: egc_header_wf_def)
  note d = this
  then have "rd frame (pos + 4) = Some (h_id h div 256)" "rd frame (pos + 4 + 1) = Some (h_id h mod 256)"
    using at [of 4] at [of 5] u [of "h_id h div 256"] u [of "h_id h mod 256"] wf
    by (simp_all add: egc_body_def egc_header_wf_def add.assoc)
  then show "rd16 frame (pos + 4) = Some (h_id h)"
    using or_bytes [of "h_id h div 256" "h_id h mod 256" 8] d by (simp add: rd16_def)
  have "uint (of_nat (k div 2 + 1) :: u8) = int (k div 2 + 1)"
    using u [of "int (k div 2 + 1)"] k by simp
  then show "rd frame (pos + 6) = Some (int (k div 2 + 1))"
    using at [of 6] by (simp add: egc_body_def)
  show "rd frame (pos + 7) = Some (h_presentation h)"
    using at [of 7] u [of "h_presentation h"] wf by (simp add: egc_body_def egc_header_wf_def)
qed


text \<open>What the decoder does with the packet of part \<open>k\<close>.\<close>

lemma decode_egc_packet:
  assumes wf: "egc_header_wf h" and k: "k < 64" and p: "length p \<le> 128"
    and frame: "frame = pre @ egc_packet h k final p @ post" "pos = int (length pre)"
    and len: "pkt_len = int (length (egc_packet h k final p))"
    and slot: "find_egc_slot (clk (time_calls d)) (h_id h) (egc_slots d) = (i, slots)"
    and s4: "s4 = slot_after (clk (Suc (time_calls d))) (h_service h) (h_priority h) (h_repetition h)
        (h_presentation h) (of_bool (\<not> final)) (odd k) (int k) p (slots ! i)"
    and d1: "d1 = d\<lparr>egc_slots := slots[i := s4], time_calls := time_calls d + 2\<rparr>"
    and d2: "d2 = (if part_text (h_presentation h) p = [] then d1 else emit_message (part_message h k final p) d1)"
  shows "decode_egc clk frame pos pkt_len (odd k) d = (if complete s4 then try_emit_egc i d2 else Some d2)"
proof -
  have al: "int (length (h_addr h)) = get_address_length (h_service h)" "3 \<le> get_address_length (h_service h)"
    using wf get_address_length_range by (simp_all add: egc_header_wf_def)
  have pl: "pkt_len = 10 + int (length (h_addr h)) + int (length p)" by (simp add: len length_egc_packet)
  let ?start = "pos + (8 + int (length (h_addr h)))"
  have start: "nat ?start = length pre + (8 + length (h_addr h))" using frame(2) by simp
  obtain hdr where hdr: "egc_body h k final p = hdr @ h_addr h @ p" "length hdr = 8"
    using that [of "take 8 (egc_body h k final p)"] by (simp add: egc_body_def)
  obtain crc where crc: "egc_packet h k final p = egc_body h k final p @ crc"
    by (simp add: egc_packet_def seal_def split_beta)
  have "drop (nat ?start) frame = p @ crc @ post"
    unfolding start frame(1) crc hdr(1) by (simp add: hdr(2))
  then have pay: "take (length p) (drop (nat ?start) frame) = p" by simp
  have inb: "0 \<le> ?start" "?start + int (length p) \<le> int (length frame)"
    using frame by (simp_all add: length_egc_packet)
  have blk: "rd_block frame ?start (int (length p)) = Some p"
    using pay inb by (auto simp: rd_block_def)
  have tx: "(if 0 < int (length p) then egc_part_text (h_presentation h) frame ?start (int (length p)) else Some [])
      = Some (part_text (h_presentation h) p)"
    using egc_part_text_eq [OF inb p pay] by (cases p) simp_all
  have fb: "drop_bit 7 (of_bool (\<not> final) * 128 + h_priority h * 32 + h_repetition h) AND 1 = of_bool (\<not> final)"
    "drop_bit 5 (of_bool (\<not> final) * 128 + h_priority h * 32 + h_repetition h) AND 3 = h_priority h"
    "(of_bool (\<not> final) * 128 + h_priority h * 32 + h_repetition h) AND 0x1F = h_repetition h"
    using flag_byte [of "h_priority h" "h_repetition h" "\<not> final"] wf unfolding egc_header_wf_def by blast+
  have n10: "\<not> pkt_len < 10" using pl by simp
  have hs: "(if pkt_len - 2 < 8 + get_address_length (h_service h) then pkt_len - 2
      else 8 + get_address_length (h_service h)) = 8 + int (length (h_addr h))" using pl al by simp
  have pll: "(if pkt_len - 2 - (8 + int (length (h_addr h))) < 0 then 0
      else pkt_len - 2 - (8 + int (length (h_addr h)))) = int (length p)" using pl by simp
  have cap: "(if 128 < int (length p) then 128 else int (length p)) = int (length p)" using p by simp
  note hd = egc_header_read [OF wf k frame]
  note pi = part_index_even_odd [OF k]
  show ?thesis
    unfolding decode_egc_def if_not_P [OF n10] hd bind.bind_lunit Let_def fb hs pll cap slot prod.case pi
      blk tx
    by (simp add: d2 d1 s4 slot_after_def Let_def part_message_def)
qed

lemma find_egc_slot_new:
  assumes "\<forall>s \<in> set slots. egc_active s \<longrightarrow> egc_message_id s \<noteq> msg_id" and "length slots = 16"
  obtains i where "i < 16" "find_egc_slot now msg_id slots = (i, slots[i := claim_slot msg_id now])"
proof -
  have none: "List.find (\<lambda>i. egc_active (slots ! i) \<and> egc_message_id (slots ! i) = msg_id) [0..<16] = None"
    unfolding find_upt_None using assms by (metis nth_mem)
  show ?thesis
  proof (cases "List.find (\<lambda>i. \<not> egc_active (slots ! i) \<or> 60 < now - last_seen (slots ! i)) [0..<16]")
    case None
    with none show ?thesis using oldest_slot_less [of slots]
      by (intro that [of "oldest_slot slots"]) (simp_all only: find_egc_slot_def option.case Let_def)
  next
    case (Some k)
    then have "k < 16" by (simp only: find_upt_Some)
    with none Some show ?thesis
      by (intro that [of k]) (simp_all only: find_egc_slot_def option.case)
  qed
qed

text \<open>The packets of parts \<open>k\<close>, \<open>k + 1\<close>, ... of a message of \<open>n\<close> parts, decoded one after the other.\<close>

fun deliver_parts :: "(nat \<Rightarrow> int) \<Rightarrow> egc_header \<Rightarrow> nat \<Rightarrow> nat \<Rightarrow> u8 list list \<Rightarrow> stdc_decoder \<Rightarrow> stdc_decoder option" where
  "deliver_parts clk h n k [] d = Some d"
| "deliver_parts clk h n k (p # ps) d =
     (let pkt = egc_packet h k (Suc k = n) p
      in decode_egc clk pkt 0 (int (length pkt)) (odd k) d \<bind> deliver_parts clk h n (Suc k) ps)"

definition part_messages :: "egc_header \<Rightarrow> nat \<Rightarrow> nat \<Rightarrow> u8 list list \<Rightarrow> stdc_message list" where
  "part_messages h n k ps =
     [part_message h j (Suc j = n) p. (j, p) \<leftarrow> enumerate k ps, part_text (h_presentation h) p \<noteq> []]"

definition whole_message :: "egc_header \<Rightarrow> u8 list list \<Rightarrow> stdc_message" where
  "whole_message h ps = new_message STDC_MSG_EGC_DOUBLE_1 0xB1
     \<lparr>service_code := h_service h, priority := h_priority h, repetition := h_repetition h,
      message_id := h_id h, msg_text := take 4095 (concat (map (part_text (h_presentation h)) ps))\<rparr>"

definition whole_messages :: "egc_header \<Rightarrow> u8 list list \<Rightarrow> stdc_message list" where
  "whole_messages h ps = (if msg_text (whole_message h ps) = [] then [] else [whole_message h ps])"

text \<open>A slot that holds the first \<open>k\<close> parts of the message.\<close>

definition collecting :: "egc_header \<Rightarrow> u8 list list \<Rightarrow> nat \<Rightarrow> egc_reassembly \<Rightarrow> bool" where
  "collecting h ps k s \<longleftrightarrow> slot_wf s \<and> egc_active s \<and> egc_message_id s = h_id h \<and> \<not> complete s \<and>
     (\<forall>j < k. part_of s j = ps ! j) \<and> max_pkt_no s = int (k - 1)"

lemma collecting_claim: "collecting h ps 0 (claim_slot (h_id h) t)"
  by (simp add: collecting_def slot_wf_claim) (simp add: claim_slot_def empty_slot_def)

lemma no_active_after_release:
  assumes "slots_wf slots" "i < 16" "egc_active (slots ! i)" "egc_message_id (slots ! i) = m" "\<not> egc_active s"
  shows "\<forall>x \<in> set (slots[i := s]). egc_active x \<longrightarrow> egc_message_id x \<noteq> m"
proof
  fix x assume "x \<in> set (slots[i := s])"
  moreover have len: "length slots = 16" using assms(1) by (simp add: slots_wf_def)
  ultimately obtain j where j: "j < 16" "x = slots[i := s] ! j" by (auto simp: in_set_conv_nth)
  show "egc_active x \<longrightarrow> egc_message_id x \<noteq> m"
  proof (cases "j = i")
    case False
    with assms(1,2,3,4) j show ?thesis unfolding slots_wf_def by auto
  qed (use assms j len in simp)
qed

lemma deliver_parts_correct:
  assumes wf: "egc_header_wf h" and n: "even n" "n \<le> 64" "n = length all" and parts: "\<forall>p \<in> set all. length p \<le> 128"
    and clk: "find_egc_slot (clk (time_calls d)) (h_id h) (egc_slots d) = (i, slots)"
    and i: "i < 16" "slots_wf slots" "collecting h all k (slots ! i)"
    and rest: "ps = drop k all" "k < n"
  shows "\<exists>d'. deliver_parts clk h n k ps d = Some d' \<and>
     emitted d' = emitted d @ part_messages h n k ps @ whole_messages h all \<and>
     slots_wf (egc_slots d') \<and> (\<forall>s \<in> set (egc_slots d'). egc_active s \<longrightarrow> egc_message_id s \<noteq> h_id h)"
  using clk i rest
proof (induction ps arbitrary: k d i slots)
  case (Cons p ps)
  have kn: "k < n" "k < 64" and lk: "k < length all" using Cons.prems n by simp_all
  then have p: "p = all ! k" "ps = drop (Suc k) all" "length p \<le> 128"
    using Cons.prems(5) parts by (auto simp: Cons_nth_drop_Suc [symmetric])
  define final where "final = (Suc k = n)"
  define s4 where "s4 = slot_after (clk (Suc (time_calls d))) (h_service h) (h_priority h) (h_repetition h)
      (h_presentation h) (of_bool (\<not> final)) (odd k) (int k) p (slots ! i)"
  define d1 where "d1 = d\<lparr>egc_slots := slots[i := s4], time_calls := time_calls d + 2\<rparr>"
  define d2 where "d2 = (if part_text (h_presentation h) p = [] then d1 else emit_message (part_message h k final p) d1)"
  let ?pkt = "egc_packet h k final p"
  have dec: "decode_egc clk ?pkt 0 (int (length ?pkt)) (odd k) d = (if complete s4 then try_emit_egc i d2 else Some d2)"
    by (rule decode_egc_packet [where pre = "[]" and post = "[]", OF wf kn(2) p(3) _ _ refl Cons.prems(1) s4_def d1_def d2_def]) simp_all
  have col: "slot_wf (slots ! i)" "egc_active (slots ! i)" "egc_message_id (slots ! i) = h_id h"
      "\<not> complete (slots ! i)" "\<And>j. j < k \<Longrightarrow> part_of (slots ! i) j = all ! j" "max_pkt_no (slots ! i) = int (k - 1)"
    using Cons.prems(4) by (auto simp: collecting_def)
  have s4: "slot_wf s4" "egc_active s4" "egc_message_id s4 = h_id h" "max_pkt_no s4 = int k"
      "egc_presentation s4 = h_presentation h" "egc_service_code s4 = h_service h"
      "egc_priority s4 = h_priority h" "egc_repetition s4 = h_repetition h"
    using slot_after_wf(1) [OF col(1), of "int k"] p(3) kn col unfolding s4_def
    by (simp_all add: slot_after_fields)
  have parts4: "part_of s4 j = all ! j" if "j < Suc k" for j
    using slot_after_wf(2) [OF col(1), of "int k" p j] that p kn col(5) [of j] unfolding s4_def
    by (auto simp: less_Suc_eq)
  have comp: "complete s4 \<longleftrightarrow> final"
    using col(4) n(1) unfolding s4_def slot_after_fields final_def by auto
  have len: "length slots = 16" using Cons.prems(3) by (simp add: slots_wf_def)
  have wf4: "slots_wf (slots[i := s4])"
    by (rule slots_wf_update [OF Cons.prems(3) s4(1) Cons.prems(2)]) (simp add: col s4)
  have d2: "egc_slots d2 = slots[i := s4]"
      "emitted d2 = emitted d @ (if part_text (h_presentation h) p = [] then [] else [part_message h k final p])"
    by (simp_all add: d2_def d1_def emit_message_def)
  have pm: "part_messages h n k (p # ps) =
      (if part_text (h_presentation h) p = [] then [] else [part_message h k final p]) @ part_messages h n (Suc k) ps"
    unfolding final_def by (simp add: part_messages_def)
  show ?case
  proof (cases final)
    case False
    have "find_egc_slot (clk (time_calls d2)) (h_id h) (egc_slots d2) = (i, slots[i := s4])"
      unfolding d2 using wf4 Cons.prems(2) s4 len by (intro find_egc_slot_again) simp_all
    moreover have "collecting h all (Suc k) (slots[i := s4] ! i)"
      using s4 comp False parts4 len Cons.prems(2) by (simp add: collecting_def)
    ultimately have "\<exists>d'. deliver_parts clk h n (Suc k) ps d2 = Some d' \<and>
        emitted d' = emitted d2 @ part_messages h n (Suc k) ps @ whole_messages h all \<and>
        slots_wf (egc_slots d') \<and> (\<forall>s \<in> set (egc_slots d'). egc_active s \<longrightarrow> egc_message_id s \<noteq> h_id h)"
      using Cons.prems(2) wf4 p(2) kn(1) False unfolding final_def by (intro Cons.IH) auto
    with dec comp False show ?thesis by (auto simp: Let_def pm d2 final_def)
  next
    case True
    have n': "n = Suc k" "ps = []" using True p(2) n(3) by (simp_all add: final_def)
    have "map (\<lambda>j. part_text (egc_presentation s4) (part_of s4 j)) [0..<0 + n] = map (part_text (h_presentation h)) all"
      by (rule nth_equalityI) (use n(3) n'(1) parts4 s4(5) in simp_all)
    then have tx: "egc_text_loop s4 0 (nat (max_pkt_no s4 + 1)) [] = Some (msg_text (whole_message h all))"
      using egc_text_loop_eq [OF s4(1), of 0 n "[]"] n(2) n'(1) s4(4) by (simp add: whole_message_def nat_add_distrib)
    define d3 where "d3 = (if msg_text (whole_message h all) = [] then d2 else emit_message (whole_message h all) d2)
        \<lparr>egc_slots := (slots[i := s4])[i := s4\<lparr>egc_active := False\<rparr>]\<rparr>"
    have "try_emit_egc i d2 = Some d3"
      using comp True tx s4 len Cons.prems(2)
      by (simp add: try_emit_egc_def Let_def d2 d3_def emit_message_def) (simp add: whole_message_def)
    then have "deliver_parts clk h n k (p # ps) d = Some d3"
      using dec comp True n' by (simp add: Let_def final_def)
    moreover have "emitted d3 = emitted d @ part_messages h n k (p # ps) @ whole_messages h all"
      unfolding pm n'(2)
      by (simp add: d3_def emit_message_def d2 whole_messages_def) (simp add: part_messages_def final_def)
    moreover have "slots_wf (egc_slots d3)"
      unfolding d3_def using slots_wf_update [OF wf4, of "s4\<lparr>egc_active := False\<rparr>" i] s4(1) Cons.prems(2) by simp
    moreover have "\<forall>s \<in> set (egc_slots d3). egc_active s \<longrightarrow> egc_message_id s \<noteq> h_id h"
      unfolding d3_def using no_active_after_release [OF wf4 Cons.prems(2), of "h_id h" "s4\<lparr>egc_active := False\<rparr>"]
        s4 len Cons.prems(2) by simp
    ultimately show ?thesis by blast
  qed
qed (use n(3) in simp)

lemma deliver_message:
  assumes wf: "egc_header_wf h" and n: "even (length ps)" "ps \<noteq> []" "length ps \<le> 64"
    and parts: "\<forall>p \<in> set ps. length p \<le> 128"
    and d: "slots_wf (egc_slots d)" "\<forall>s \<in> set (egc_slots d). egc_active s \<longrightarrow> egc_message_id s \<noteq> h_id h"
  shows "\<exists>d'. deliver_parts clk h (length ps) 0 ps d = Some d' \<and>
     emitted d' = emitted d @ part_messages h (length ps) 0 ps @ whole_messages h ps \<and>
     slots_wf (egc_slots d') \<and> (\<forall>s \<in> set (egc_slots d'). egc_active s \<longrightarrow> egc_message_id s \<noteq> h_id h)"
proof -
  let ?t = "clk (time_calls d)"
  have len: "length (egc_slots d) = 16" using d(1) by (simp add: slots_wf_def)
  obtain i where i: "i < 16" "find_egc_slot ?t (h_id h) (egc_slots d) = (i, (egc_slots d)[i := claim_slot (h_id h) ?t])"
    using find_egc_slot_new [OF d(2) len, of ?t thesis] by blast
  moreover have "slots_wf ((egc_slots d)[i := claim_slot (h_id h) ?t])"
    using find_egc_slot_result(4) [OF d(1) i(2)] .
  moreover have "collecting h ps 0 ((egc_slots d)[i := claim_slot (h_id h) ?t] ! i)"
    using len i(1) by (simp add: collecting_claim)
  ultimately show ?thesis using n by (intro deliver_parts_correct [OF wf _ _ _ parts]) auto
qed

section \<open>Every EGC packet\<close>

lemma try_emit_egc_safe:
  assumes wf: "slots_wf (egc_slots d)" and i: "i < 16"
  shows "\<exists>ms slots. try_emit_egc i d = Some (d\<lparr>egc_slots := slots, emitted := emitted d @ ms\<rparr>) \<and> slots_wf slots"
proof -
  let ?s = "egc_slots d ! i"
  have s: "slot_wf ?s" using wf i by (simp add: slots_wf_def)
  then have "max_pkt_no ?s < 64" by (simp add: slot_wf_def)
  then have "0 + nat (max_pkt_no ?s + 1) \<le> 64" by linarith
  from egc_text_loop_eq [OF s this, of "[]"] obtain t
    where t: "egc_text_loop ?s 0 (nat (max_pkt_no ?s + 1)) [] = Some t" by simp
  have w: "slots_wf ((egc_slots d)[i := ?s\<lparr>egc_active := False\<rparr>])"
    by (rule slots_wf_update [OF wf _ i]) (simp_all add: s)
  define m where "m = new_message STDC_MSG_EGC_DOUBLE_1 0xB1
      \<lparr>service_code := egc_service_code ?s, priority := egc_priority ?s, repetition := egc_repetition ?s,
       message_id := egc_message_id ?s, msg_text := t\<rparr>"
  show ?thesis
  proof (cases "complete ?s")
    case False
    then have "try_emit_egc i d = Some (d\<lparr>egc_slots := egc_slots d, emitted := emitted d @ []\<rparr>)"
      by (simp add: try_emit_egc_def Let_def)
    with wf show ?thesis by blast
  next
    case True
    then have "try_emit_egc i d = Some (d\<lparr>egc_slots := (egc_slots d)[i := ?s\<lparr>egc_active := False\<rparr>],
        emitted := emitted d @ (if t = [] then [] else [m])\<rparr>)"
      by (simp add: try_emit_egc_def Let_def t m_def emit_message_def)
    with w show ?thesis by blast
  qed
qed

lemma decode_egc_safe:
  assumes wf: "slots_wf (egc_slots d)" and r: "readable frame pos pkt_len"
  shows "\<exists>ms slots n. decode_egc clk frame pos pkt_len p2 d =
      Some (d\<lparr>egc_slots := slots, time_calls := n, emitted := emitted d @ ms\<rparr>) \<and> slots_wf slots"
proof (cases "pkt_len < 10")
  case True
  then have "decode_egc clk frame pos pkt_len p2 d =
      Some (d\<lparr>egc_slots := egc_slots d, time_calls := time_calls d, emitted := emitted d @ []\<rparr>)"
    by (simp add: decode_egc_def)
  with wf show ?thesis by blast
next
  case False
  note p = readable_packet [OF r]
  obtain sv b3 no pres where rd: "rd frame (pos + 2) = Some sv" "rd frame (pos + 3) = Some b3"
      "rd frame (pos + 6) = Some no" "rd frame (pos + 7) = Some pres"
    using readable_Some(1) [OF r, of 2] readable_Some(1) [OF r, of 3] readable_Some(1) [OF r, of 6]
      readable_Some(1) [OF r, of 7] False by auto
  obtain id where id: "rd16 frame (pos + 4) = Some id" using readable_Some(2) [OF r, of 4] False by auto
  obtain i slots where f: "find_egc_slot (clk (time_calls d)) id (egc_slots d) = (i, slots)" by fastforce
  note fs = find_egc_slot_result [OF wf f]
  define hs where "hs = (if pkt_len - 2 < 8 + get_address_length sv then pkt_len - 2 else 8 + get_address_length sv)"
  define pl0 where "pl0 = (if pkt_len - 2 - hs < 0 then 0 else pkt_len - 2 - hs)"
  define pl where "pl = (if 128 < pl0 then 128 else pl0)"
  have hs: "0 \<le> hs" "hs \<le> pkt_len - 2" using False get_address_length_range [of sv] by (auto simp: hs_def)
  then have pl: "0 \<le> pl" "pl \<le> 128" "pos + hs + pl \<le> int (length frame)" using p by (auto simp: pl_def pl0_def)
  define payload where "payload = take (nat pl) (drop (nat (pos + hs)) frame)"
  have blk: "rd_block frame (pos + hs) pl = Some payload" unfolding payload_def
    using rd_block_Some [of "pos + hs" pl frame] p hs pl by simp
  have lp: "int (length payload) = pl" using rd_block_length [OF blk] pl by simp
  have tx: "(if 0 < pl then egc_part_text pres frame (pos + hs) pl else Some []) = Some (part_text pres payload)"
  proof -
    have "egc_part_text pres frame (pos + hs) (int (length payload)) = Some (part_text pres payload)"
      by (rule egc_part_text_eq) (use p hs pl lp in \<open>auto simp: payload_def\<close>)
    moreover have "payload = []" if "\<not> 0 < pl"
    proof -
      have "int (length payload) \<le> 0" using that lp by linarith
      then show ?thesis by simp
    qed
    ultimately show ?thesis using lp by auto
  qed
  let ?idx = "part_index no p2" and ?cont = "drop_bit 7 b3 AND 1"
  define s4 where "s4 = slot_after (clk (Suc (time_calls d))) sv (drop_bit 5 b3 AND 3) (b3 AND 0x1F) pres ?cont p2 ?idx payload (slots ! i)"
  have si: "slot_wf (slots ! i)" using fs by (simp add: slots_wf_def)
  have w4: "slot_wf s4" unfolding s4_def
    by (rule slot_after_wf(1) [OF si]) (use part_index_range [of no p2] pl lp in auto)
  define d1 where "d1 = d\<lparr>egc_slots := slots[i := s4], time_calls := time_calls d + 2\<rparr>"
  define m where "m = new_message (if p2 then STDC_MSG_EGC_DOUBLE_2 else STDC_MSG_EGC_DOUBLE_1) (if p2 then 0xB2 else 0xB1)
      \<lparr>service_code := sv, priority := drop_bit 5 b3 AND 3, repetition := b3 AND 0x1F, message_id := id,
       packet_no := no, continuation := ?cont, presentation := pres, msg_text := part_text pres payload\<rparr>"
  define d2 where "d2 = (if part_text pres payload = [] then d1 else emit_message m d1)"
  have dec: "decode_egc clk frame pos pkt_len p2 d = (if complete s4 then try_emit_egc i d2 else Some d2)"
    unfolding decode_egc_def if_not_P [OF False] rd id bind.bind_lunit Let_def hs_def [symmetric]
      pl0_def [symmetric] pl_def [symmetric] f prod.case blk tx
    by (simp add: d2_def d1_def s4_def slot_after_def Let_def m_def)
  have w: "slots_wf (slots[i := s4])"
    by (rule slots_wf_update [OF fs(4) w4 fs(1)]) (simp add: s4_def slot_after_fields)
  have d2: "d2 = d\<lparr>egc_slots := slots[i := s4], time_calls := time_calls d + 2,
      emitted := emitted d @ (if part_text pres payload = [] then [] else [m])\<rparr>"
    by (simp add: d2_def d1_def emit_message_def)
  show ?thesis
  proof (cases "complete s4")
    case False
    then have "decode_egc clk frame pos pkt_len p2 d = Some d2" using dec by simp
    with w show ?thesis unfolding d2 by blast
  next
    case True
    have "slots_wf (egc_slots d2)" using w d2 by simp
    from try_emit_egc_safe [OF this fs(1)] obtain ms slots' where
      e: "try_emit_egc i d2 = Some (d2\<lparr>egc_slots := slots', emitted := emitted d2 @ ms\<rparr>)" "slots_wf slots'" by blast
    have "decode_egc clk frame pos pkt_len p2 d = try_emit_egc i d2" using dec True by simp
    also have "\<dots> = Some (d\<lparr>egc_slots := slots', time_calls := time_calls d + 2,
        emitted := emitted d @ ((if part_text pres payload = [] then [] else [m]) @ ms)\<rparr>)"
      unfolding e(1) by (simp add: d2)
    finally show ?thesis using e(2) by blast
  qed
qed

section \<open>Properties\<close>

text \<open>
  C10: reassembly.  The packets of a message of \<open>n\<close> parts (\<open>n\<close> even, at most 64, at most 128 bytes
  each), decoded in order when no slot is collecting this message id, emit every non-empty part at
  once and, with the last part, one message whose text is the parts' texts in order, cut to the
  4095 characters of the text buffer.  The slot is free again afterwards.
\<close>

theorem egc_message_reassembled:
  assumes "egc_header_wf h" and "even (length ps)" and "ps \<noteq> []" and "length ps \<le> 64"
    and "\<forall>p \<in> set ps. length p \<le> 128"
    and "slots_wf (egc_slots d)" and "\<forall>s \<in> set (egc_slots d). egc_active s \<longrightarrow> egc_message_id s \<noteq> h_id h"
  shows "\<exists>d'. deliver_parts clk h (length ps) 0 ps d = Some d' \<and>
     emitted d' = emitted d @ part_messages h (length ps) 0 ps @ whole_messages h ps \<and>
     slots_wf (egc_slots d') \<and> (\<forall>s \<in> set (egc_slots d'). egc_active s \<longrightarrow> egc_message_id s \<noteq> h_id h)"
  using deliver_message [OF assms] .

lemma slots_wf_create: "slots_wf (egc_slots stdc_decoder_create)"
  by (simp add: slots_wf_def stdc_decoder_create_def slot_wf_empty) (simp add: empty_slot_def)

theorem egc_message_reassembled_witness:
  "\<exists>d'. deliver_parts (\<lambda>_. 1000)
       \<lparr>h_service = 0x31, h_priority = 1, h_repetition = 2, h_id = 4711, h_presentation = 0, h_addr = [1, 2, 3, 4]\<rparr>
       2 0 [[0x48], [0x49]] stdc_decoder_create = Some d' \<and>
     map msg_text (emitted d') = [''H'', ''I'', ''HI'']"
proof -
  let ?h = "\<lparr>h_service = 0x31, h_priority = 1, h_repetition = 2, h_id = 4711, h_presentation = 0, h_addr = [1, 2, 3, 4]\<rparr>"
  have h: "egc_header_wf ?h" by (simp add: egc_header_wf_def get_address_length_def)
  have none: "\<forall>s \<in> set (egc_slots stdc_decoder_create). egc_active s \<longrightarrow> egc_message_id s \<noteq> h_id ?h"
    by (simp add: stdc_decoder_create_def empty_slot_def)
  have t: "part_text 0 [0x48] = ''H''" "part_text 0 [0x49] = ''I''" by code_simp+
  obtain d' where d: "deliver_parts (\<lambda>_. 1000) ?h 2 0 [[0x48], [0x49]] stdc_decoder_create = Some d'"
    "emitted d' = emitted stdc_decoder_create @ part_messages ?h 2 0 [[0x48], [0x49]] @ whole_messages ?h [[0x48], [0x49]]"
    using egc_message_reassembled [OF h _ _ _ _ slots_wf_create none, of "[[0x48], [0x49]]" "\<lambda>_. 1000"]
    by (auto simp: numeral_2_eq_2)
  have "map msg_text (emitted d') = [''H'', ''I'', ''HI'']"
    unfolding d(2) by (simp add: stdc_decoder_create_def part_messages_def whole_messages_def whole_message_def
        part_message_def new_message_def t)
  then show ?thesis by (intro exI [of _ d'] conjI d(1))
qed

text \<open>
  C17: the parts table.  After storing parts in any order, at each index the last part stored there is
  what the table holds, and an index that was not stored to keeps its part.
\<close>

theorem egc_parts_kept:
  assumes "slot_wf s" and "\<forall>(i, p) \<in> set ps. i < 64 \<and> length p \<le> 128" and "j < 64"
  shows "part_of (fold (\<lambda>(i, p). store_part i p) ps s) j =
    (case map_of (rev ps) j of None \<Rightarrow> part_of s j | Some p \<Rightarrow> p)"
  using egc.part_store_all [OF assms] by (simp only: egc.store_all_def)

theorem egc_parts_kept_witness:
  "part_of (fold (\<lambda>(i, p). store_part i p) [(3, [1, 2]), (2, [9]), (3, [7])] empty_slot) 3 = [7]"
  by (subst egc_parts_kept [OF slot_wf_empty]) simp_all

text \<open>
  C16: safety of EGC decoding.  For every packet inside the frame buffer \<open>decode_egc\<close> makes no access outside
  its buffers, and it changes nothing but the slots, which keep their invariant, the messages
  emitted and the clock.
\<close>

theorem egc_decode_safe:
  assumes "slots_wf (egc_slots d)" and "0 \<le> pos" and "pos + pkt_len \<le> int (length frame)"
  shows "\<exists>ms slots n. decode_egc clk frame pos pkt_len p2 d =
      Some (d\<lparr>egc_slots := slots, time_calls := n, emitted := emitted d @ ms\<rparr>) \<and> slots_wf slots"
  using decode_egc_safe [of d frame pos pkt_len clk p2] assms by (simp add: readable_def)

theorem egc_decode_safe_witness:
  "\<exists>ms slots n. decode_egc (\<lambda>_. 0) (replicate 20 0xB1) 5 12 True stdc_decoder_create =
      Some (stdc_decoder_create\<lparr>egc_slots := slots, time_calls := n, emitted := emitted stdc_decoder_create @ ms\<rparr>) \<and>
      slots_wf slots"
  by (rule egc_decode_safe [OF slots_wf_create]) simp_all

end
