(* ===== verification/StdcParse.thy ===== *)
theory StdcParse
  imports StdcEgcFacts
begin

text \<open>
  The packet parser of \<open>stdc_decode.c\<close>: \<open>parse_packets\<close> with its dispatch, and the reassembly of
  packets that span several frames, which calls the parser again on its own buffer.
\<close>

unbundle bit_operations_syntax

section \<open>Faults and buffers\<close>

text \<open>
  What ends the program or is undefined in C: an access outside a buffer, a \<open>memcpy\<close> with overlapping
  ranges, and nested calls beyond the depth that the stack allows.
\<close>

datatype fault = OutOfBounds | OverlappingCopy | CallDepth

text \<open>
  The \<open>frame\<close> argument of \<open>parse_packets\<close>: the decoded frame, or the multiframe buffer, which
  the decoders called on it may change under their feet.
\<close>

datatype source = Decoded | Mfp

definition buffer :: "source \<Rightarrow> stdc_decoder \<Rightarrow> u8 list" where
  "buffer src d = (case src of Decoded \<Rightarrow> decoded d | Mfp \<Rightarrow> mf_data (mfp d))"

text \<open>\<open>memcpy(mfp->data + off, &frame[start], n)\<close>.\<close>

definition copy_to_mfp :: "source \<Rightarrow> int \<Rightarrow> int \<Rightarrow> int \<Rightarrow> stdc_decoder \<Rightarrow> fault + stdc_decoder" where
  "copy_to_mfp src start n off d =
     (if n \<le> 0 then Inr d
      else if src = Mfp \<and> off < start + n \<and> start < off + n then Inl OverlappingCopy
      else case rd_block (buffer src d) start n of
          None \<Rightarrow> Inl OutOfBounds
        | Some bs \<Rightarrow>
            (let data = mf_data (mfp d)
             in if off < 0 \<or> int (length data) < off + n then Inl OutOfBounds
                else Inr (d\<lparr>mfp := (mfp d)\<lparr>mf_data :=
                       take (nat off) data @ bs @ drop (nat (off + n)) data\<rparr>\<rparr>)))"

section \<open>Multiframe packets\<close>

definition decode_multiframe_start :: "source \<Rightarrow> int \<Rightarrow> int \<Rightarrow> stdc_decoder \<Rightarrow> fault + stdc_decoder" where
  "decode_multiframe_start src pos pkt_len d =
     (if pkt_len < 5 then Inr d
      else case rd (buffer src d) (pos + 2) of
          None \<Rightarrow> Inl OutOfBounds
        | Some inner_desc \<Rightarrow>
           (case (if drop_bit 7 inner_desc = 0 then Some ((inner_desc AND 0x0F) + 1)
                  else if drop_bit 6 inner_desc = 0x02 then map_option (\<lambda>n. n + 2) (rd (buffer src d) (pos + 3))
                  else Some 256) of
               None \<Rightarrow> Inl OutOfBounds
             | Some inner_len \<Rightarrow>
                (let d1 = d\<lparr>mfp := \<lparr>mf_active = True, mf_data = replicate 4096 0,
                                     mf_total_len = inner_len, mf_filled = 0\<rparr>\<rparr>;
                     c0 = pkt_len - 2 - 2;
                     c1 = (if c0 < 0 then 0 else c0);
                     first_chunk = (if 4096 < c1 then 4096 else c1)
                 in case copy_to_mfp src (pos + 2) first_chunk 0 d1 of
                      Inl e \<Rightarrow> Inl e
                    | Inr d2 \<Rightarrow> Inr (d2\<lparr>mfp := (mfp d2)\<lparr>mf_filled := first_chunk\<rparr>\<rparr>))))"

text \<open>
  \<open>decode_multiframe_cont\<close> up to the nested call: the new state, and whether the encapsulated packet is
  complete, so that \<open>parse_packets(d, mfp->data, mfp->total_len)\<close> follows.
\<close>

definition decode_multiframe_cont :: "source \<Rightarrow> int \<Rightarrow> int \<Rightarrow> stdc_decoder \<Rightarrow> fault + (stdc_decoder \<times> bool)" where
  "decode_multiframe_cont src pos pkt_len d =
     (if \<not> mf_active (mfp d) then Inr (d, False)
      else (let p0 = pkt_len - 2 - 2;
                p1 = (if p0 < 0 then 0 else p0);
                space = 4096 - mf_filled (mfp d);
                payload_len = (if space < p1 then space else p1)
            in case copy_to_mfp src (pos + 2) payload_len (mf_filled (mfp d)) d of
                 Inl e \<Rightarrow> Inl e
               | Inr d1 \<Rightarrow>
                  (let d2 = d1\<lparr>mfp := (mfp d1)\<lparr>mf_filled := mf_filled (mfp d1) + payload_len\<rparr>\<rparr>
                   in Inr (d2, mf_total_len (mfp d2) - 2 \<le> mf_filled (mfp d2)))))"

section \<open>The parser\<close>

text \<open>
  One round of the loop: it ends the loop, goes on at a position, or first parses the
  multiframe buffer and then goes on.
\<close>

datatype step = Fault fault | Stop stdc_decoder | Next int stdc_decoder | Nested int stdc_decoder

definition next_or_fault :: "int \<Rightarrow> stdc_decoder option \<Rightarrow> step" where
  "next_or_fault pos r = (case r of None \<Rightarrow> Fault OutOfBounds | Some d \<Rightarrow> Next pos d)"

definition dispatch :: "(nat \<Rightarrow> int) \<Rightarrow> source \<Rightarrow> int \<Rightarrow> int \<Rightarrow> int \<Rightarrow> stdc_decoder \<Rightarrow> step" where
  "dispatch clk src desc pos pkt_len d =
     (let frame = buffer src d; pos' = pos + pkt_len
      in case decoder_of desc of
           Some f \<Rightarrow> next_or_fault pos'
             (map_option (\<lambda>ms. fold emit_message ms d) (f frame pos pkt_len))
         | None \<Rightarrow>
             if desc = 0xB1 then next_or_fault pos' (decode_egc clk frame pos pkt_len False d)
             else if desc = 0xB2 then next_or_fault pos' (decode_egc clk frame pos pkt_len True d)
             else if desc = 0xBD then
               (case decode_multiframe_start src pos pkt_len d of Inl e \<Rightarrow> Fault e | Inr d' \<Rightarrow> Next pos' d')
             else if desc = 0xBE then
               (case decode_multiframe_cont src pos pkt_len d of
                  Inl e \<Rightarrow> Fault e | Inr (d', full) \<Rightarrow> if full then Nested pos' d' else Next pos' d')
             else Next pos' d)"

definition packet_step :: "(nat \<Rightarrow> int) \<Rightarrow> source \<Rightarrow> int \<Rightarrow> int \<Rightarrow> stdc_decoder \<Rightarrow> step" where
  "packet_step clk src frame_len pos d =
     (let frame = buffer src d
      in case rd frame pos of
           None \<Rightarrow> Fault OutOfBounds
         | Some desc \<Rightarrow>
             if desc = 0x00 then Stop d
             else if desc = 0xFF then Next (pos + 1) d
             else (case get_packet_length frame pos frame_len of
                 None \<Rightarrow> Fault OutOfBounds
               | Some pkt_len \<Rightarrow>
                   if pkt_len \<le> 0 \<or> frame_len < pos + pkt_len then Stop d
                   else (case (rd16 frame (pos + pkt_len - 2), compute_crc frame pos pkt_len) of
                       (Some pkt_crc, Some calc_crc) \<Rightarrow>
                         if pkt_crc = 0 \<or> pkt_crc = calc_crc
                         then dispatch clk src desc pos pkt_len (d\<lparr>stat_crc_ok := stat_crc_ok d + 1\<rparr>)
                         else Next (pos + pkt_len) (d\<lparr>stat_crc_fail := stat_crc_fail d + 1\<rparr>)
                     | _ \<Rightarrow> Fault OutOfBounds)))"

lemma dispatch_progress:
  "dispatch clk src desc pos n d = Next p d' \<Longrightarrow> p = pos + n"
  "dispatch clk src desc pos n d = Nested p d' \<Longrightarrow> p = pos + n"
  by (auto simp: dispatch_def next_or_fault_def Let_def split: option.splits if_splits sum.splits prod.splits)

lemma packet_step_progress:
  "packet_step clk src frame_len pos d = Next p d' \<Longrightarrow> pos < p"
  "packet_step clk src frame_len pos d = Nested p d' \<Longrightarrow> pos < p"
  by (auto simp: packet_step_def Let_def split: option.splits if_splits dest: dispatch_progress)

text \<open>
  \<open>parse_packets\<close>, with \<open>depth\<close> the number of nested calls that fit on the stack.  After a nested call
  returns, \<open>decode_multiframe_cont\<close> clears the \<open>active\<close> flag.
\<close>

definition clear_active :: "stdc_decoder \<Rightarrow> stdc_decoder" where
  "clear_active d = d\<lparr>mfp := (mfp d)\<lparr>mf_active := False\<rparr>\<rparr>"

function parse_loop :: "(nat \<Rightarrow> int) \<Rightarrow> nat \<Rightarrow> source \<Rightarrow> int \<Rightarrow> int \<Rightarrow> stdc_decoder \<Rightarrow> fault + stdc_decoder" where
  "parse_loop clk depth src frame_len pos d =
     (if pos < frame_len - 2
      then (case packet_step clk src frame_len pos d of
              Fault e \<Rightarrow> Inl e
            | Stop d' \<Rightarrow> Inr d'
            | Next pos' d' \<Rightarrow> parse_loop clk depth src frame_len pos' d'
            | Nested pos' d' \<Rightarrow>
                (case depth of
                   0 \<Rightarrow> Inl CallDepth
                 | Suc n \<Rightarrow>
                     (case parse_loop clk n Mfp (mf_total_len (mfp d')) 0 d' of
                        Inl e \<Rightarrow> Inl e
                      | Inr d'' \<Rightarrow> parse_loop clk depth src frame_len pos' (clear_active d''))))
      else Inr d)"
  by pat_completeness auto

termination
  by (relation "measures [\<lambda>(clk, depth, src, frame_len, pos, d). depth,
        \<lambda>(clk, depth, src, frame_len, pos, d). nat (frame_len - pos)]")
    (auto dest: packet_step_progress)

declare parse_loop.simps [simp del]

definition parse_packets :: "(nat \<Rightarrow> int) \<Rightarrow> nat \<Rightarrow> source \<Rightarrow> int \<Rightarrow> stdc_decoder \<Rightarrow> fault + stdc_decoder" where
  "parse_packets clk depth src frame_len d = parse_loop clk depth src frame_len 0 d"

end
