(* ===== verification/StdcParseFacts.thy ===== *)
theory StdcParseFacts
  imports StdcParse
begin

text \<open>
  Facts about the packet parser: the invariant of the decoder state and the hazards that are the only
  ways to fail (with \<open>parse_visits\<close>, the rounds of a run, nested calls included), the nested call that
  never returns, and the parse of a frame made of well-formed packets, which is
  the packets handled one after the other (locale \<open>packet_in_frame\<close>).
\<close>

unbundle bit_operations_syntax

section \<open>Well-formed decoder states\<close>

definition mf_wf :: "multiframe_state \<Rightarrow> bool" where
  "mf_wf m \<longleftrightarrow> length (mf_data m) = 4096 \<and> 0 \<le> mf_filled m \<and> mf_filled m \<le> 4096 \<and> mf_total_len m \<le> 257 \<and>
     (mf_active m \<longrightarrow> 1 \<le> mf_filled m \<and>
       (drop_bit 7 (uint (mf_data m ! 0)) = 0 \<longrightarrow> mf_total_len m = (uint (mf_data m ! 0) AND 0x0F) + 1))"

definition dec_wf :: "stdc_decoder \<Rightarrow> bool" where
  "dec_wf d \<longleftrightarrow> slots_wf (egc_slots d) \<and> length (decoded d) = 640 \<and> mf_wf (mfp d)"

lemma emit_fold: "fold emit_message ms d = d\<lparr>emitted := emitted d @ ms\<rparr>"
  by (induction ms arbitrary: d) (simp_all add: emit_message_def)

lemma dec_wf_fields [simp]:
  "dec_wf (d\<lparr>emitted := x\<rparr>) = dec_wf d" "dec_wf (d\<lparr>time_calls := n\<rparr>) = dec_wf d"
  "dec_wf (d\<lparr>stat_crc_ok := c\<rparr>) = dec_wf d" "dec_wf (d\<lparr>stat_crc_fail := c\<rparr>) = dec_wf d"
  by (simp_all add: dec_wf_def)

lemma dec_wf_clear: "dec_wf d \<Longrightarrow> dec_wf (clear_active d)"
  by (simp add: dec_wf_def clear_active_def mf_wf_def)

lemma buffer_length: "dec_wf d \<Longrightarrow> int (length (buffer src d)) = (case src of Decoded \<Rightarrow> 640 | Mfp \<Rightarrow> 4096)"
  by (simp add: dec_wf_def mf_wf_def buffer_def split: source.splits)

section \<open>One round of the parser\<close>

lemma get_packet_length_range:
  assumes "rd frame pos = Some desc" and "get_packet_length frame pos frame_len = Some n"
    and "pos + 1 < frame_len"
  shows "drop_bit 7 desc = 0 \<Longrightarrow> n = (desc AND 0x0F) + 1 \<and> 1 \<le> n \<and> n \<le> 16"
    and "drop_bit 6 desc = 2 \<Longrightarrow> rd frame (pos + 1) = Some (n - 2) \<and> 2 \<le> n \<and> n \<le> 257"
    and "drop_bit 7 desc \<noteq> 0 \<Longrightarrow> drop_bit 6 desc \<noteq> 2 \<Longrightarrow> n = frame_len - pos"
proof -
  show "drop_bit 7 desc = 0 \<Longrightarrow> n = (desc AND 0x0F) + 1 \<and> 1 \<le> n \<and> n \<le> 16"
    using assms AND_upper2 [of 15 desc] by (auto simp: get_packet_length_def)
  have "drop_bit 6 desc = 2 \<Longrightarrow> drop_bit 7 desc \<noteq> 0"
    by (simp add: drop_bit_eq_div)
  then show "drop_bit 6 desc = 2 \<Longrightarrow> rd frame (pos + 1) = Some (n - 2) \<and> 2 \<le> n \<and> n \<le> 257"
    using assms by (auto simp: get_packet_length_def bind_eq_Some_conv dest: rd_range)
  show "drop_bit 7 desc \<noteq> 0 \<Longrightarrow> drop_bit 6 desc \<noteq> 2 \<Longrightarrow> n = frame_len - pos"
    using assms by (auto simp: get_packet_length_def)
qed

lemma compute_crc_defined:
  assumes "readable data pos n" "1 \<le> n"
  shows "\<exists>c. compute_crc data pos n = Some c"
proof (cases "n = 1")
  case True
  then show ?thesis by (simp add: compute_crc_def)
next
  case False
  obtain s0 s1 where "fletcher (pkt_bytes data pos (n - 2)) = (s0, s1)" by fastforce
  with compute_crc_fletcher [OF assms(1) _ this] assms(2) False show ?thesis by simp
qed

lemma get_packet_length_defined:
  assumes "0 \<le> pos" "pos + 1 < frame_len" "frame_len \<le> int (length frame)"
  shows "\<exists>n. get_packet_length frame pos frame_len = Some n"
  using assms by (simp add: get_packet_length_def rd_Some)

lemma copy_to_mfp_safe:
  assumes wf: "length (mf_data (mfp d)) = 4096" and src: "src = Decoded"
    and r: "0 \<le> start" "start + n \<le> int (length (buffer src d))" and off: "0 \<le> off" "off + n \<le> 4096"
  shows "\<exists>data. copy_to_mfp src start n off d = Inr (d\<lparr>mfp := (mfp d)\<lparr>mf_data := data\<rparr>\<rparr>) \<and> length data = 4096 \<and>
     (0 < n \<and> off = 0 \<longrightarrow> rd (buffer src d) start = Some (uint (data ! 0))) \<and>
     (0 < off \<longrightarrow> data ! 0 = mf_data (mfp d) ! 0)"
proof (cases "n \<le> 0")
  case True
  then have "copy_to_mfp src start n off d = Inr (d\<lparr>mfp := (mfp d)\<lparr>mf_data := mf_data (mfp d)\<rparr>\<rparr>)"
    by (simp add: copy_to_mfp_def)
  with wf True show ?thesis by (intro exI [of _ "mf_data (mfp d)"] conjI) auto
next
  case False
  define bs where "bs = take (nat n) (drop (nat start) (buffer src d))"
  have blk: "rd_block (buffer src d) start n = Some bs" unfolding bs_def by (rule rd_block_Some [OF r])
  have lb: "length bs = nat n" using rd_block_length [OF blk] .
  define data where "data = take (nat off) (mf_data (mfp d)) @ bs @ drop (nat (off + n)) (mf_data (mfp d))"
  have "copy_to_mfp src start n off d = Inr (d\<lparr>mfp := (mfp d)\<lparr>mf_data := data\<rparr>\<rparr>)"
    using False src blk off wf by (simp add: copy_to_mfp_def Let_def data_def)
  moreover have "length data = 4096" using wf lb off False by (simp add: data_def nat_add_distrib)
  moreover have "rd (buffer src d) start = Some (uint (data ! 0))" if "off = 0"
  proof -
    have "bs ! 0 = buffer src d ! nat start" using r False by (simp add: bs_def)
    with that r False lb show ?thesis by (simp add: data_def rd_Some nth_append)
  qed
  moreover have "data ! 0 = mf_data (mfp d) ! 0" if "0 < off"
    using that wf by (simp add: data_def nth_append)
  ultimately show ?thesis by blast
qed

lemma decode_multiframe_start_safe:
  assumes wf: "dec_wf d" and r: "readable (buffer Decoded d) pos n" and n: "n \<le> 257"
  shows "\<exists>d'. decode_multiframe_start Decoded pos n d = Inr d' \<and> dec_wf d'"
proof (cases "n < 5")
  case False
  let ?b = "buffer Decoded d"
  obtain desc where desc: "rd ?b (pos + 2) = Some desc" using readable_Some(1) [OF r, of 2] False by auto
  obtain l where l: "rd ?b (pos + 3) = Some l" using readable_Some(1) [OF r, of 3] False by auto
  define inner where "inner = (if drop_bit 7 desc = 0 then (desc AND 0x0F) + 1 else if drop_bit 6 desc = 2 then l + 2 else 256)"
  have inner: "(if drop_bit 7 desc = 0 then Some ((desc AND 0x0F) + 1)
      else if drop_bit 6 desc = 0x02 then map_option (\<lambda>n. n + 2) (rd ?b (pos + 3)) else Some 256) = Some inner"
    by (simp add: inner_def l)
  have range: "inner \<le> 257" using AND_upper2 [of 15 desc] rd_range [OF l] by (auto simp: inner_def)
  define d1 where "d1 = d\<lparr>mfp := \<lparr>mf_active = True, mf_data = replicate 4096 0, mf_total_len = inner, mf_filled = 0\<rparr>\<rparr>"
  have b1: "buffer Decoded d1 = ?b" by (simp add: buffer_def d1_def)
  obtain data where data: "copy_to_mfp Decoded (pos + 2) (n - 4) 0 d1 = Inr (d1\<lparr>mfp := (mfp d1)\<lparr>mf_data := data\<rparr>\<rparr>)"
      "length data = 4096" "rd ?b (pos + 2) = Some (uint (data ! 0))"
    using copy_to_mfp_safe [of d1 Decoded "pos + 2" "n - 4" 0] False n r
    by (auto simp: b1 readable_def) (auto simp: d1_def)
  define d2 where "d2 = d1\<lparr>mfp := (mfp d1)\<lparr>mf_data := data, mf_filled := n - 4\<rparr>\<rparr>"
  have cap: "(if 4096 < (if n - 2 - 2 < 0 then 0 else n - 2 - 2) then 4096
      else (if n - 2 - 2 < 0 then 0 else n - 2 - 2)) = n - 4" using False n by simp
  have "decode_multiframe_start Decoded pos n d = Inr d2"
    unfolding decode_multiframe_start_def if_not_P [OF False] desc option.case inner Let_def cap d1_def [symmetric] data(1)
    by (simp add: d2_def)
  moreover have "dec_wf d2"
    using wf data desc False n range by (auto simp: dec_wf_def mf_wf_def d2_def d1_def inner_def)
  ultimately show ?thesis by blast
qed (use wf in \<open>simp add: decode_multiframe_start_def\<close>)

lemma decode_multiframe_cont_safe:
  assumes wf: "dec_wf d" and r: "readable (buffer Decoded d) pos n"
  shows "\<exists>d' full. decode_multiframe_cont Decoded pos n d = Inr (d', full) \<and> dec_wf d' \<and> (full \<longrightarrow> mf_active (mfp d'))"
proof (cases "mf_active (mfp d)")
  case True
  define p where "p = (let p0 = n - 2 - 2; p1 = (if p0 < 0 then 0 else p0); space = 4096 - mf_filled (mfp d)
      in if space < p1 then space else p1)"
  have m: "mf_wf (mfp d)" using wf by (simp add: dec_wf_def)
  then have f: "1 \<le> mf_filled (mfp d)" "mf_filled (mfp d) \<le> 4096" "length (mf_data (mfp d)) = 4096"
    using True by (auto simp: mf_wf_def)
  have p: "0 \<le> p" "mf_filled (mfp d) + p \<le> 4096" "0 < p \<Longrightarrow> p \<le> n - 4" using f by (auto simp: p_def Let_def)
  define start where "start = (if 0 < p then pos + 2 else 0)"
  have "\<exists>data. copy_to_mfp Decoded start p (mf_filled (mfp d)) d = Inr (d\<lparr>mfp := (mfp d)\<lparr>mf_data := data\<rparr>\<rparr>) \<and>
      length data = 4096 \<and> data ! 0 = mf_data (mfp d) ! 0"
    using copy_to_mfp_safe [OF f(3) refl, of start p "mf_filled (mfp d)"] f(1) p r
    by (auto simp: readable_def start_def)
  moreover have "copy_to_mfp Decoded start p (mf_filled (mfp d)) d = copy_to_mfp Decoded (pos + 2) p (mf_filled (mfp d)) d"
    by (simp add: copy_to_mfp_def start_def)
  ultimately obtain data where data:
      "copy_to_mfp Decoded (pos + 2) p (mf_filled (mfp d)) d = Inr (d\<lparr>mfp := (mfp d)\<lparr>mf_data := data\<rparr>\<rparr>)"
      "length data = 4096" "data ! 0 = mf_data (mfp d) ! 0" by auto
  define d2 where "d2 = d\<lparr>mfp := (mfp d)\<lparr>mf_data := data, mf_filled := mf_filled (mfp d) + p\<rparr>\<rparr>"
  have "decode_multiframe_cont Decoded pos n d = Inr (d2, mf_total_len (mfp d2) - 2 \<le> mf_filled (mfp d2))"
    unfolding decode_multiframe_cont_def Let_def p_def [unfolded Let_def, symmetric] using True data(1)
    by (simp add: d2_def)
  moreover have "dec_wf d2" "mf_active (mfp d2)"
    using wf data m p f True by (auto simp: dec_wf_def mf_wf_def d2_def)
  ultimately show ?thesis by blast
qed (use wf in \<open>auto simp: decode_multiframe_cont_def\<close>)

section \<open>Where the parser can fail\<close>

type_synonym parse_pos = "source \<times> int \<times> int \<times> stdc_decoder"

text \<open>
  The rounds of the parser, nested calls included: from which buffer, frame length and position, and in
  which state, a round starts.
\<close>

inductive parse_visits :: "(nat \<Rightarrow> int) \<Rightarrow> parse_pos \<Rightarrow> parse_pos \<Rightarrow> bool" for clk where
  here: "parse_visits clk c c"
| next_round: "parse_visits clk c (src, len, pos, d) \<Longrightarrow> pos < len - 2 \<Longrightarrow>
    packet_step clk src len pos d = Next p d' \<Longrightarrow> parse_visits clk c (src, len, p, d')"
| nested_call: "parse_visits clk c (src, len, pos, d) \<Longrightarrow> pos < len - 2 \<Longrightarrow>
    packet_step clk src len pos d = Nested p d' \<Longrightarrow> parse_visits clk c (Mfp, mf_total_len (mfp d'), 0, d')"
| after_call: "parse_visits clk c (src, len, pos, d) \<Longrightarrow> pos < len - 2 \<Longrightarrow>
    packet_step clk src len pos d = Nested p d' \<Longrightarrow>
    parse_loop clk n Mfp (mf_total_len (mfp d')) 0 d' = Inr d'' \<Longrightarrow> parse_visits clk c (src, len, p, clear_active d'')"

lemma parse_visits_trans:
  "parse_visits clk b c \<Longrightarrow> parse_visits clk a b \<Longrightarrow> parse_visits clk a c"
  by (induction rule: parse_visits.induct) (auto intro: parse_visits.intros)

text \<open>
  The hazards: a descriptor 0x10, 0x20, ... 0x70 at the start of the frame (a packet of one byte, whose checksum
  would lie before the frame), a confirmation packet at byte 631, and a multiframe packet inside the multiframe
  buffer.
\<close>

definition short_zero :: "int \<Rightarrow> bool" where
  "short_zero desc \<longleftrightarrow> desc \<noteq> 0 \<and> drop_bit 7 desc = 0 \<and> desc AND 0x0F = 0"

fun hazard :: "parse_pos \<Rightarrow> bool" where
  "hazard (src, len, pos, d) \<longleftrightarrow> pos < len - 2 \<and>
     (case rd (buffer src d) pos of
        None \<Rightarrow> False
      | Some desc \<Rightarrow> (case src of
            Decoded \<Rightarrow> (pos = 0 \<and> short_zero desc) \<or> (pos = 631 \<and> desc = 0xA8)
          | Mfp \<Rightarrow> desc = 0xBD \<or> desc = 0xBE))"

lemma decoder_of_range: "decoder_of desc = Some f \<Longrightarrow> 0 \<le> desc \<Longrightarrow> desc < 256 \<Longrightarrow>
    drop_bit 7 desc = 0 \<or> drop_bit 6 desc = 2"
  unfolding decoder_of_def by (auto simp: drop_bit_eq_div split: if_splits)

lemma egc_step_safe:
  assumes "dec_wf d" "readable frame pos n"
  shows "\<exists>d'. decode_egc clk frame pos n p2 d = Some d' \<and> dec_wf d'"
  using decode_egc_safe [of d frame pos n clk p2] assms by (fastforce simp: dec_wf_def)

text \<open>Without a hazard a round ends in a well-formed state.\<close>

lemma dispatch_safe:
  assumes wf: "dec_wf d" and r: "readable (buffer src d) pos n"
    and len: "drop_bit 7 desc = 0 \<or> drop_bit 6 desc = 2 \<Longrightarrow> n \<le> 257"
    and desc: "0 \<le> desc" "desc < 256"
    and conf: "desc = 0xA8 \<Longrightarrow> n = 9 \<Longrightarrow> pos + 9 < int (length (buffer src d))"
    and mf: "src = Mfp \<Longrightarrow> desc \<noteq> 0xBD \<and> desc \<noteq> 0xBE"
  shows "\<exists>d'. dec_wf d' \<and> (dispatch clk src desc pos n d = Next (pos + n) d' \<or>
     (dispatch clk src desc pos n d = Nested (pos + n) d' \<and> src = Decoded \<and> desc = 0xBE \<and> mf_active (mfp d')))"
proof (cases "decoder_of desc")
  case (Some f)
  with decoder_of_range [OF Some desc] len have "n \<le> 257" by blast
  from decoder_defined [OF r this Some conf] obtain ms where "f (buffer src d) pos n = Some ms" by blast
  with Some wf show ?thesis by (auto simp: dispatch_def next_or_fault_def Let_def emit_fold)
next
  case None
  consider (egc) p2 where "desc = (if p2 then 0xB2 else 0xB1)" | (start) "desc = 0xBD" | (cont) "desc = 0xBE"
    | (other) "desc \<notin> {0xB1, 0xB2, 0xBD, 0xBE}"
    by (metis (full_types) insert_iff empty_iff)
  then show ?thesis
  proof cases
    case egc
    obtain d' where "decode_egc clk (buffer src d) pos n p2 d = Some d'" "dec_wf d'"
      using egc_step_safe [OF wf r] by blast
    with None egc show ?thesis
      by (intro exI [of _ d']) (cases p2; simp add: dispatch_def next_or_fault_def Let_def)
  next
    case start
    with mf have src: "src = Decoded" by (cases src) auto
    have "n \<le> 257" using len start by (simp add: drop_bit_eq_div)
    with decode_multiframe_start_safe [OF wf] r src obtain d'
      where "decode_multiframe_start Decoded pos n d = Inr d'" "dec_wf d'" by blast
    with None start src show ?thesis
      by (intro exI [of _ d']) (simp add: dispatch_def Let_def)
  next
    case cont
    with mf have src: "src = Decoded" by (cases src) auto
    with decode_multiframe_cont_safe [OF wf] r obtain d' full
      where "decode_multiframe_cont Decoded pos n d = Inr (d', full)" "dec_wf d'" "full \<longrightarrow> mf_active (mfp d')" by blast
    with None cont src show ?thesis
      by (intro exI [of _ d']) (cases full; simp add: dispatch_def Let_def)
  next
    case other
    with None wf show ?thesis by (intro exI [of _ d]) (simp add: dispatch_def Let_def)
  qed
qed

definition src_ok :: "source \<Rightarrow> int \<Rightarrow> int \<Rightarrow> stdc_decoder \<Rightarrow> bool" where
  "src_ok src len pos d \<longleftrightarrow> 0 \<le> pos \<and>
     (case src of Decoded \<Rightarrow> len = 640
      | Mfp \<Rightarrow> len \<le> 257 \<and> (pos = 0 \<and> pos < len - 2 \<longrightarrow> \<not> short_zero (uint (mf_data (mfp d) ! 0))))"

lemma packet_step_safe:
  assumes wf: "dec_wf d" and ok: "src_ok src len pos d" and pos: "pos < len - 2"
    and nh: "\<not> hazard (src, len, pos, d)"
  shows "\<exists>p d'. dec_wf d' \<and> (packet_step clk src len pos d = Stop d' \<or> packet_step clk src len pos d = Next p d' \<or>
     (packet_step clk src len pos d = Nested p d' \<and> src = Decoded \<and> mf_active (mfp d')))"
proof -
  let ?b = "buffer src d"
  have pos0: "0 \<le> pos" and lb: "len \<le> int (length ?b)"
    using ok buffer_length [OF wf, of src] by (auto simp: src_ok_def split: source.splits)
  obtain desc where desc: "rd ?b pos = Some desc" using pos0 lb pos by (simp add: rd_Some)
  note dr = rd_range [OF desc]
  obtain n where n: "get_packet_length ?b pos len = Some n"
    using get_packet_length_defined [OF pos0 _ lb] pos by auto
  note nr = get_packet_length_range [OF desc n]
  show ?thesis
  proof (cases "desc = 0 \<or> desc = 0xFF \<or> n \<le> 0 \<or> len < pos + n")
    case True
    with wf show ?thesis by (auto simp: packet_step_def Let_def desc n)
  next
    case False
    then have fits: "1 \<le> n" "pos + n \<le> len" "desc \<noteq> 0" by auto
    have r: "readable ?b pos n" using pos0 lb fits by (simp add: readable_def)
    have nz: "\<not> (n = 1 \<and> pos = 0)"
    proof
      assume e: "n = 1 \<and> pos = 0"
      then have "short_zero desc" using nr pos fits(3) AND_upper2 [of 15 desc]
        unfolding short_zero_def by (cases "drop_bit 7 desc = 0"; cases "drop_bit 6 desc = 2") auto
      with nh ok e pos desc show False
        by (auto simp: src_ok_def buffer_def rd_def split: source.splits if_splits)
    qed
    then have "0 \<le> pos + n - 2" using fits(1) pos0 by linarith
    then obtain c where c: "rd16 ?b (pos + n - 2) = Some c" using fits lb by (simp add: rd16_Some)
    obtain k where k: "compute_crc ?b pos n = Some k" using compute_crc_defined [OF r fits(1)] by blast
    define d1 where "d1 = d\<lparr>stat_crc_ok := stat_crc_ok d + 1\<rparr>"
    have wf1: "dec_wf d1" using wf by (simp add: d1_def)
    have b1: "buffer src d1 = ?b" by (simp add: d1_def buffer_def split: source.splits)
    have conf: "pos + 9 < int (length (buffer src d1))" if "desc = 0xA8" "n = 9"
      using nh ok pos desc that fits buffer_length [OF wf, of src] unfolding b1
      by (auto simp: src_ok_def split: source.splits)
    have mf: "desc \<noteq> 0xBD \<and> desc \<noteq> 0xBE" if "src = Mfp" using nh pos desc that by auto
    have "n \<le> 257" if "drop_bit 7 desc = 0 \<or> drop_bit 6 desc = 2" using nr pos that by auto
    from dispatch_safe [OF wf1 r [folded b1] this] dr conf mf obtain d' where
      "dec_wf d'" "dispatch clk src desc pos n d1 = Next (pos + n) d' \<or>
       (dispatch clk src desc pos n d1 = Nested (pos + n) d' \<and> src = Decoded \<and> mf_active (mfp d'))" by blast
    moreover have "packet_step clk src len pos d = (if c = 0 \<or> c = k then dispatch clk src desc pos n d1
        else Next (pos + n) (d\<lparr>stat_crc_fail := stat_crc_fail d + 1\<rparr>))"
      using False by (simp add: packet_step_def Let_def desc n c k d1_def)
    ultimately show ?thesis using wf by (metis dec_wf_fields(4))
  qed
qed

definition parse_fine :: "(nat \<Rightarrow> int) \<Rightarrow> parse_pos \<Rightarrow> fault + stdc_decoder \<Rightarrow> bool" where
  "parse_fine clk c r \<longleftrightarrow> (\<exists>d'. r = Inr d' \<and> dec_wf d') \<or> (\<exists>c'. parse_visits clk c c' \<and> hazard c')"

lemma parse_fine_from: "parse_visits clk a b \<Longrightarrow> parse_fine clk b r \<Longrightarrow> parse_fine clk a r"
  unfolding parse_fine_def using parse_visits_trans by blast

lemma src_ok_later: "src_ok src len pos d \<Longrightarrow> pos < p \<Longrightarrow> src_ok src len p d'"
  by (auto simp: src_ok_def split: source.splits)

lemma src_ok_nested: "dec_wf d \<Longrightarrow> mf_active (mfp d) \<Longrightarrow> src_ok Mfp (mf_total_len (mfp d)) 0 d"
  by (auto simp: src_ok_def dec_wf_def mf_wf_def short_zero_def)

lemma parse_loop_safe:
  "dec_wf d \<Longrightarrow> src_ok src len pos d \<Longrightarrow> (src = Decoded \<Longrightarrow> 0 < depth) \<Longrightarrow>
   parse_fine clk (src, len, pos, d) (parse_loop clk depth src len pos d)"
proof (induction clk depth src len pos d rule: parse_loop.induct)
  case (1 clk depth src len pos d)
  let ?c = "(src, len, pos, d)"
  note eq = parse_loop.simps [of clk depth src len pos d]
  consider (finished) "\<not> pos < len - 2" | (hazard) "pos < len - 2" "hazard ?c" | (round) "pos < len - 2" "\<not> hazard ?c" by blast
  then show ?case
  proof cases
    case finished
    with "1.prems" eq show ?thesis by (simp add: parse_fine_def)
  next
    case hazard
    then show ?thesis using parse_visits.here unfolding parse_fine_def by blast
  next
    case round
    obtain p d' where d': "dec_wf d'" and s: "packet_step clk src len pos d = Stop d' \<or>
        packet_step clk src len pos d = Next p d' \<or>
        (packet_step clk src len pos d = Nested p d' \<and> src = Decoded \<and> mf_active (mfp d'))"
      using packet_step_safe [OF "1.prems"(1,2) round] by blast
    from s show ?thesis
    proof (elim disjE conjE)
      assume "packet_step clk src len pos d = Stop d'"
      with eq round d' show ?thesis by (simp add: parse_fine_def)
    next
      assume n: "packet_step clk src len pos d = Next p d'"
      have ok: "src_ok src len p d'"
        using src_ok_later "1.prems"(2) packet_step_progress(1) n by blast
      have "parse_fine clk (src, len, p, d') (parse_loop clk depth src len p d')"
        by (rule "1.IH"(1) [OF round(1) n d' ok "1.prems"(3)])
      moreover have "parse_visits clk ?c (src, len, p, d')"
        by (rule parse_visits.next_round [OF parse_visits.here round(1) n])
      ultimately show ?thesis using eq round(1) n parse_fine_from by simp
    next
      assume n: "packet_step clk src len pos d = Nested p d'" and src: "src = Decoded" and act: "mf_active (mfp d')"
      obtain k where k: "depth = Suc k" using "1.prems"(3) src by (cases depth) auto
      let ?inner = "parse_loop clk k Mfp (mf_total_len (mfp d')) 0 d'"
      have inner: "parse_fine clk (Mfp, mf_total_len (mfp d'), 0, d') ?inner"
        by (rule "1.IH"(2) [OF round(1) n k d' src_ok_nested [OF d' act]]) simp
      have v: "parse_visits clk ?c (Mfp, mf_total_len (mfp d'), 0, d')"
        by (rule parse_visits.nested_call [OF parse_visits.here round(1) n])
      show ?thesis
      proof (cases "\<exists>d''. ?inner = Inr d'' \<and> dec_wf d''")
        case False
        with inner parse_fine_from [OF v] show ?thesis unfolding parse_fine_def by blast
      next
        case True
        then obtain d'' where i: "?inner = Inr d''" and wf: "dec_wf d''" by blast
        have v2: "parse_visits clk ?c (src, len, p, clear_active d'')"
          by (rule parse_visits.after_call [OF parse_visits.here round(1) n i])
        have ok: "src_ok src len p (clear_active d'')"
          using src_ok_later "1.prems"(2) packet_step_progress(2) n by blast
        have "parse_fine clk (src, len, p, clear_active d'') (parse_loop clk depth src len p (clear_active d''))"
          by (rule "1.IH"(3) [OF round(1) n k i dec_wf_clear [OF wf] ok "1.prems"(3)])
        with parse_fine_from [OF v2] eq round(1) n k i show ?thesis by simp
      qed
    qed
  qed
qed

section \<open>A packet in its frame\<close>

text \<open>A packet whose length is the one its first bytes announce.\<close>

definition framed :: "u8 list \<Rightarrow> bool" where
  "framed p \<longleftrightarrow> 3 \<le> length p \<and> uint (p ! 0) \<noteq> 0 \<and> uint (p ! 0) \<noteq> 0xFF \<and>
     ((drop_bit 7 (uint (p ! 0)) = 0 \<and> int (length p) = (uint (p ! 0) AND 0x0F) + 1) \<or>
      (drop_bit 6 (uint (p ! 0)) = 2 \<and> int (length p) = uint (p ! 1) + 2))"

lemma packet_step_sealed:
  assumes b: "buffer src d = pre @ seal body @ post" and p: "framed (seal body)"
    and pos: "pos = int (length pre)" and len: "pos + int (length (seal body)) \<le> frame_len"
      "frame_len \<le> int (length (buffer src d))"
  shows "packet_step clk src frame_len pos d =
    dispatch clk src (uint (seal body ! 0)) pos (int (length (seal body))) (d\<lparr>stat_crc_ok := stat_crc_ok d + 1\<rparr>)"
proof -
  let ?p = "seal body" and ?f = "pre @ seal body @ post"
  have l3: "3 \<le> length ?p" using p by (simp add: framed_def)
  have rd: "rd ?f (pos + int j) = Some (uint (?p ! j))" if "j < length ?p" for j
    using rd_packet [OF refl pos that] by simp
  have rd0: "rd ?f pos = Some (uint (?p ! 0))" using rd [of 0] l3 by (cases "?p") auto
  have rd1: "rd ?f (pos + 1) = Some (uint (?p ! 1))" using rd [of 1] l3 by simp
  have gl: "get_packet_length ?f pos frame_len = Some (int (length ?p))"
  proof -
    have pl: "pos + 1 < frame_len" using len(1) l3 by simp
    obtain n where n: "get_packet_length ?f pos frame_len = Some n"
      using get_packet_length_defined [of pos frame_len ?f] pl pos len(2) b by auto
    note r = get_packet_length_range [OF rd0 n pl]
    from p show ?thesis unfolding framed_def using r(1,2) rd1 n by auto
  qed
  have r: "readable ?f pos (int (length ?p))" using pos by (simp add: readable_def)
  obtain k where k: "compute_crc ?f pos (int (length ?p)) = Some k"
    using compute_crc_defined [OF r] l3 by auto
  have m: "rd16 ?f (pos + int (length ?p) - 2) = Some k"
    using seal_matches [of pre body post] k pos by (simp add: crc_matches_def)
  show ?thesis
  proof -
    have c: "\<not> (int (length ?p) \<le> 0 \<or> frame_len < pos + int (length ?p))" "uint (?p ! 0) \<noteq> 0" "uint (?p ! 0) \<noteq> 0xFF"
      using p len l3 by (auto simp: framed_def)
    show ?thesis
      unfolding packet_step_def b Let_def rd0 option.case gl m k prod.case if_not_P [OF c(1)]
        if_not_P [OF c(2)] if_not_P [OF c(3)] by simp
  qed
qed

section \<open>The nested call that never returns\<close>

text \<open>
  A multiframe buffer that holds a continuation packet of four bytes: the nested call finds this packet,
  copies nothing, sees the buffer complete and calls the parser again.
\<close>

definition recursive_mfp :: "stdc_decoder \<Rightarrow> bool" where
  "recursive_mfp d \<longleftrightarrow> mfp d = \<lparr>mf_active = True, mf_data = [0xBE, 2] @ replicate 4094 0,
     mf_total_len = 4, mf_filled = 2\<rparr>"

lemma recursive_mfp_step:
  assumes "recursive_mfp d"
  shows "\<exists>d'. packet_step clk Mfp 4 0 d = Nested 4 d' \<and> recursive_mfp d'"
proof -
  define b where "b = [0xBE :: u8, 2] @ replicate 4094 0"
  have buf: "buffer Mfp d = b" using assms by (simp add: buffer_def recursive_mfp_def b_def)
  have rd: "rd b 0 = Some 0xBE" "rd b 1 = Some 2" "rd16 b 2 = Some 0"
    by (simp_all add: b_def rd_def rd16_def nth_append)
  have len: "get_packet_length b 0 4 = Some 4"
    by (simp add: get_packet_length_def rd drop_bit_eq_div)
  have "readable b 0 4" by (simp add: readable_def b_def)
  from compute_crc_defined [OF this] obtain k where k: "compute_crc b 0 4 = Some k" by auto
  define d1 where "d1 = d\<lparr>stat_crc_ok := stat_crc_ok d + 1\<rparr>"
  have m1: "mfp d1 = mfp d" by (simp add: d1_def)
  have cont: "decode_multiframe_cont Mfp 0 4 d1 = Inr (d1, True)"
    using assms unfolding decode_multiframe_cont_def recursive_mfp_def m1
    by (simp add: copy_to_mfp_def) (simp add: d1_def)
  have "packet_step clk Mfp 4 0 d = dispatch clk Mfp 0xBE 0 4 d1"
    by (simp add: packet_step_def buf rd len k d1_def Let_def)
  also have "\<dots> = Nested 4 d1" by (simp add: dispatch_def decoder_of_def cont Let_def)
  finally show ?thesis using assms by (auto simp: recursive_mfp_def d1_def)
qed

lemma recursive_mfp_loop: "recursive_mfp d \<Longrightarrow> parse_loop clk depth Mfp 4 0 d = Inl CallDepth"
proof (induction depth arbitrary: d)
  case 0
  then show ?case using recursive_mfp_step [OF 0, of clk] by (subst parse_loop.simps) auto
next
  case (Suc n)
  obtain d' where s: "packet_step clk Mfp 4 0 d = Nested 4 d'" and r: "recursive_mfp d'"
    using recursive_mfp_step [OF Suc.prems] by blast
  have "mf_total_len (mfp d') = 4" using r by (simp add: recursive_mfp_def)
  with Suc.IH [OF r] s show ?case by (subst parse_loop.simps) simp
qed

definition recursive_frame :: "u8 list" where
  "recursive_frame = seal [0xBD, 4, 0xBE, 2] @ seal [0xBE, 2] @ replicate 630 0"

lemma seal_evals:
  "seal [0xBD, 4, 0xBE, 2] = [0xBD, 4, 0xBE, 2, 0x01, 0x7E]"  "seal [0xBE, 2] = [0xBE, 2, 0xC2, 0x7E]"
  by (simp_all add: seal_def fletcher_def)

lemma recursive_frame_parse:
  assumes "decoded d = recursive_frame" and "length (mf_data (mfp d)) = 4096"
  shows "parse_packets clk depth Decoded 640 d = Inl CallDepth"
proof -
  let ?s1 = "seal [0xBD, 4, 0xBE, 2]" and ?s2 = "seal [0xBE, 2]" and ?z = "replicate 630 (0 :: u8)"
  have b: "buffer Decoded d = [] @ ?s1 @ (?s2 @ ?z)"
    using assms by (simp add: buffer_def recursive_frame_def)
  define d1 where "d1 = d\<lparr>stat_crc_ok := stat_crc_ok d + 1\<rparr>"
  have b1: "buffer Decoded d1 = [0xBD, 4, 0xBE, 2, 0x01, 0x7E, 0xBE, 2, 0xC2, 0x7E] @ ?z"
    using b by (simp add: seal_evals d1_def buffer_def)
  define d2 where "d2 = d1\<lparr>mfp := \<lparr>mf_active = True, mf_data = [0xBE, 2] @ replicate 4094 0, mf_total_len = 4, mf_filled = 2\<rparr>\<rparr>"
  have rd: "rd (buffer Decoded d1) 2 = Some 0xBE" "rd (buffer Decoded d1) 3 = Some 2"
    unfolding b1 by (simp_all add: rd_def)
  have blk: "rd_block (buffer Decoded d1) 2 2 = Some [0xBE, 2]" unfolding b1 by (simp add: rd_block_def)
  have start: "decode_multiframe_start Decoded 0 6 d1 = Inr d2"
    unfolding decode_multiframe_start_def using rd blk
    by (simp add: drop_bit_eq_div copy_to_mfp_def buffer_def d2_def)
  have f1: "framed ?s1" by (simp add: framed_def seal_evals drop_bit_eq_div)
  have "packet_step clk Decoded 640 0 d = dispatch clk Decoded (uint (?s1 ! 0)) 0 (int (length ?s1)) d1"
    unfolding d1_def by (rule packet_step_sealed [OF b f1]) (simp_all add: b)
  also have "\<dots> = dispatch clk Decoded 0xBD 0 6 d1" by (simp add: seal_evals)
  also have "\<dots> = Next 6 d2" by (simp add: dispatch_def decoder_of_def start)
  finally have step1: "packet_step clk Decoded 640 0 d = Next 6 d2" .
  have b2: "buffer Decoded d2 = ?s1 @ ?s2 @ ?z" using b by (simp add: d2_def d1_def buffer_def)
  define d3 where "d3 = d2\<lparr>stat_crc_ok := stat_crc_ok d2 + 1\<rparr>"
  have cont: "decode_multiframe_cont Decoded 6 4 d3 = Inr (d3, True)"
    unfolding decode_multiframe_cont_def by (simp add: copy_to_mfp_def) (simp add: d3_def d2_def)
  have f2: "framed ?s2" by (simp add: framed_def seal_evals drop_bit_eq_div)
  have "packet_step clk Decoded 640 6 d2 = dispatch clk Decoded (uint (?s2 ! 0)) 6 (int (length ?s2)) d3"
    unfolding d3_def by (rule packet_step_sealed [OF b2 f2]) (simp_all add: b2)
  also have "\<dots> = dispatch clk Decoded 0xBE 6 4 d3" by (simp add: seal_evals)
  also have "\<dots> = Nested 10 d3" by (simp add: dispatch_def decoder_of_def cont)
  finally have step2: "packet_step clk Decoded 640 6 d2 = Nested 10 d3" .
  have rec: "recursive_mfp d3" by (simp add: recursive_mfp_def d3_def d2_def)
  have m3: "mf_total_len (mfp d3) = 4" by (simp add: d3_def d2_def)
  have l2: "parse_loop clk depth Decoded 640 6 d2 = Inl CallDepth"
    by (subst parse_loop.simps) (simp add: step2 m3 recursive_mfp_loop [OF rec] split: nat.split)
  show ?thesis unfolding parse_packets_def by (subst parse_loop.simps) (simp add: step1 l2)
qed

section \<open>Packets do not depend on their surroundings\<close>

locale packet_in_frame =
  fixes p :: "u8 list" and frame :: "u8 list" and pos :: int
  assumes at: "\<And>k. 0 \<le> k \<Longrightarrow> k < int (length p) \<Longrightarrow> rd frame (pos + k) = rd p k"
begin

abbreviation "len \<equiv> int (length p)"

lemma rd_at: "k < len \<Longrightarrow> 0 \<le> k \<Longrightarrow> rd frame (pos + k) = rd p k"
  by (rule at)

lemma rd16_at: "k + 1 < len \<Longrightarrow> 0 \<le> k \<Longrightarrow> rd16 frame (pos + k) = rd16 p k"
  using at [of k] at [of "k + 1"] by (simp add: rd16_def add.assoc)

lemma rd24_at: "k + 2 < len \<Longrightarrow> 0 \<le> k \<Longrightarrow> rd24 frame (pos + k) = rd24 p k"
  using at [of k] at [of "k + 1"] at [of "k + 2"] by (simp add: rd24_def add.assoc)

lemma ia5_loop_at: "0 \<le> k \<Longrightarrow> k + int n \<le> len \<Longrightarrow> ia5_loop frame (pos + k) n room = ia5_loop p k n room"
proof (induction n arbitrary: k room)
  case (Suc n)
  have "ia5_loop frame (pos + k + 1) n r = ia5_loop p (k + 1) n r" for r
    using Suc.IH [of "k + 1" r] Suc.prems by (simp add: add.assoc)
  with Suc.prems at [of k] show ?case by (simp add: Let_def cong: if_cong)
qed simp

lemma short_text_loop_at:
  "0 \<le> k \<Longrightarrow> k + int n \<le> len \<Longrightarrow> short_text_loop frame (pos + k) n room = short_text_loop p k n room"
proof (induction n arbitrary: k room)
  case (Suc n)
  have "short_text_loop frame (pos + k + 1) n r = short_text_loop p (k + 1) n r" for r
    using Suc.IH [of "k + 1" r] Suc.prems by (simp add: add.assoc)
  with Suc.prems at [of k] show ?case by (simp add: Let_def cong: if_cong)
qed simp

lemma les_list_loop_at:
  "0 \<le> k \<Longrightarrow> limit \<le> len \<Longrightarrow> les_list_loop frame (pos + limit) (pos + k) n tt = les_list_loop p limit k n tt"
proof (induction n arbitrary: k tt)
  case (Suc n)
  have "les_list_loop frame (pos + limit) (pos + k + 6) n = les_list_loop p limit (k + 6) n"
    using Suc.IH [of "k + 6"] Suc.prems by (simp add: add.assoc fun_eq_iff)
  with Suc.prems at [of k] rd16_at [of "k + 4"] show ?case by (simp add: add.assoc Let_def cong: if_cong)
qed simp

lemmas packet_reads = rd_at rd16_at rd24_at

lemma header_decoders_at:
  "decode_ack_request frame pos len = decode_ack_request p 0 len"
  "decode_channel_clear frame pos len = decode_channel_clear p 0 len"
  "decode_msg_ack frame pos len = decode_msg_ack p 0 len"
  "decode_signalling frame pos len = decode_signalling p 0 len"
  "decode_bulletin_board frame pos len = decode_bulletin_board p 0 len"
  "decode_announcement frame pos len = decode_announcement p 0 len"
  "decode_chan_assignment frame pos len = decode_chan_assignment p 0 len"
  "decode_login_ack frame pos len = decode_login_ack p 0 len"
  by (simp_all add: packet_reads decode_ack_request_def decode_channel_clear_def
      decode_msg_ack_def decode_signalling_def decode_bulletin_board_def decode_announcement_def
      decode_chan_assignment_def decode_login_ack_def)

lemma text_decoders_at:
  "decode_individual_poll frame pos len = decode_individual_poll p 0 len"
  "decode_message frame pos len = decode_message p 0 len"
  "decode_les_list frame pos len = decode_les_list p 0 len"
  "length p \<noteq> 9 \<Longrightarrow> decode_confirmation frame pos len = decode_confirmation p 0 len"
proof -
  show "decode_individual_poll frame pos len = decode_individual_poll p 0 len"
    using short_text_loop_at [of 13 "nat (len - 15)" 4095]
    by (simp add: packet_reads decode_individual_poll_def cong: if_cong)
  show "decode_message frame pos len = decode_message p 0 len"
    using ia5_loop_at [of 5 "nat (len - 7)" 4095]
    by (simp add: packet_reads decode_message_def extract_ia5_text_def)
  have "les_list_loop frame (pos + len - 2) (pos + 4) n tt = les_list_loop p (len - 2) 4 n tt" for n tt
    using les_list_loop_at [of 4 "len - 2" n tt] by (simp only: add_diff_eq)
  then show "decode_les_list frame pos len = decode_les_list p 0 len"
    by (simp add: packet_reads decode_les_list_def)
  assume "length p \<noteq> 9"
  then show "decode_confirmation frame pos len = decode_confirmation p 0 len"
    using short_text_loop_at [of 11 "nat (len - 13)" 4095]
    by (simp add: packet_reads decode_confirmation_def cong: if_cong)
qed

lemma decoders_at:
  assumes "decoder_of desc = Some f" and "desc = 0xA8 \<Longrightarrow> length p \<noteq> 9"
  shows "f frame pos len = f p 0 len"
  using assms header_decoders_at text_decoders_at by (auto simp: decoder_of_def split: if_splits)

end

interpretation packet_at: packet_in_frame p "pre @ p @ post" "int (length pre)" for p pre post
proof
  fix k assume "0 \<le> k" "k < int (length p)"
  moreover from this have "nat k < length p" by linarith
  ultimately show "rd (pre @ p @ post) (int (length pre) + k) = rd p k"
    by (simp add: rd_def nat_add_distrib nth_append)
qed

lemma decode_egc_at:
  fixes p pre post
  defines "F \<equiv> pre @ p @ post" and "pos \<equiv> int (length pre)"
  shows "decode_egc clk F pos (int (length p)) p2 d = decode_egc clk p 0 (int (length p)) p2 d"
proof (cases "int (length p) < 10")
  case False
  have blk: "rd_block F (pos + k) n = rd_block p k n" if "0 \<le> k" "k + n \<le> int (length p)" for k n
    using that by (auto simp: rd_block_def F_def pos_def nat_add_distrib)
  have pt: "egc_part_text pres F (pos + k) n = egc_part_text pres p k n" if "0 \<le> k" "0 \<le> n" "k + n \<le> int (length p)" for pres k n
    using that packet_at.ia5_loop_at [of k "nat n" p pre post 4095] blk [of k "if 4096 \<le> n then 4095 else n"]
    by (auto simp: egc_part_text_def extract_ia5_text_def F_def pos_def)
  have g: "3 \<le> get_address_length sv" for sv using get_address_length_range [of sv] by simp
  define hs where "hs sv = (if int (length p) - 2 < 8 + get_address_length sv then int (length p) - 2 else 8 + get_address_length sv)" for sv
  define pl where "pl sv = (let l = (if int (length p) - 2 - hs sv < 0 then 0 else int (length p) - 2 - hs sv) in if 128 < l then 128 else l)" for sv
  have hp: "0 \<le> hs sv" "0 \<le> pl sv" "hs sv + pl sv \<le> int (length p)" for sv
    using False g [of sv] by (auto simp: hs_def pl_def Let_def)
  have rd: "rd F (pos + 2) = rd p 2" "rd F (pos + 3) = rd p 3" "rd16 F (pos + 4) = rd16 p 4"
      "rd F (pos + 6) = rd p 6" "rd F (pos + 7) = rd p 7"
    using False packet_at.packet_reads [of _ p pre post] by (simp_all add: F_def pos_def)
  note b = blk [OF hp(1) hp(3)] and t = pt [OF hp]
  show ?thesis
    unfolding decode_egc_def rd if_not_P [OF False]
    using b t by (simp add: Let_def hs_def pl_def cong: if_cong)
qed (simp add: decode_egc_def)


section \<open>A frame of packets\<close>

text \<open>What one packet does, taken by itself.\<close>

definition handle_packet :: "(nat \<Rightarrow> int) \<Rightarrow> u8 list \<Rightarrow> stdc_decoder \<Rightarrow> stdc_decoder option" where
  "handle_packet clk p d0 =
     (let d = d0\<lparr>stat_crc_ok := stat_crc_ok d0 + 1\<rparr>; desc = uint (p ! 0); n = int (length p)
      in case decoder_of desc of
           Some f \<Rightarrow> map_option (\<lambda>ms. d\<lparr>emitted := emitted d @ ms\<rparr>) (f p 0 n)
         | None \<Rightarrow> if desc = 0xB1 then decode_egc clk p 0 n False d
                   else if desc = 0xB2 then decode_egc clk p 0 n True d
                   else Some d)"

fun handle_packets :: "(nat \<Rightarrow> int) \<Rightarrow> u8 list list \<Rightarrow> stdc_decoder \<Rightarrow> stdc_decoder option" where
  "handle_packets clk [] d = Some d"
| "handle_packets clk (p # ps) d = handle_packet clk p d \<bind> handle_packets clk ps"

text \<open>A packet that the theorem covers: well framed, sealed, not a multiframe packet.\<close>

definition plain_packet :: "u8 list \<Rightarrow> bool" where
  "plain_packet p \<longleftrightarrow> framed p \<and> (\<exists>body. p = seal body) \<and> uint (p ! 0) \<noteq> 0xBD \<and> uint (p ! 0) \<noteq> 0xBE \<and>
     \<not> (uint (p ! 0) = 0xA8 \<and> length p = 9)"

lemma decoded_frame:
  "decode_egc clk frame pos n p2 d = Some d' \<Longrightarrow> slots_wf (egc_slots d) \<Longrightarrow> readable frame pos n \<Longrightarrow>
   decoded d' = decoded d \<and> mfp d' = mfp d \<and> slots_wf (egc_slots d')"
  using decode_egc_safe [of d frame pos n clk p2] by auto

lemma handle_packet_step:
  assumes p: "plain_packet p" and d: "dec_wf d" and b: "decoded d = pre @ p @ post"
  shows "\<exists>d'. handle_packet clk p d = Some d' \<and> dec_wf d' \<and> decoded d' = decoded d \<and>
     packet_step clk Decoded 640 (int (length pre)) d = Next (int (length pre) + int (length p)) d'"
proof -
  obtain body where body: "p = seal body" and fr: "framed p" using p by (auto simp: plain_packet_def)
  define d1 where "d1 = d\<lparr>stat_crc_ok := stat_crc_ok d + 1\<rparr>"
  let ?pos = "int (length pre)" and ?n = "int (length p)" and ?desc = "uint (p ! 0)"
  have w1: "dec_wf d1" and dd: "decoded d1 = decoded d" using d by (simp_all add: d1_def)
  have len: "length (decoded d) = 640" using d by (simp add: dec_wf_def)
  have fits: "?pos + ?n \<le> 640" using len b by simp
  have bf: "buffer Decoded d = pre @ p @ post" using b by (simp add: buffer_def)
  have bf1: "buffer Decoded d1 = pre @ p @ post" using b by (simp add: buffer_def d1_def)
  have st: "packet_step clk Decoded 640 ?pos d = dispatch clk Decoded ?desc ?pos ?n d1"
    using packet_step_sealed [OF bf [unfolded body] fr [unfolded body] refl _, of 640 clk] fits len
    by (simp add: body [symmetric] buffer_def d1_def)
  have r: "readable (pre @ p @ post) ?pos ?n" by (simp add: readable_def)
  have r0: "readable p 0 ?n" by (simp add: readable_def)
  have n257: "?n \<le> 257"
  proof -
    have "?desc AND 0x0F \<le> 0x0F" by (rule AND_upper2) simp
    moreover have "uint (p ! 1) < 256" using uint_lt2p [of "p ! 1"] by simp
    ultimately show ?thesis using fr unfolding framed_def by linarith
  qed
  show ?thesis
  proof (cases "decoder_of ?desc")
    case (Some f)
    have a8: "?desc = 0xA8 \<Longrightarrow> length p \<noteq> 9" using p by (simp add: plain_packet_def)
    have eq: "f (pre @ p @ post) ?pos ?n = f p 0 ?n" by (rule packet_at.decoders_at [OF Some a8])
    have "\<exists>ms. f p 0 ?n = Some ms"
      by (rule decoder_defined [OF r0 n257 Some]) (use a8 in auto)
    then obtain ms where ms: "f p 0 ?n = Some ms" by blast
    show ?thesis unfolding st
      using Some ms eq w1 dd
      by (intro exI [of _ "d1\<lparr>emitted := emitted d1 @ ms\<rparr>"])
        (simp add: handle_packet_def d1_def [symmetric] dispatch_def bf1 next_or_fault_def emit_fold Let_def)
  next
    case None
    have nm: "?desc \<noteq> 0xBD" "?desc \<noteq> 0xBE" using p by (simp_all add: plain_packet_def)
    have sl: "slots_wf (egc_slots d1)" using w1 by (simp add: dec_wf_def)
    have egc: "\<exists>d'. decode_egc clk p 0 ?n p2 d1 = Some d' \<and> dec_wf d' \<and> decoded d' = decoded d1" for p2
      using egc_step_safe [OF w1 r0, of clk p2] decoded_frame [OF _ sl r0] by blast
    obtain e1 e2 where e: "decode_egc clk p 0 ?n False d1 = Some e1" "dec_wf e1" "decoded e1 = decoded d1"
        "decode_egc clk p 0 ?n True d1 = Some e2" "dec_wf e2" "decoded e2 = decoded d1"
      using egc [of False] egc [of True] by blast
    show ?thesis unfolding st
      using None nm e w1 dd
      by (intro exI [of _ "if ?desc = 0xB1 then e1 else if ?desc = 0xB2 then e2 else d1"])
        (simp add: handle_packet_def d1_def [symmetric] dispatch_def bf1 next_or_fault_def decode_egc_at Let_def)
  qed
qed

lemma parse_loop_packets:
  assumes "\<forall>p \<in> set ps. plain_packet p" and "dec_wf d" and "decoded d = pre @ concat ps @ tail"
    and tail: "length tail \<le> 2 \<or> tail ! 0 = 0"
  shows "\<exists>d'. handle_packets clk ps d = Some d' \<and> dec_wf d' \<and>
     parse_loop clk depth Decoded 640 (int (length pre)) d = Inr d'"
  using assms(1-3)
proof (induction ps arbitrary: d pre)
  case Nil
  have len: "length pre + length tail = 640" using Nil by (simp add: dec_wf_def)
  show ?case
  proof (cases "int (length pre) < 640 - 2")
    case True
    then have "2 < length tail" using len by linarith
    with tail have t0: "tail ! 0 = 0" by simp
    have "rd (decoded d) (int (length pre)) = Some 0"
      using \<open>2 < length tail\<close> t0 Nil(3) by (cases "tail") (auto simp: rd_def nth_append)
    then have "packet_step clk Decoded 640 (int (length pre)) d = Stop d"
      by (simp add: packet_step_def buffer_def)
    with True Nil show ?thesis by (subst parse_loop.simps) simp
  next
    case False
    with Nil show ?thesis by (subst parse_loop.simps) simp
  qed
next
  case (Cons p ps)
  have b: "decoded d = pre @ p @ (concat ps @ tail)" using Cons.prems by simp
  obtain d1 where d1: "handle_packet clk p d = Some d1" "dec_wf d1" "decoded d1 = decoded d"
      "packet_step clk Decoded 640 (int (length pre)) d = Next (int (length pre) + int (length p)) d1"
    using handle_packet_step [OF _ Cons.prems(2) b] Cons.prems(1) by fastforce
  have l3: "3 \<le> length p" using Cons.prems(1) by (simp add: plain_packet_def framed_def)
  have "length pre + length p \<le> 640" using b Cons.prems(2) by (simp add: dec_wf_def)
  then have pos: "int (length pre) < 640 - 2" using l3 by linarith
  have "\<exists>d'. handle_packets clk ps d1 = Some d' \<and> dec_wf d' \<and>
      parse_loop clk depth Decoded 640 (int (length (pre @ p))) d1 = Inr d'"
    using Cons.prems(1) d1 b by (intro Cons.IH) simp_all
  with pos d1 show ?case by (subst parse_loop.simps) simp
qed

section \<open>Properties\<close>

text \<open>
  C7: where parsing a frame can fail.  From a well-formed decoder state, with room for one nested call,
  \<open>parse_packets\<close> on a decoded frame returns in a well-formed state, unless the run comes to one of
  three hazards: a descriptor 0x10, 0x20, ..., 0x70 as the first byte, a confirmation
  packet at byte 631, or a multiframe packet inside a multiframe packet.
\<close>

theorem parse_packets_safe:
  assumes "dec_wf d" and "0 < depth"
  shows "(\<exists>d'. parse_packets clk depth Decoded 640 d = Inr d' \<and> dec_wf d') \<or>
    (\<exists>c. parse_visits clk (Decoded, 640, 0, d) c \<and> hazard c)"
  using parse_loop_safe [OF assms(1), of Decoded 640 0 depth clk] assms(2)
  by (simp add: parse_packets_def parse_fine_def src_ok_def)

lemma dec_wf_create: "dec_wf stdc_decoder_create"
  using slots_wf_create by (simp add: dec_wf_def mf_wf_def) (simp add: stdc_decoder_create_def)

lemma parse_visits_stop:
  "parse_visits clk (src, len, pos, d) c \<Longrightarrow> packet_step clk src len pos d = Stop d' \<Longrightarrow> c = (src, len, pos, d)"
  by (induction "(src, len, pos, d)" c rule: parse_visits.induct) auto

theorem parse_packets_safe_witness:
  "\<exists>d'. parse_packets (\<lambda>_. 0) 1 Decoded 640 stdc_decoder_create = Inr d' \<and> dec_wf d'"
proof -
  have stop: "packet_step (\<lambda>_. 0) Decoded 640 0 stdc_decoder_create = Stop stdc_decoder_create"
    by (simp add: packet_step_def buffer_def stdc_decoder_create_def rd_def)
  have "c = (Decoded, 640, 0, stdc_decoder_create)"
    if "parse_visits (\<lambda>_. 0) (Decoded, 640, 0, stdc_decoder_create) c" for c
    using parse_visits_stop [OF that stop] .
  moreover have "\<not> hazard (Decoded, 640, 0, stdc_decoder_create)"
    by (simp add: buffer_def stdc_decoder_create_def rd_def short_zero_def)
  ultimately show ?thesis using parse_packets_safe [OF dec_wf_create, of 1 "\<lambda>_. 0"] zero_less_one by metis
qed

text \<open>
  C11: a frame of packets.  When a decoded frame consists of sealed, well-framed packets other than
  multiframe packets, followed by a zero byte or by at most two bytes, the parser handles exactly these
  packets, in order, each as if it were alone.
\<close>

theorem parse_frame_of_packets:
  assumes "\<forall>p \<in> set ps. plain_packet p" and "dec_wf d" and "decoded d = concat ps @ rest"
    and "length rest \<le> 2 \<or> rest ! 0 = 0"
  shows "\<exists>d'. parse_packets clk depth Decoded 640 d = Inr d' \<and> handle_packets clk ps d = Some d' \<and> dec_wf d'"
  using parse_loop_packets [of ps d "[]" rest clk depth] assms by (auto simp: parse_packets_def)

text \<open>A channel clear packet and an acknowledgement request.\<close>

lemma plain_packet_seal:
  "framed (seal body) \<Longrightarrow> uint (seal body ! 0) \<notin> {0xA8, 0xBD, 0xBE} \<Longrightarrow> plain_packet (seal body)"
  by (auto simp: plain_packet_def)

theorem parse_frame_of_packets_witness:
  "\<exists>d'. parse_packets (\<lambda>_. 0) 0 Decoded 640 (stdc_decoder_create
       \<lparr>decoded := concat [seal [0x27, 1, 2, 3, 0x44, 5], seal [0x08, 0x44, 7, 0x2F, 0x12, 0, 0]] @ replicate 623 0\<rparr>) = Inr d' \<and>
     handle_packets (\<lambda>_. 0) [seal [0x27, 1, 2, 3, 0x44, 5], seal [0x08, 0x44, 7, 0x2F, 0x12, 0, 0]]
       (stdc_decoder_create
         \<lparr>decoded := concat [seal [0x27, 1, 2, 3, 0x44, 5], seal [0x08, 0x44, 7, 0x2F, 0x12, 0, 0]] @ replicate 623 0\<rparr>) = Some d'"
proof -
  let ?p1 = "seal [0x27 :: u8, 1, 2, 3, 0x44, 5]" and ?p2 = "seal [0x08 :: u8, 0x44, 7, 0x2F, 0x12, 0, 0]"
  let ?d = "stdc_decoder_create\<lparr>decoded := concat [?p1, ?p2] @ replicate 623 0\<rparr>"
  have s: "?p1 = [0x27, 1, 2, 3, 0x44, 5, 253, 141]" "?p2 = [0x08, 0x44, 7, 0x2F, 0x12, 0, 0, 135, 229]"
    by (simp_all add: seal_def fletcher_def)
  have f: "framed [0x27, 1, 2, 3, 0x44, 5, 253, 141]" "framed [0x08, 0x44, 7, 0x2F, 0x12, 0, 0, 135, 229]"
    by (simp_all add: framed_def drop_bit_eq_div)
  have "plain_packet ?p1" "plain_packet ?p2"
    using plain_packet_seal [of "[0x27, 1, 2, 3, 0x44, 5]"] plain_packet_seal [of "[0x08, 0x44, 7, 0x2F, 0x12, 0, 0]"] f s by simp_all
  moreover have "dec_wf ?d" using dec_wf_create by (simp add: dec_wf_def)
  ultimately show ?thesis
    using parse_frame_of_packets [of "[?p1, ?p2]" ?d "replicate 623 0" "\<lambda>_. 0" 0] by auto
qed

text \<open>
  C13: unbounded recursion.  A frame with ten bytes of packets makes the parser call itself on the
  multiframe buffer again and again: whatever the stack allows is exceeded.
\<close>

theorem recursive_frame_overflows:
  assumes "decoded d = recursive_frame" and "length (mf_data (mfp d)) = 4096"
  shows "parse_packets clk depth Decoded 640 d = Inl CallDepth"
  using recursive_frame_parse [OF assms] .

theorem recursive_frame_overflows_witness:
  "parse_packets (\<lambda>_. 0) 1000000 Decoded 640 (stdc_decoder_create\<lparr>decoded := recursive_frame\<rparr>) = Inl CallDepth"
  by (rule recursive_frame_overflows) (simp_all add: stdc_decoder_create_def)

text \<open>
  A read before the frame.  When the first byte of a frame is a short descriptor with length 0,
  the checksum of the one-byte packet is read from the byte before the frame.
\<close>

theorem short_packet_reads_before_frame:
  assumes "length (decoded d) = 640" and "decoded d ! 0 = 0x10"
  shows "parse_packets clk depth Decoded 640 d = Inl OutOfBounds"
proof -
  have rd: "rd (decoded d) 0 = Some 0x10" using assms by (simp add: rd_def)
  have "get_packet_length (decoded d) 0 640 = Some 1"
    by (simp add: get_packet_length_def rd drop_bit_eq_div)
  then have "packet_step clk Decoded 640 0 d = Fault OutOfBounds"
    by (simp add: packet_step_def buffer_def rd rd16_def rd_None)
  then show ?thesis unfolding parse_packets_def by (subst parse_loop.simps) simp
qed

theorem short_packet_reads_before_frame_witness:
  "parse_packets (\<lambda>_. 0) 1 Decoded 640 (stdc_decoder_create\<lparr>decoded := 0x10 # replicate 639 0\<rparr>) = Inl OutOfBounds"
  by (rule short_packet_reads_before_frame) simp_all

end
