(* ===== verification/StdcFrame.thy ===== *)
theory StdcFrame
  imports ViterbiCorrect StdcParseFacts Float32
begin

text \<open>
  The frame layer of \<open>stdc_decode.c\<close>: the sync word, the row permutation, the interleaver, the scrambler,
  \<open>process_frame\<close> and the soft-bit entry \<open>stdc_decoder_feed\<close>.
\<close>

unbundle bit_operations_syntax

section \<open>Tables\<close>

definition sync_word :: "nat list" where
  "sync_word = [
    0, 0, 0, 0, 0, 1, 1, 1, 1, 1, 1, 0, 1, 0, 1, 0,
    1, 1, 0, 0, 1, 1, 0, 1, 1, 1, 0, 1, 1, 0, 1, 0,
    0, 1, 0, 0, 1, 1, 1, 0, 0, 0, 1, 0, 1, 1, 1, 1,
    0, 0, 1, 0, 1, 0, 0, 0, 1, 1, 0, 0, 0, 0, 1, 0]"

definition scramble_seq :: "nat list" where
  "scramble_seq = [
    0,0,0,0,0,0,0,1,0,0,0,1,1,1,0,0,0,1,0,0,1,0,1,1,1,0,0,0,0,0,0,1,
    1,0,0,1,0,0,1,0,0,1,1,0,1,1,1,0,0,1,0,0,0,0,0,1,0,1,0,1,1,0,1,1,
    0,1,0,1,1,0,0,1,0,1,1,0,0,0,0,1,1,1,1,1,0,1,1,0,1,1,1,1,0,1,0,1,
    1,1,0,1,0,0,0,1,0,0,0,0,1,1,0,1,1,0,0,0,1,1,1,1,0,0,1,1,1,0,0,1,
    1,0,0,0,1,0,1,1,0,1,0,0,1,0,0,0,1,0,1,0,0,1,0,1,0,1,0,0,1,1,1,0]"

definition reverse_bits :: "u8 \<Rightarrow> u8" where
  "reverse_bits b0 =
     (let b1 = (drop_bit 1 b0 AND 0x55) OR push_bit 1 (b0 AND 0x55);
          b2 = (drop_bit 2 b1 AND 0x33) OR push_bit 2 (b1 AND 0x33)
      in (drop_bit 4 b2 AND 0x0F) OR push_bit 4 (b2 AND 0x0F))"

section \<open>Sync, permutation, interleaving, scrambling\<close>

text \<open>The score of the better polarity, and whether it is the inverted one.\<close>

definition count_match :: "nat \<Rightarrow> nat \<Rightarrow> nat \<times> nat \<Rightarrow> nat \<times> nat" where
  "count_match b s = (\<lambda>(nrm, inv). if b = s then (nrm + 1, inv) else (nrm, inv + 1))"

definition check_sync :: "i8 list \<Rightarrow> nat \<times> bool" where
  "check_sync buf =
     (let (match_nrm, match_inv) = fold (\<lambda>i m.
          let pos = i * 162;
              bit0 = (if 0 < sint (buf ! pos) then 1 else 0);
              bit1 = (if 0 < sint (buf ! (pos + 1)) then 1 else 0)
          in count_match bit1 (sync_word ! i) (count_match bit0 (sync_word ! i) m))
        [0..<64] (0, 0)
      in if match_nrm < match_inv then (match_inv, True) else (match_nrm, False))"

definition depermute :: "i8 list \<Rightarrow> i8 list" where
  "depermute inp = concat (map (\<lambda>i. take 162 (drop (((i * 23) mod 64) * 162) inp)) [0..<64])"

definition deinterleave :: "i8 list \<Rightarrow> i8 list \<Rightarrow> i8 list" where
  "deinterleave inp out0 =
     fold (\<lambda>row out. fold (\<lambda>col out. out[col * 64 + row := inp ! (row * 162 + col + 2)]) [0..<160] out)
       [0..<64] out0"

definition descramble :: "u8 list \<Rightarrow> u8 list" where
  "descramble pkt0 =
     fold (\<lambda>i pkt. fold (\<lambda>j pkt.
          let b = reverse_bits (pkt ! (i * 4 + j))
          in pkt[i * 4 + j := (if scramble_seq ! i \<noteq> 0 then b XOR 0xFF else b)]) [0..<4] pkt)
       [0..<160] pkt0"

section \<open>Frames\<close>

text \<open>The result of \<open>viterbi_ber\<close>, the quotient rounded to \<open>float\<close>.\<close>

definition viterbi_ber :: "u8 list \<Rightarrow> nat \<Rightarrow> i8 list \<Rightarrow> rat" where
  "viterbi_ber bits n soft_syms =
     (if n = 0 then 1 / 2
      else round32 (of_nat (viterbi_errors bits n soft_syms) / of_nat (n * 2)))"

definition process_frame :: "(nat \<Rightarrow> int) \<Rightarrow> nat \<Rightarrow> bool \<Rightarrow> stdc_decoder \<Rightarrow> fault + stdc_decoder" where
  "process_frame clk depth inverted d0 =
     (let buf = (if inverted then map uminus (shift_reg d0) else shift_reg d0);
          dep = depermute buf;
          dei = deinterleave dep (deinterleaved d0);
          (metric, bytes) = viterbi_decode (viterbi_init 5120) dei;
          ber = viterbi_ber bytes 5120 dei;
          d1 = d0\<lparr>shift_reg := buf, depermuted := dep, deinterleaved := dei, decoded := bytes,
                  stat_ber_sum := stat_ber_sum d0 + word_of_int (trunc (round32 (ber * 10000))), stat_ber_count := stat_ber_count d0 + 1\<rparr>
      in if round32 (3 / 20) < ber then Inr d1
         else (let d2 = d1\<lparr>decoded := descramble bytes, stat_frames := stat_frames d1 + 1,
                           frame_count := frame_count d1 + 1\<rparr>
               in parse_packets clk depth Decoded 640 d2))"

text \<open>
  The shift register takes one soft bit.  \<open>shift_pos\<close> is an \<open>int\<close> that only a processed frame resets:
  incrementing it at \<open>2 ^ 31 - 1\<close> is undefined, here \<open>None\<close>.
\<close>

definition shift_in :: "i8 \<Rightarrow> stdc_decoder \<Rightarrow> stdc_decoder option" where
  "shift_in sb d =
     (if shift_pos d = 2147483647 then None
      else Some (d\<lparr>shift_reg := tl (shift_reg d) @ [sb], shift_pos := shift_pos d + 1\<rparr>))"

datatype feed_fault = ParseFault fault | SignedOverflow

definition frame_done :: "fault + stdc_decoder \<Rightarrow> feed_fault + stdc_decoder" where
  "frame_done r = (case r of Inl e \<Rightarrow> Inl (ParseFault e) | Inr d \<Rightarrow> Inr (d\<lparr>shift_pos := 0\<rparr>))"

definition feed_bit :: "(nat \<Rightarrow> int) \<Rightarrow> nat \<Rightarrow> i8 \<Rightarrow> stdc_decoder \<Rightarrow> feed_fault + stdc_decoder" where
  "feed_bit clk depth sb d0 =
     (case shift_in sb d0 of
        None \<Rightarrow> Inl SignedOverflow
      | Some d \<Rightarrow>
          if \<not> 10368 \<le> shift_pos d then Inr d
          else (let (score, inv) = check_sync (shift_reg d)
                in if synced d
                   then (if 100 \<le> score then frame_done (process_frame clk depth inv d)
                         else Inr (d\<lparr>synced := False, stat_synced := False\<rparr>))
                   else (if 110 \<le> score
                         then frame_done (process_frame clk depth inv (d\<lparr>synced := True, stat_synced := True\<rparr>))
                         else Inr d)))"

fun feed_bits :: "(nat \<Rightarrow> int) \<Rightarrow> nat \<Rightarrow> i8 list \<Rightarrow> stdc_decoder \<Rightarrow> feed_fault + stdc_decoder" where
  "feed_bits clk depth [] d = Inr d"
| "feed_bits clk depth (sb # sbs) d =
     (case feed_bit clk depth sb d of Inl e \<Rightarrow> Inl e | Inr d' \<Rightarrow> feed_bits clk depth sbs d')"

text \<open>The conversion of a soft bit: times 127, clamped, truncated.\<close>

definition quantize :: "rat \<Rightarrow> i8" where
  "quantize x =
     (let v = round32 (x * 127); w = (if 127 < v then 127 else v); u = (if w < - 127 then - 127 else w)
      in word_of_int (trunc u))"

definition stdc_decoder_feed :: "(nat \<Rightarrow> int) \<Rightarrow> nat \<Rightarrow> rat list \<Rightarrow> stdc_decoder \<Rightarrow> feed_fault + stdc_decoder" where
  "stdc_decoder_feed clk depth soft_bits d = feed_bits clk depth (map quantize soft_bits) d"

end
