(* ===== verification/StdcChain.thy ===== *)
theory StdcChain
  imports BpskDemod StdcFrame SdrPlan
begin

text \<open>
  The reception of STD-C in \<open>main.c\<close>: the callback of the channelizer gives the samples of the STD-C channel to the
  demodulator, whose callback gives its soft bits to the decoder.  A demodulator that does not return makes the
  result \<open>None\<close>, a fault of the decoder is \<open>Inl\<close>.
\<close>

type_synonym receiver = "bpsk_demod \<times> stdc_decoder"

text \<open>The calls of \<open>stdc_bits_cb\<close> with the lists of soft bits.\<close>

fun stdc_bits_cb :: "(nat \<Rightarrow> int) \<Rightarrow> nat \<Rightarrow> rat list list \<Rightarrow> stdc_decoder \<Rightarrow> feed_fault + stdc_decoder" where
  "stdc_bits_cb clk depth [] dec = Inr dec"
| "stdc_bits_cb clk depth (bits # es) dec =
     (case stdc_decoder_feed clk depth bits dec of Inl e \<Rightarrow> Inl e | Inr dec1 \<Rightarrow> stdc_bits_cb clk depth es dec1)"

text \<open>\<open>channel_output_cb\<close> for the STD-C channel; the other channels go to their rings.\<close>

definition channel_output_cb ::
  "bpsk_libm \<Rightarrow> (nat \<Rightarrow> int) \<Rightarrow> nat \<Rightarrow> output_event \<Rightarrow> receiver \<Rightarrow> (feed_fault + receiver) option" where
  "channel_output_cb m clk depth event rc =
     (let (cid, type, samples) = event; (d, dec) = rc
      in if type = CHAN_STDC_EGC
         then (case bpsk_demod_process m samples d of
                 None \<Rightarrow> None
               | Some (d1, es) \<Rightarrow>
                   Some (case stdc_bits_cb clk depth es dec of Inl e \<Rightarrow> Inl e | Inr dec1 \<Rightarrow> Inr (d1, dec1)))
         else Some (Inr rc))"

fun receive :: "bpsk_libm \<Rightarrow> (nat \<Rightarrow> int) \<Rightarrow> nat \<Rightarrow> output_event list \<Rightarrow> receiver \<Rightarrow> (feed_fault + receiver) option" where
  "receive m clk depth [] rc = Some (Inr rc)"
| "receive m clk depth (ev # evs) rc =
     (case channel_output_cb m clk depth ev rc of
        None \<Rightarrow> None
      | Some (Inl e) \<Rightarrow> Some (Inl e)
      | Some (Inr rc1) \<Rightarrow> receive m clk depth evs rc1)"

text \<open>The demodulator and the decoder are made for the first STD-C channel of the satellite.\<close>

definition start_stdc :: "bpsk_libm \<Rightarrow> settings \<Rightarrow> satellite \<Rightarrow> channelizer \<Rightarrow> receiver option" where
  "start_stdc m s sat ch =
     (case List.find (\<lambda>cd. ch_type cd = CHAN_STDC_EGC \<and> mode s \<noteq> MODE_AERO) (channels sat) of
        None \<Rightarrow> None
      | Some cd \<Rightarrow>
          (let fs = channelizer_output_rate ch (channel_id cd); fs1 = (if fs \<le> 0 then 19200 else fs)
           in Some (bpsk_demod_create m fs1 1200, stdc_decoder_create)))"

section \<open>Channels found on the air\<close>

definition INMARSAT_L_BAND_LOW :: rat where "INMARSAT_L_BAND_LOW = 1525000000"
definition INMARSAT_L_BAND_HIGH :: rat where "INMARSAT_L_BAND_HIGH = 1559000000"

definition guess_type :: "rat \<Rightarrow> channel_type" where
  "guess_type freq_hz =
     (if 1546050000 \<le> freq_hz then CHAN_AERO_8400 else if 1545800000 \<le> freq_hz then CHAN_AERO_10500
      else if freq_hz < 1545150000 then CHAN_AERO_600 else CHAN_AERO_1200)"

text \<open>The state is the channelizer with \<open>next_dynamic_channel_id\<close>.\<close>

definition try_add_dynamic_channel :: "libm \<Rightarrow> settings \<Rightarrow> rat \<Rightarrow> channelizer \<times> nat \<Rightarrow> channelizer \<times> nat" where
  "try_add_dynamic_channel m s freq_mhz = (\<lambda>(ch, next_id).
     let freq_hz = dmul freq_mhz 1000000
     in if mode s = MODE_STDC \<or> freq_hz < INMARSAT_L_BAND_LOW \<or> INMARSAT_L_BAND_HIGH < freq_hz \<or>
           ddiv (rate s) 2 < \<bar>dsub freq_hz (center s)\<bar> \<or> channelizer_has_freq ch freq_hz 5000
        then (ch, next_id)
        else (snd (channelizer_add_channel m ch freq_hz (guess_type freq_hz) next_id), next_id + 1))"

end
