(* ===== verification/BpskFft.thy ===== *)
theory BpskFft
  imports BpskDemod
begin

text \<open>
  The Fourier transform of \<open>demod_bpsk.c\<close> against the recursive radix-2 transform.
\<close>

section \<open>The Fourier transform\<close>

lemma length_reorder [simp]: "length (reorder_loop n i j x) = length x"
  by (induction n i j x rule: reorder_loop.induct) (subst reorder_loop.simps, simp add: Let_def)

lemma length_butterflies [simp]: "length (butterfly_loop w half i k wk x) = length x"
  by (induction w half i k wk x rule: butterfly_loop.induct) (subst butterfly_loop.simps, simp add: Let_def)

lemma length_blocks [simp]: "length (block_loop w len n i x) = length x"
  by (induction w len n i x rule: block_loop.induct) (subst block_loop.simps, simp)

lemma length_stages [simp]: "length (stage_loop m n len x) = length x"
  by (induction m n len x rule: stage_loop.induct) (subst stage_loop.simps, simp)

lemma length_fft [simp]: "length (fft m n x) = length x"
  by (simp add: fft_def)


text \<open>The reference: the recursive radix-2 transform, with the same operations.\<close>

fun evens :: "'a list \<Rightarrow> 'a list" where
  "evens [] = []" | "evens [x] = [x]" | "evens (x # y # xs) = x # evens xs"

fun odds :: "'a list \<Rightarrow> 'a list" where
  "odds [] = []" | "odds [x] = []" | "odds (x # y # xs) = y # odds xs"

fun powers :: "cf \<Rightarrow> cf \<Rightarrow> nat \<Rightarrow> cf list" where
  "powers w wk 0 = []" | "powers w wk (Suc n) = wk # powers w (cmul wk w) n"

definition combine :: "cf \<Rightarrow> cf list \<Rightarrow> cf list \<Rightarrow> cf list" where
  "combine w us vs = (let zs = map2 cmul vs (powers w (1, 0) (length vs)) in map2 cadd us zs @ map2 csub us zs)"

fun fft_rec :: "bpsk_libm \<Rightarrow> nat \<Rightarrow> cf list \<Rightarrow> cf list" where
  "fft_rec m 0 xs = xs"
| "fft_rec m (Suc k) xs = combine (twiddle m (2 ^ Suc k)) (fft_rec m k (evens xs)) (fft_rec m k (odds xs))"

lemma evens_odds_div: "length (evens xs) = (length xs + 1) div 2 \<and> length (odds xs) = length xs div 2"
  by (induction xs rule: evens.induct) simp_all

lemma evens_odds_length: "length xs = 2 * n \<Longrightarrow> length (evens xs) = n \<and> length (odds xs) = n"
  using evens_odds_div [of xs] by simp

lemma evens_nth: "2 * i < length xs \<Longrightarrow> evens xs ! i = xs ! (2 * i)"
proof (induction xs arbitrary: i rule: evens.induct)
  case (3 x y xs)
  then show ?case by (cases i) simp_all
qed simp_all

lemma odds_nth: "2 * i + 1 < length xs \<Longrightarrow> odds xs ! i = xs ! (2 * i + 1)"
proof (induction xs arbitrary: i rule: odds.induct)
  case (3 x y xs)
  then show ?case by (cases i) simp_all
qed simp_all

lemma length_powers [simp]: "length (powers w wk n) = n"
  by (induction n arbitrary: wk) simp_all

lemma length_fft_rec: "length xs = 2 ^ k \<Longrightarrow> length (fft_rec m k xs) = 2 ^ k"
proof (induction k arbitrary: xs)
  case (Suc k)
  then show ?case using evens_odds_length [of xs "2 ^ k"] by (simp add: combine_def Let_def)
qed simp

subsection \<open>The order of the samples\<close>

text \<open>The index with its \<open>k\<close> bits in reverse order.\<close>

fun bit_reverse :: "nat \<Rightarrow> nat \<Rightarrow> nat" where
  "bit_reverse 0 i = 0"
| "bit_reverse (Suc k) i = (i mod 2) * 2 ^ k + bit_reverse k (i div 2)"

fun reordered :: "nat \<Rightarrow> 'a list \<Rightarrow> 'a list" where
  "reordered 0 xs = xs"
| "reordered (Suc k) xs = reordered k (evens xs) @ reordered k (odds xs)"

lemma bit_reverse_less: "bit_reverse k i < 2 ^ k"
proof (induction k arbitrary: i)
  case (Suc k)
  have "i mod 2 = 0 \<or> i mod 2 = 1" by auto
  then show ?case using Suc [of "i div 2"] by auto
qed simp

text \<open>Reversing from the other end.\<close>

lemma bit_reverse_top: "i < 2 ^ k \<Longrightarrow> b < 2 \<Longrightarrow> bit_reverse (Suc k) (b * 2 ^ k + i) = b + 2 * bit_reverse k i"
proof (induction k arbitrary: i)
  case (Suc k)
  have e: "b * 2 ^ Suc k + i = i + 2 * (b * 2 ^ k)" by simp
  have "(b * 2 ^ Suc k + i) mod 2 = i mod 2" "(b * 2 ^ Suc k + i) div 2 = b * 2 ^ k + i div 2"
    unfolding e by simp_all
  then have "bit_reverse (Suc (Suc k)) (b * 2 ^ Suc k + i) = (i mod 2) * 2 ^ Suc k + bit_reverse (Suc k) (b * 2 ^ k + i div 2)"
    by (simp only: bit_reverse.simps(2) [of "Suc k"])
  also have "\<dots> = (i mod 2) * 2 ^ Suc k + (b + 2 * bit_reverse k (i div 2))" using Suc by simp
  finally show ?case by simp
qed auto

lemma bit_reverse_self: "i < 2 ^ k \<Longrightarrow> bit_reverse k (bit_reverse k i) = i"
proof (induction k arbitrary: i)
  case (Suc k)
  have "i div 2 < 2 ^ k" using Suc.prems by simp
  then show ?case using bit_reverse_top [OF bit_reverse_less, of "i mod 2" k "i div 2"] Suc.IH by simp
qed simp

lemma length_reordered: "length xs = 2 ^ k \<Longrightarrow> length (reordered k xs) = 2 ^ k"
proof (induction k arbitrary: xs)
  case (Suc k)
  then show ?case using evens_odds_length [of xs "2 ^ k"] by simp
qed simp

lemma reordered_nth: "length xs = 2 ^ k \<Longrightarrow> i < 2 ^ k \<Longrightarrow> reordered k xs ! i = xs ! bit_reverse k i"
proof (induction k arbitrary: xs i)
  case (Suc k)
  have l: "length (evens xs) = 2 ^ k" "length (odds xs) = 2 ^ k" using evens_odds_length [of xs "2 ^ k"] Suc.prems(1) by auto
  show ?case
  proof (cases "i < 2 ^ k")
    case True
    have "bit_reverse (Suc k) i = 2 * bit_reverse k i" using bit_reverse_top [OF True, of 0] by simp
    moreover have "2 * bit_reverse k i < length xs" using bit_reverse_less [of k i] Suc.prems(1) by simp
    ultimately show ?thesis using Suc.IH [OF l(1) True] True evens_nth length_reordered [OF l(1)] by (simp add: nth_append)
  next
    case False
    define j where "j = i - 2 ^ k"
    have j: "i = 2 ^ k + j" "j < 2 ^ k" using False Suc.prems(2) by (simp_all add: j_def)
    have "bit_reverse (Suc k) i = 2 * bit_reverse k j + 1" using bit_reverse_top [OF j(2), of 1] by (simp add: j(1))
    moreover have "2 * bit_reverse k j + 1 < length xs" using bit_reverse_less [of k j] Suc.prems(1) by simp
    ultimately show ?thesis using Suc.IH [OF l(2) j(2)] False odds_nth length_reordered [OF l(1)] by (simp add: nth_append j_def)
  qed
qed simp

subsection \<open>The reordering loop\<close>

lemma low_and_bit: "r < 2 ^ k \<Longrightarrow> r AND 2 ^ k = (0 :: nat)"
proof -
  assume r: "r < 2 ^ k"
  have "\<not> bit r k" using r by (simp add: bit_iff_odd)
  then show ?thesis by (simp add: and_exp_eq_0_iff_not_bit)
qed

lemma low_xor_bit: "r < 2 ^ k \<Longrightarrow> r XOR 2 ^ k = r + (2 ^ k :: nat)"
  using disjunctive_add_eq_xor [OF low_and_bit] by simp

lemma carry_rest:
  assumes "r < 2 ^ k"
  shows "carry_loop r (2 ^ k) = 2 ^ k + r"
  using low_and_bit [OF assms] low_xor_bit [OF assms] by (subst carry_loop.simps) simp

lemma carry_on:
  assumes "r < 2 ^ k"
  shows "carry_loop (2 ^ k + r) (2 ^ k) = carry_loop r (2 ^ k div 2)"
proof -
  have e: "2 ^ k + r = r XOR 2 ^ k" using low_xor_bit [OF assms] by simp
  have "(2 ^ k + r) XOR 2 ^ k = r" unfolding e by (simp add: xor.assoc)
  moreover have "bit (2 ^ k + r) k" using assms by (simp add: bit_iff_odd)
  then have "(2 ^ k + r) AND 2 ^ k \<noteq> 0" by (simp add: and_exp_eq_0_iff_not_bit)
  ultimately show ?thesis by (subst carry_loop.simps) simp
qed

lemma carry_increments: "i + 1 < 2 ^ Suc k \<Longrightarrow> carry_loop (bit_reverse (Suc k) i) (2 ^ k) = bit_reverse (Suc k) (i + 1)"
proof (induction k arbitrary: i)
  case 0
  then show ?case using carry_rest [of 0 0] by simp
next
  case (Suc k)
  have r: "bit_reverse (Suc k) (i div 2) < 2 ^ Suc k" by (rule bit_reverse_less)
  show ?case
  proof (cases "even i")
    case True
    then obtain n where n: "i = 2 * n" by blast
    have "bit_reverse (Suc (Suc k)) i = bit_reverse (Suc k) (i div 2)"
      "bit_reverse (Suc (Suc k)) (i + 1) = 2 ^ Suc k + bit_reverse (Suc k) (i div 2)"
      by (simp_all only: bit_reverse.simps(2) [of "Suc k"]) (simp_all add: n)
    then show ?thesis using carry_rest [OF r] by simp
  next
    case False
    then obtain n where n: "i = 2 * n + 1" by (rule oddE)
    have e: "bit_reverse (Suc (Suc k)) i = 2 ^ Suc k + bit_reverse (Suc k) (i div 2)"
      "bit_reverse (Suc (Suc k)) (i + 1) = bit_reverse (Suc k) (i div 2 + 1)"
      by (simp_all only: bit_reverse.simps(2) [of "Suc k"]) (simp_all add: n)
    have "i div 2 + 1 < 2 ^ Suc k" using Suc.prems by (simp add: n)
    from Suc.IH [OF this] show ?thesis unfolding e carry_on [OF r] by simp
  qed
qed

text \<open>The positions that are done when the loop is at \<open>i\<close>.\<close>

definition placed :: "nat \<Rightarrow> 'a list \<Rightarrow> nat \<Rightarrow> 'a list \<Rightarrow> bool" where
  "placed k xs i x \<longleftrightarrow> length x = 2 ^ k \<and>
     (\<forall>p < 2 ^ k. x ! p = (if p < i \<or> bit_reverse k p < i then xs ! bit_reverse k p else xs ! p))"

lemma placed_swap:
  assumes "placed k xs i x" and "i < 2 ^ k" and "j = bit_reverse k i"
  shows "placed k xs (i + 1) (if i < j then x[i := x ! j, j := x ! i] else x)"
proof -
  have j: "j < 2 ^ k" "bit_reverse k j = i" using bit_reverse_less bit_reverse_self [OF assms(2)] by (simp_all add: assms(3))
  have inj: "bit_reverse k p = i \<longleftrightarrow> p = j" if "p < 2 ^ k" for p
    using bit_reverse_self [OF that] by (auto simp: assms(3) bit_reverse_self assms(2))
  have l: "length x = 2 ^ k" using assms(1) by (simp add: placed_def)
  have x: "x ! p = (if p < i \<or> bit_reverse k p < i then xs ! bit_reverse k p else xs ! p)" if "p < 2 ^ k" for p
    using assms(1) that by (simp add: placed_def)
  show ?thesis unfolding placed_def
  proof (intro conjI allI impI)
    fix p :: nat
    assume p: "p < 2 ^ k"
    show "(if i < j then x[i := x ! j, j := x ! i] else x) ! p =
      (if p < i + 1 \<or> bit_reverse k p < i + 1 then xs ! bit_reverse k p else xs ! p)"
    proof (cases "p = i \<or> p = j")
      case True
      then show ?thesis using x [OF assms(2)] x [OF j(1)] j assms(2,3) l by (auto simp: nth_list_update)
    next
      case False
      then have "p < i + 1 \<or> bit_reverse k p < i + 1 \<longleftrightarrow> p < i \<or> bit_reverse k p < i" using inj [OF p] by auto
      then show ?thesis using x [OF p] False by simp
    qed
  qed (simp add: l)
qed

lemma reorder_loop_placed:
  assumes "length xs = 2 ^ Suc k"
  shows "1 \<le> i \<Longrightarrow> i \<le> 2 ^ Suc k \<Longrightarrow> placed (Suc k) xs i x \<Longrightarrow> reorder_loop (2 ^ Suc k) i (bit_reverse (Suc k) (i - 1)) x = reordered (Suc k) xs"
proof (induction "2 ^ Suc k - i" arbitrary: i x)
  case 0
  then have i: "i = 2 ^ Suc k" by simp
  have "x = reordered (Suc k) xs"
  proof (rule nth_equalityI)
    show "length x = length (reordered (Suc k) xs)" using 0 length_reordered [OF assms] by (simp add: placed_def)
    fix p
    assume "p < length x"
    then have "p < 2 ^ Suc k" using 0 by (simp only: placed_def)
    then show "x ! p = reordered (Suc k) xs ! p" using 0 i reordered_nth [OF assms] unfolding placed_def by metis
  qed
  then show ?case by (subst reorder_loop.simps) (simp add: i)
next
  case (Suc d)
  then have i: "i < 2 ^ Suc k" "i - 1 + 1 = i" by simp_all
  define j where "j = bit_reverse (Suc k) i"
  have c: "carry_loop (bit_reverse (Suc k) (i - 1)) (2 ^ Suc k div 2) = j"
    using carry_increments [of "i - 1" k] i by (simp add: j_def)
  have "d = 2 ^ Suc k - (i + 1)" "1 \<le> i + 1" "i + 1 \<le> 2 ^ Suc k" using Suc.hyps(2) i by simp_all
  note r = Suc.hyps(1) [OF this placed_swap [OF Suc.prems(3) i(1) j_def], unfolded add_diff_cancel_right' j_def [symmetric]]
  show ?case by (subst reorder_loop.simps) (simp only: i(1) if_True c Let_def r)
qed

lemma bit_reverse_zero [simp]: "bit_reverse k 0 = 0"
  by (induction k) simp_all

lemma placed_start: "length xs = 2 ^ k \<Longrightarrow> placed k xs 1 xs"
proof -
  assume l: "length xs = 2 ^ k"
  have "p = 0" if "p < 2 ^ k" "bit_reverse k p = 0" for p using bit_reverse_self [OF that(1)] that(2) by simp
  then show ?thesis using l by (auto simp: placed_def)
qed

lemma reorder_loop_reordered:
  assumes "length xs = 2 ^ k"
  shows "reorder_loop (2 ^ k) 1 0 xs = reordered k xs"
proof (cases k)
  case 0
  then show ?thesis by (subst reorder_loop.simps) simp
next
  case (Suc k')
  from reorder_loop_placed [OF assms [unfolded Suc] _ _ placed_start [OF assms [unfolded Suc]]] show ?thesis
    unfolding Suc by (simp del: bit_reverse.simps reordered.simps)
qed

subsection \<open>The stages\<close>

lemma butterflies:
  "length us + k = half \<Longrightarrow> length vs = length us \<Longrightarrow> length A = i + k \<Longrightarrow> length us + length B = half \<Longrightarrow>
    butterfly_loop w half i k wk (A @ us @ B @ vs @ C) =
      (let zs = map2 cmul vs (powers w wk (length vs)) in A @ map2 cadd us zs @ B @ map2 csub us zs @ C)"
proof (induction us arbitrary: vs k wk A B)
  case Nil
  then show ?case by (subst butterfly_loop.simps) simp
next
  case (Cons u us)
  then obtain v vs' where vs: "vs = v # vs'" by (cases vs) auto
  let ?z = "cmul v wk" and ?x = "A @ (u # us) @ B @ vs @ C"
  have p: "length (A @ (u # us) @ B) = i + k + half" using Cons.prems by simp
  have "?x ! (i + k) = u" using Cons.prems(3) by (simp add: nth_append)
  moreover have "((A @ (u # us) @ B) @ vs @ C) ! (i + k + half) = v" using p by (simp add: nth_append vs del: append_assoc)
  then have "?x ! (i + k + half) = v" by simp
  moreover have "?x[i + k := cadd u ?z, i + k + half := csub u ?z] = (A @ [cadd u ?z]) @ us @ (B @ [csub u ?z]) @ vs' @ C"
  proof -
    let ?P = "A @ (cadd u ?z # us) @ B"
    have a: "?x[i + k := cadd u ?z] = ?P @ v # vs' @ C"
      using list_update_length [of A u "us @ B @ vs @ C" "cadd u ?z"] Cons.prems(3) by (simp add: vs)
    have p2: "i + k + half = length ?P" using p by simp
    show ?thesis unfolding a unfolding p2 list_update_length by simp
  qed
  moreover have "butterfly_loop w half i (k + 1) (cmul wk w) ((A @ [cadd u ?z]) @ us @ (B @ [csub u ?z]) @ vs' @ C) =
      (let zs = map2 cmul vs' (powers w (cmul wk w) (length vs')) in (A @ [cadd u ?z]) @ map2 cadd us zs @ (B @ [csub u ?z]) @ map2 csub us zs @ C)"
    using Cons.prems vs by (intro Cons.IH) simp_all
  moreover have "k < half" using Cons.prems by simp
  ultimately show ?case by (subst butterfly_loop.simps) (simp add: Let_def vs)
qed

text \<open>A stage on \<open>q\<close> blocks of length \<open>2 h\<close>.\<close>

fun blocks :: "cf \<Rightarrow> nat \<Rightarrow> nat \<Rightarrow> cf list \<Rightarrow> cf list" where
  "blocks w h 0 ys = []"
| "blocks w h (Suc q) ys = combine w (take h ys) (take h (drop h ys)) @ blocks w h q (drop (2 * h) ys)"

lemma blocks_append: "length ys = q * (2 * h) \<Longrightarrow> blocks w h (q + r) (ys @ zs) = blocks w h q ys @ blocks w h r zs"
proof (induction q arbitrary: ys)
  case (Suc q)
  then have "2 * h \<le> length ys" "length (drop (2 * h) ys) = q * (2 * h)" by simp_all
  then show ?case using Suc.IH [of "drop (2 * h) ys"] by simp
qed simp

lemma length_combine: "length us = length vs \<Longrightarrow> length (combine w us vs) = 2 * length us"
  by (simp add: combine_def Let_def)

lemma block_loop_blocks:
  assumes "0 < h"
  shows "length ys = q * (2 * h) \<Longrightarrow> block_loop w (2 * h) (length pre + length ys) (length pre) (pre @ ys) = pre @ blocks w h q ys"
proof (induction q arbitrary: pre ys)
  case 0
  then show ?case by (subst block_loop.simps) simp
next
  case (Suc q)
  define us vs rest where "us = take h ys" and "vs = take h (drop h ys)" and "rest = drop (2 * h) ys"
  have "drop (2 * h) ys = drop h (drop h ys)" by (simp add: mult_2)
  then have ys: "ys = us @ vs @ rest" unfolding us_def vs_def rest_def by (simp only: append_take_drop_id)
  have l: "length us = h" "length vs = h" "length rest = q * (2 * h)" using Suc.prems by (simp_all add: us_def vs_def rest_def)
  have b: "butterfly_loop w (2 * h div 2) (length pre) 0 (1, 0) (pre @ ys) = (pre @ combine w us vs) @ rest"
    using butterflies [of us 0 h vs pre "length pre" "[]" w "(1, 0)" rest] l by (simp add: ys combine_def Let_def)
  have n: "length (pre @ combine w us vs) = length pre + 2 * h" "length pre + length ys = length (pre @ combine w us vs) + length rest"
    using l by (simp_all add: ys length_combine)
  have "block_loop w (2 * h) (length pre + length ys) (length pre) (pre @ ys) =
      block_loop w (2 * h) (length pre + length ys) (length pre + 2 * h) ((pre @ combine w us vs) @ rest)"
    using assms l b by (subst block_loop.simps) (simp add: ys)
  also have "\<dots> = (pre @ combine w us vs) @ blocks w h q rest"
    unfolding n(2) n(1) [symmetric] by (rule Suc.IH [OF l(3)])
  finally show ?case by (simp add: us_def vs_def rest_def)
qed

lemma stage_split:
  "s \<le> k \<Longrightarrow> length A = 2 ^ k \<Longrightarrow> length B = 2 ^ k \<Longrightarrow> stage_loop m (2 ^ Suc k) (2 ^ Suc s) (A @ B) =
    combine (twiddle m (2 ^ Suc k)) (stage_loop m (2 ^ k) (2 ^ Suc s) A) (stage_loop m (2 ^ k) (2 ^ Suc s) B)"
proof (induction "k - s" arbitrary: s A B)
  case 0
  then have s: "s = k" by simp
  have "block_loop (twiddle m (2 ^ Suc k)) (2 * 2 ^ k) (length ([] :: cf list) + length (A @ B)) (length ([] :: cf list)) ([] @ (A @ B)) =
      [] @ blocks (twiddle m (2 ^ Suc k)) (2 ^ k) 1 (A @ B)"
    by (rule block_loop_blocks) (simp_all add: 0(3,4))
  then have b: "block_loop (twiddle m (2 ^ Suc k)) (2 ^ Suc k) (2 ^ Suc k) 0 (A @ B) = combine (twiddle m (2 ^ Suc k)) A B" using 0(3,4) by (simp add: mult_2)
  have "stage_loop m (2 ^ k) (2 ^ Suc k) X = X" for X by (subst stage_loop.simps) simp
  moreover have "stage_loop m (2 ^ Suc k) (2 ^ Suc k * 2) X = X" for X by (subst stage_loop.simps) simp
  ultimately show ?case unfolding s by (subst stage_loop.simps) (simp add: b [simplified])
next
  case (Suc d)
  then have s: "s < k" "d = k - Suc s" by simp_all
  define q where "q = (2 :: nat) ^ (k - Suc s)"
  have k: "(2 :: nat) ^ k = q * (2 * 2 ^ s)" using s(1) by (simp add: q_def power_add [symmetric] flip: power_Suc)
  let ?w = "twiddle m (2 ^ Suc s)" and ?A = "blocks (twiddle m (2 ^ Suc s)) (2 ^ s) q A" and ?B = "blocks (twiddle m (2 ^ Suc s)) (2 ^ s) q B"
  have one: "block_loop ?w (2 ^ Suc s) (2 ^ k) 0 X = blocks ?w (2 ^ s) q X" if "length X = 2 ^ k" for X
    using block_loop_blocks [of "2 ^ s" X q ?w "[]"] that k by simp
  have "block_loop ?w (2 ^ Suc s) (2 ^ Suc k) 0 (A @ B) = blocks ?w (2 ^ s) (q + q) (A @ B)"
    using block_loop_blocks [of "2 ^ s" "A @ B" "q + q" ?w "[]"] Suc.prems k by (simp add: algebra_simps)
  then have both: "block_loop ?w (2 ^ Suc s) (2 ^ Suc k) 0 (A @ B) = ?A @ ?B" using blocks_append [of A q "2 ^ s" ?w q B] Suc.prems k by simp
  have l: "length ?A = 2 ^ k" "length ?B = 2 ^ k" using one Suc.prems(2,3) by (metis length_blocks)+
  have le: "(2 :: nat) ^ Suc s \<le> 2 ^ k" "(2 :: nat) ^ Suc s \<le> 2 ^ Suc k" using s(1) by (simp_all only: power_increasing_iff)
  have unfold1: "stage_loop m (2 ^ k) (2 ^ Suc s) X = stage_loop m (2 ^ k) (2 ^ Suc (Suc s)) (blocks ?w (2 ^ s) q X)" if "length X = 2 ^ k" for X
    using le(1) one [OF that] by (subst stage_loop.simps) (simp add: mult.commute)
  have "stage_loop m (2 ^ Suc k) (2 ^ Suc s) (A @ B) = stage_loop m (2 ^ Suc k) (2 ^ Suc (Suc s)) (?A @ ?B)"
    using le(2) both by (subst stage_loop.simps) (simp add: mult.commute)
  also have "\<dots> = combine (twiddle m (2 ^ Suc k)) (stage_loop m (2 ^ k) (2 ^ Suc (Suc s)) ?A) (stage_loop m (2 ^ k) (2 ^ Suc (Suc s)) ?B)"
    using s l by (intro Suc.hyps(1)) simp_all
  finally show ?case using unfold1 Suc.prems(2,3) by simp
qed

lemma stages_fft_rec: "length xs = 2 ^ k \<Longrightarrow> stage_loop m (2 ^ k) 2 (reordered k xs) = fft_rec m k xs"
proof (induction k arbitrary: xs)
  case 0
  then show ?case by (subst stage_loop.simps) simp
next
  case (Suc k)
  have l: "length (evens xs) = 2 ^ k" "length (odds xs) = 2 ^ k" using evens_odds_length [of xs "2 ^ k"] Suc.prems by auto
  have "stage_loop m (2 ^ Suc k) (2 ^ Suc 0) (reordered k (evens xs) @ reordered k (odds xs)) =
      combine (twiddle m (2 ^ Suc k)) (stage_loop m (2 ^ k) (2 ^ Suc 0) (reordered k (evens xs))) (stage_loop m (2 ^ k) (2 ^ Suc 0) (reordered k (odds xs)))"
    using length_reordered l by (intro stage_split) simp_all
  then show ?case using Suc.IH l by (simp del: power_Suc add: power_Suc [of 2 0, simplified])
qed

section \<open>Properties\<close>

text \<open>
  C34: the Fourier transform in place, with its loop that exchanges the samples by a counter in reverse bit order
  and its three nested loops of butterflies, computes the same \<open>float\<close> values as the recursive radix-2 transform, for every
  power of two.
\<close>

theorem fft_is_recursive:
  assumes "length xs = 2 ^ k"
  shows "fft m (2 ^ k) xs = fft_rec m k xs"
  unfolding fft_def reorder_loop_reordered [OF assms] by (rule stages_fft_rec [OF assms])

theorem fft_is_recursive_witness:
  "\<forall>m. fft m 4 [(1, 0), (0, 1), (1 / 2, 0), (0, 0)] = fft_rec m 2 [(1, 0), (0, 1), (1 / 2, 0), (0, 0)]"
  using fft_is_recursive [of "[(1, 0), (0, 1), (1 / 2, 0), (0, 0)]" 2] by simp

end
