(* ===== verification/BpskDemodFacts.thy ===== *)
theory BpskDemodFacts
  imports BpskFft FloatFacts Transducer
begin

text \<open>
  The demodulator of \<open>demod_bpsk.c\<close> as a machine without its bit buffer: its invariant, that it always returns, the pace of
  its symbols, and that the soft bits reach the callback in order.
\<close>

section \<open>Phases\<close>

lemma pi_f_value: "pi_f = 13176795 / 4194304" "two_pi_f = 2 * pi_f" by (simp_all add: pi_f_def two_pi_f_def)

lemma round32_values [simp]: "round32 pi_f = pi_f" "round32 1 = 1" "round32 16 = 16" "round32 65536 = 65536"
    "round32 131072 = 131072" "round32 262144 = 262144" "round64 1 = 1"
  by code_simp+

lemma wrap_both:
  "- pi_f \<le> p \<Longrightarrow> p \<le> 200000 \<Longrightarrow> p \<le> pi_f + of_nat n * 6 \<Longrightarrow> \<exists>q. wrap_down p = Some q \<and> wrap_up (- p) = Some (- q) \<and> \<bar>q\<bar> \<le> pi_f"
proof (induction n arbitrary: p)
  case 0
  then show ?case by (intro exI [of _ p]) (subst wrap_down.simps, subst wrap_up.simps, simp add: abs_le_iff)
next
  case (Suc n)
  show ?case
  proof (cases "pi_f < p")
    case True
    let ?p = "round32 (p - two_pi_f)"
    have low: "- pi_f \<le> ?p" using round32_mono [of "- pi_f" "p - two_pi_f"] True by (simp add: round32_minus pi_f_value(2))
    have "?p \<le> max (p - 6) (1 / 2 ^ 60)"
    proof (cases "1 / 2 ^ 60 \<le> p - two_pi_f")
      case True
      have "(p - two_pi_f) * (1 + 1 / 10 ^ 6) \<le> p - 6" using Suc.prems(2) by (simp add: two_pi_f_def algebra_simps)
      with round32_relative(2) [OF True] have "?p \<le> p - 6" by linarith
      then show ?thesis by simp
    next
      case False
      then have "?p \<le> round32 (1 / 2 ^ 60)" by (intro round32_mono) simp
      also have "round32 (1 / 2 ^ 60) = 1 / 2 ^ 60" by code_simp
      finally show ?thesis by simp
    qed
    then have "?p \<le> 200000" "?p \<le> pi_f + of_nat n * 6" using Suc.prems(2,3) by (auto simp: pi_f_def max_def algebra_simps split: if_splits)
    then obtain q where "wrap_down ?p = Some q" "wrap_up (- ?p) = Some (- q)" "\<bar>q\<bar> \<le> pi_f"
      using Suc.IH [of ?p] low by auto
    moreover have "round32 (- p + two_pi_f) = - ?p" using round32_minus [of "p - two_pi_f"] by simp
    ultimately show ?thesis using True by (intro exI [of _ q]) (subst wrap_down.simps, subst wrap_up.simps, simp)
  next
    case False
    then show ?thesis using Suc.prems by (intro exI [of _ p]) (subst wrap_down.simps, subst wrap_up.simps, simp add: abs_le_iff)
  qed
qed

lemma wrap_phase_some:
  assumes "\<bar>p\<bar> \<le> 200000"
  shows "\<exists>q. wrap_phase p = Some q \<and> \<bar>q\<bar> \<le> pi_f"
proof -
  have b: "\<bar>p\<bar> \<le> pi_f + of_nat 40000 * 6" using assms by (simp add: pi_f_def)
  have in_range: "wrap_down q = Some q" "wrap_up q = Some q" if "\<bar>q\<bar> \<le> pi_f" for q
    using that by (simp_all add: wrap_down.simps [of q] wrap_up.simps [of q] abs_le_iff)
  consider "- pi_f \<le> p" | "- pi_f \<le> - p" "p < - pi_f" unfolding pi_f_def by linarith
  then show ?thesis
  proof cases
    case 1
    with wrap_both [of p 40000] assms b [unfolded abs_le_iff] obtain q where "wrap_down p = Some q" "\<bar>q\<bar> \<le> pi_f" by (auto simp: abs_le_iff)
    then show ?thesis by (simp add: wrap_phase_def in_range)
  next
    case 2
    with wrap_both [of "- p" 40000] assms b [unfolded abs_le_iff] obtain q where q: "wrap_up p = Some (- q)" "\<bar>q\<bar> \<le> pi_f" by (auto simp: abs_le_iff)
    have "wrap_down p = Some p" using 2(2) by (subst wrap_down.simps) (simp add: pi_f_def)
    then show ?thesis using q by (simp add: wrap_phase_def)
  qed
qed

section \<open>The invariant\<close>

definition params_ok :: "bpsk_demod \<Rightarrow> bool" where
  "params_ok d \<longleftrightarrow> 3 \<le> sps d \<and> sps d \<le> 20000 \<and> 0 \<le> nco_max d \<and> nco_max d \<le> 8 \<and> 0 \<le> agc_rate d \<and> agc_rate d \<le> 1 \<and>
     0 \<le> c_alpha d \<and> c_alpha d \<le> 1 \<and> 0 \<le> c_beta d \<and> c_beta d \<le> 1 / 256 \<and>
     0 \<le> tim_alpha d \<and> tim_alpha d \<le> 284 / 10000 * sps d \<and> round64 (tim_alpha d) = tim_alpha d \<and> 0 < ntaps d \<and> length (taps d) = ntaps d"

definition state_ok :: "bpsk_demod \<Rightarrow> bool" where
  "state_ok d \<longleftrightarrow> params_ok d \<and> \<bar>nco_phase d\<bar> \<le> pi_f \<and> length (acq_buf d) < ACQ_N \<and> length (acq_pwr d) = ACQ_N \<and>
     length (hist d) = 2 * ntaps d \<and> hpos d < ntaps d \<and> 0 \<le> agc_pwr d \<and> round32 (agc_pwr d) = agc_pwr d \<and>
     \<bar>rate_adj d\<bar> \<le> 51 / 10000 * sps d \<and> \<bar>cphase d\<bar> \<le> pi_f \<and> \<bar>cfreq d\<bar> \<le> 65536 \<and> 0 \<le> sym_mag d \<and>
     round32 (sym_mag d) = sym_mag d \<and> length (soft_bits d) \<le> SOFT_BIT_BUF"

definition demod_ok :: "bpsk_demod \<Rightarrow> bool" where
  "demod_ok d \<longleftrightarrow> state_ok d \<and> \<bar>nco_hz d\<bar> \<le> nco_max d \<and> 0 < t_next d \<and> t_next d \<le> 11 / 20 * sps d"

subsection \<open>Mixer, filter and frequency loop\<close>

lemma clamp_range: "0 \<le> limit \<Longrightarrow> \<bar>clamp limit v\<bar> \<le> limit"
  by (auto simp: clamp_def Let_def abs_le_iff)

lemma coarse_ok:
  assumes "state_ok (d\<lparr>acq_buf := []\<rparr>)" and "length (acq_buf d) = ACQ_N"
  shows "state_ok ((coarse_acquire m d)\<lparr>acq_buf := []\<rparr>)"
  using assms by (simp add: coarse_acquire_def Let_def split_beta state_ok_def params_ok_def)

lemma mixer_ok:
  assumes "state_ok d" and "\<bar>nco_hz d\<bar> \<le> nco_max d"
  shows "\<exists>d1 x. mixer_step m s d = Some (d1, x) \<and> state_ok d1 \<and> t_next d1 = t_next d \<and> sps d1 = sps d \<and>
    mid_strobe d1 = mid_strobe d \<and> soft_bits d1 = soft_bits d"
proof -
  have "\<bar>nco_phase d + nco_hz d\<bar> \<le> 16" using assms by (auto simp: state_ok_def params_ok_def pi_f_def)
  then have "\<bar>round32 (nco_phase d + nco_hz d)\<bar> \<le> 16"
    using round32_between [of "- 16" "nco_phase d + nco_hz d" 16] by (simp add: abs_le_iff round32_minus)
  then obtain ph where ph: "wrap_phase (round32 (nco_phase d + nco_hz d)) = Some ph" "\<bar>ph\<bar> \<le> pi_f"
    using wrap_phase_some [of "round32 (nco_phase d + nco_hz d)"] by auto
  define x where "x = unrotate m s (nco_phase d)"
  define d1 where "d1 = d\<lparr>nco_phase := ph, acq_buf := acq_buf d @ [cmul x x]\<rparr>"
  have e: "mixer_step m s d = Some (if length (acq_buf d1) = ACQ_N then (coarse_acquire m d1)\<lparr>acq_buf := []\<rparr> else d1, x)"
    by (simp add: mixer_step_def ph(1) Let_def x_def d1_def)
  have ok: "state_ok (d1\<lparr>acq_buf := []\<rparr>)" using assms(1) ph(2) by (simp add: d1_def state_ok_def params_ok_def ACQ_N_def)
  have "state_ok (if length (acq_buf d1) = ACQ_N then (coarse_acquire m d1)\<lparr>acq_buf := []\<rparr> else d1)"
  proof (cases "length (acq_buf d1) = ACQ_N")
    case True
    then show ?thesis using coarse_ok [OF ok True] by simp
  next
    case False
    then show ?thesis using assms(1) ok by (simp add: d1_def state_ok_def params_ok_def)
  qed
  then show ?thesis unfolding e by (simp add: d1_def coarse_acquire_def Let_def split_beta)
qed

lemma cpower_nonneg: "0 \<le> cpower x"
  by (simp add: cpower_def round32_nonneg)

text \<open>An average that moves by a part of the distance stays non-negative.\<close>

lemma average_nonneg:
  assumes "0 \<le> p" and "0 \<le> a" and "round32 a = a" and "0 \<le> r" and "r \<le> 1"
  shows "0 \<le> round32 (a + round32 (r * round32 (p - a)))"
proof -
  have "- a \<le> round32 (p - a)" using round32_mono [of "- a" "p - a"] assms(1,3) by (simp add: round32_minus)
  then have "r * (- a) \<le> r * round32 (p - a)" by (rule mult_left_mono) (rule assms(4))
  moreover have "- a \<le> r * (- a)" using mult_right_mono [OF assms(5,2)] by simp
  ultimately have "- a \<le> round32 (r * round32 (p - a))"
    using round32_mono [of "- a" "r * round32 (p - a)"] assms(3) by (simp add: round32_minus)
  then show ?thesis by (intro round32_nonneg) simp
qed

lemma filter_ok:
  assumes "state_ok d"
  shows "state_ok (fst (filter_step m x d))" and "t_next (fst (filter_step m x d)) = t_next d"
    and "sps (fst (filter_step m x d)) = sps d" and "mid_strobe (fst (filter_step m x d)) = mid_strobe d"
    and "soft_bits (fst (filter_step m x d)) = soft_bits d"
proof -
  define h where "h = (hist d)[hpos d := x, hpos d + ntaps d := x]"
  define k where "k = (if ntaps d \<le> hpos d + 1 then 0 else hpos d + 1)"
  define f where "f = fir_ccf (taps d) (take (ntaps d) (drop k h))"
  define pwr0 where "pwr0 = (if agc_pwr d = 0 then round32 (cpower f + round32 (1 / 10 ^ 20)) else agc_pwr d)"
  have e: "fst (filter_step m x d) = d\<lparr>hist := h, hpos := k, agc_pwr := round32 (pwr0 + round32 (agc_rate d * round32 (cpower f - pwr0)))\<rparr>"
    by (simp add: filter_step_def Let_def h_def k_def f_def pwr0_def)
  have "0 \<le> pwr0" "round32 pwr0 = pwr0"
    using assms cpower_nonneg [of f] by (auto simp: pwr0_def state_ok_def intro!: round32_nonneg add_nonneg_nonneg)
  then have "0 \<le> round32 (pwr0 + round32 (agc_rate d * round32 (cpower f - pwr0)))"
    using assms by (intro average_nonneg cpower_nonneg) (simp_all add: state_ok_def params_ok_def)
  then show "state_ok (fst (filter_step m x d))" unfolding e using assms by (simp add: state_ok_def params_ok_def k_def h_def)
qed (simp_all add: filter_step_def Let_def)

lemma fll_ok:
  assumes "state_ok d"
  shows "state_ok (fll_step m f d)" and "\<bar>nco_hz (fll_step m f d)\<bar> \<le> nco_max (fll_step m f d)" and "t_next (fll_step m f d) = t_next d"
    and "sps (fll_step m f d) = sps d" and "mid_strobe (fll_step m f d) = mid_strobe d" and "soft_bits (fll_step m f d) = soft_bits d"
  using assms clamp_range by (simp_all add: fll_step_def Let_def state_ok_def params_ok_def)

subsection \<open>Symbols\<close>

lemma more_values [simp]: "round32 (1 / 256) = 1 / 256" "round32 (16777217 / 256) = 65536" "round32 200000 = 200000"
    "0 \<le> round64 (1 / 200)" "0 \<le> round32 (1 / 100)" "round32 (1 / 100) \<le> 1"
  by code_simp+

lemma c0005_value: "round64 (1 / 200) \<le> 5000001 / 1000000000"
  by code_simp

lemma product_bound: "0 \<le> c \<Longrightarrow> c \<le> b \<Longrightarrow> \<bar>e\<bar> \<le> 1 \<Longrightarrow> \<bar>c * e\<bar> \<le> (b :: rat)"
proof -
  assume "0 \<le> c" "c \<le> b" "\<bar>e\<bar> \<le> 1"
  then have "c * \<bar>e\<bar> \<le> c * 1" by (intro mult_left_mono)
  then show ?thesis using \<open>0 \<le> c\<close> \<open>c \<le> b\<close> by (simp add: abs_mult)
qed

lemma max_adj_bound:
  assumes "params_ok d"
  shows "0 \<le> dmul (sps d) (round64 (5 / 1000))" and "dmul (sps d) (round64 (5 / 1000)) \<le> 51 / 10000 * sps d"
proof -
  have s: "3 \<le> sps d" "sps d \<le> 20000" using assms by (simp_all add: params_ok_def)
  then show "0 \<le> dmul (sps d) (round64 (5 / 1000))" by (intro round64_nonneg mult_nonneg_nonneg) simp_all
  have p: "sps d * round64 (1 / 200) \<le> sps d * (5000001 / 1000000000)" by (rule mult_left_mono [OF c0005_value]) (use s in simp)
  also have "\<dots> \<le> 51 / 10000 * sps d - 1 / 10000000" using s by simp
  finally have "sps d * round64 (1 / 200) \<le> 51 / 10000 * sps d - 1 / 10000000" .
  moreover have n: "0 \<le> sps d * round64 (1 / 200)" using s by simp
  moreover have "\<bar>sps d * round64 (1 / 200)\<bar> \<le> 40000" using p n s by linarith
  note round64_close [OF this]
  ultimately have "round64 (sps d * round64 (1 / 200)) \<le> 51 / 10000 * sps d" by linarith
  then show "dmul (sps d) (round64 (5 / 1000)) \<le> 51 / 10000 * sps d" by simp
qed

lemma timing_ok:
  assumes "state_ok d"
  shows "state_ok (timing_update y d)" and "\<exists>c. \<bar>c\<bar> \<le> tim_alpha d \<and> t_next (timing_update y d) = dadd (t_next d) c"
    and "sps (timing_update y d) = sps d" and "mid_strobe (timing_update y d) = mid_strobe d"
    and "soft_bits (timing_update y d) = soft_bits d" and "nco_hz (timing_update y d) = nco_hz d" and "nco_max (timing_update y d) = nco_max d"
proof -
  define e where "e = clamp 1 (fst (cmul (csub (prev_sym d) y) (conj_f (mid_sym d))))"
  have e: "\<bar>e\<bar> \<le> 1" unfolding e_def by (rule clamp_range) simp
  define max_adj where "max_adj = dmul (sps d) (round64 (5 / 1000))"
  have p: "params_ok d" using assms by (simp add: state_ok_def)
  have u: "timing_update y d = d\<lparr>prev_sym := y, rate_adj := clamp max_adj (dadd (rate_adj d) (dmul (tim_beta d) e)), t_next := dadd (t_next d) (dmul (tim_alpha d) e)\<rparr>"
    by (simp add: timing_update_def Let_def e_def max_adj_def)
  have "\<bar>clamp max_adj v\<bar> \<le> 51 / 10000 * sps d" for v
    using clamp_range [of max_adj v] max_adj_bound [OF p] by (simp add: max_adj_def)
  then show "state_ok (timing_update y d)" using assms by (simp add: u state_ok_def params_ok_def)
  have "\<bar>tim_alpha d * e\<bar> \<le> tim_alpha d" using product_bound [OF _ order_refl e] p by (simp add: params_ok_def)
  then have "\<bar>dmul (tim_alpha d) e\<bar> \<le> tim_alpha d" using p by (intro round64_abs) (simp_all add: params_ok_def)
  then show "\<exists>c. \<bar>c\<bar> \<le> tim_alpha d \<and> t_next (timing_update y d) = dadd (t_next d) c"
    by (intro exI [of _ "dmul (tim_alpha d) e"]) (simp add: u)
qed (simp_all add: timing_update_def Let_def)

lemma symbol_ok:
  assumes "state_ok d"
  shows "\<exists>d1 b. symbol_update m y d = Some (d1, b) \<and> state_ok d1 \<and> (\<exists>c. \<bar>c\<bar> \<le> tim_alpha d \<and> t_next d1 = dadd (t_next d) c) \<and>
    sps d1 = sps d \<and> mid_strobe d1 = mid_strobe d \<and> soft_bits d1 = soft_bits d \<and> nco_hz d1 = nco_hz d \<and> nco_max d1 = nco_max d"
proof -
  define d1 where "d1 = timing_update y d"
  note t = timing_ok [OF assms, of y, folded d1_def]
  define s where "s = unrotate m y (cphase d1)"
  define err where "err = clamp 1 (if 0 < fst s then snd s else - snd s)"
  have err: "\<bar>err\<bar> \<le> 1" unfolding err_def by (rule clamp_range) simp
  define freq1 where "freq1 = round32 (cfreq d1 + round32 (c_beta d1 * err))"
  have p: "params_ok d1" "\<bar>cfreq d1\<bar> \<le> 65536" "\<bar>cphase d1\<bar> \<le> pi_f" "0 \<le> sym_mag d1" "round32 (sym_mag d1) = sym_mag d1"
    using t(1) by (simp_all add: state_ok_def)
  have "\<bar>c_beta d1 * err\<bar> \<le> 1 / 256" using err p(1) by (intro product_bound) (simp_all add: params_ok_def)
  then have "\<bar>round32 (c_beta d1 * err)\<bar> \<le> 1 / 256" by (rule round32_abs) simp
  then have "\<bar>cfreq d1 + round32 (c_beta d1 * err)\<bar> \<le> 16777217 / 256" using p(2) by linarith
  then have f: "\<bar>freq1\<bar> \<le> 65536"
    using round32_mono [of "cfreq d1 + round32 (c_beta d1 * err)" "16777217 / 256"]
      round32_mono [of "- (16777217 / 256)" "cfreq d1 + round32 (c_beta d1 * err)"]
    unfolding freq1_def abs_le_iff round32_minus more_values by linarith
  have "\<bar>c_alpha d1 * err\<bar> \<le> 1" using err p(1) by (intro product_bound) (simp_all add: params_ok_def)
  then have a: "\<bar>round32 (c_alpha d1 * err)\<bar> \<le> 1" by (rule round32_abs) simp
  have "\<bar>cphase d1 + freq1\<bar> \<le> 131072" using f p(3) unfolding pi_f_def by linarith
  then have "\<bar>round32 (cphase d1 + freq1)\<bar> \<le> 131072" by (rule round32_abs) simp
  then have "\<bar>round32 (cphase d1 + freq1) + round32 (c_alpha d1 * err)\<bar> \<le> 200000" using a by linarith
  then have "\<bar>round32 (round32 (cphase d1 + freq1) + round32 (c_alpha d1 * err))\<bar> \<le> 200000" by (rule round32_abs) simp
  from wrap_phase_some [OF this] obtain phase1
    where ph: "wrap_phase (round32 (round32 (cphase d1 + freq1) + round32 (c_alpha d1 * err))) = Some phase1" "\<bar>phase1\<bar> \<le> pi_f" by auto
  define mag1 where "mag1 = round32 (sym_mag d1 + round32 (round32 (1 / 100) * round32 (\<bar>fst s\<bar> - sym_mag d1)))"
  have mag: "0 \<le> mag1" unfolding mag1_def using p(4,5) by (intro average_nonneg) simp_all
  have e: "\<exists>b. symbol_update m y d = Some (d1\<lparr>cfreq := freq1, cphase := phase1, sym_mag := mag1\<rparr>, b)"
    unfolding symbol_update_def Let_def d1_def [symmetric] s_def [symmetric] err_def [symmetric] freq1_def [symmetric] mag1_def [symmetric] ph(1)
    by simp
  have "state_ok (d1\<lparr>cfreq := freq1, cphase := phase1, sym_mag := mag1\<rparr>)"
    using t(1) f ph(2) mag by (simp add: state_ok_def params_ok_def mag1_def)
  with e t(2-) show ?thesis by auto
qed

subsection \<open>Strobes\<close>

definition half_symbol :: "bpsk_demod \<Rightarrow> rat" where
  "half_symbol d = ddiv (dadd (sps d) (rate_adj d)) 2"

lemma half_bounds:
  assumes "state_ok d"
  shows "497 / 1000 * sps d \<le> half_symbol d" and "half_symbol d \<le> 503 / 1000 * sps d"
proof -
  have s: "3 \<le> sps d" "sps d \<le> 20000" "\<bar>rate_adj d\<bar> \<le> 51 / 10000 * sps d" using assms by (simp_all add: state_ok_def params_ok_def)
  have "\<bar>sps d + rate_adj d\<bar> \<le> 40000" using s by linarith
  from round64_close [OF this] have a: "\<bar>dadd (sps d) (rate_adj d) - (sps d + rate_adj d)\<bar> \<le> 1 / 10000000" .
  then have "\<bar>dadd (sps d) (rate_adj d)\<bar> \<le> 80000" using s by linarith
  then have "\<bar>dadd (sps d) (rate_adj d) / 2\<bar> \<le> 40000" by simp
  from round64_close [OF this] a s have "497 / 1000 * sps d \<le> half_symbol d \<and> half_symbol d \<le> 503 / 1000 * sps d"
    unfolding half_symbol_def by linarith
  then show "497 / 1000 * sps d \<le> half_symbol d" "half_symbol d \<le> 503 / 1000 * sps d" by simp_all
qed

text \<open>The demodulator without its bit buffer, as a machine that now and then emits a soft bit.\<close>

definition demod_core :: "bpsk_libm \<Rightarrow> bpsk_demod \<Rightarrow> cf \<Rightarrow> bpsk_demod \<times> rat option" where
  "demod_core m d0 sample =
     (let (d1, x) = the (mixer_step m sample d0); (d2, f) = filter_step m x d1; d3 = fll_step m f d2;
          d4 = d3\<lparr>t_next := dsub (t_next d3) 1\<rparr>; y = interpolate f d4; d5 = advance_strobe d4
      in if 0 < t_next d4 then (d4\<lparr>prev_filt := f\<rparr>, None)
         else if mid_strobe d4 then (d5\<lparr>mid_sym := y, prev_filt := f\<rparr>, None)
         else (let (d6, b) = the (symbol_update m y d5) in (d6\<lparr>prev_filt := f\<rparr>, Some b)))"

definition emit :: "bpsk_demod \<times> rat option \<Rightarrow> bpsk_demod \<times> rat list list" where
  "emit r = (case snd r of None \<Rightarrow> (fst r, []) | Some b \<Rightarrow> store_bit b (fst r))"

text \<open>The earliest and the latest time to the next symbol, up to a constant.\<close>

definition early :: "bpsk_demod \<Rightarrow> rat" where
  "early d = t_next d + (if mid_strobe d then 497 / 1000 * sps d else 0)"

definition late :: "bpsk_demod \<Rightarrow> rat" where
  "late d = t_next d + (if mid_strobe d then 503 / 1000 * sps d else 0)"

definition bit_count :: "rat option \<Rightarrow> rat" where
  "bit_count r = (if r = None then 0 else 1)"

definition on_time :: "bpsk_demod \<Rightarrow> bpsk_demod \<Rightarrow> rat option \<Rightarrow> bool" where
  "on_time d d1 r \<longleftrightarrow> early d + bit_count r * (965 / 1000 * sps d) \<le> early d1 + 1 + 1 / 1000000 \<and>
     late d1 + 1 \<le> late d + bit_count r * (1035 / 1000 * sps d) + 1 / 1000000"

lemma state_ok_cong [simp]:
  "state_ok (d\<lparr>t_next := t\<rparr>) = state_ok d" "state_ok (d\<lparr>mid_strobe := b\<rparr>) = state_ok d" "state_ok (d\<lparr>mid_sym := y\<rparr>) = state_ok d"
  "state_ok (d\<lparr>prev_filt := f\<rparr>) = state_ok d"
  by (simp_all add: state_ok_def params_ok_def)

lemma advance_fields [simp]:
  "state_ok (advance_strobe d) = state_ok d" "sps (advance_strobe d) = sps d" "mid_strobe (advance_strobe d) = (\<not> mid_strobe d)"
  "soft_bits (advance_strobe d) = soft_bits d" "nco_hz (advance_strobe d) = nco_hz d" "nco_max (advance_strobe d) = nco_max d"
  "tim_alpha (advance_strobe d) = tim_alpha d" "t_next (advance_strobe d) = dadd (t_next d) (half_symbol d)"
  by (simp_all add: advance_strobe_def half_symbol_def state_ok_def params_ok_def)

lemma strobe_rest: "0 < t_next d \<Longrightarrow> strobe_loop m f d es = Some (d, es)"
  by (subst strobe_loop.simps) simp

lemma strobe_time:
  assumes "state_ok d" and "- 1 \<le> t_next d" and "t_next d \<le> 0"
  shows "t_next d + 497 / 1000 * sps d - 1 / 10000000 \<le> t_next (advance_strobe d)"
    and "t_next (advance_strobe d) \<le> t_next d + 503 / 1000 * sps d + 1 / 10000000"
proof -
  note h = half_bounds [OF assms(1)]
  have s: "3 \<le> sps d" "sps d \<le> 20000" using assms(1) by (simp_all add: state_ok_def params_ok_def)
  then have "\<bar>t_next d + half_symbol d\<bar> \<le> 40000" using h assms(2,3) by linarith
  from round64_close [OF this] h have "t_next d + 497 / 1000 * sps d - 1 / 10000000 \<le> round64 (t_next d + half_symbol d) \<and>
    round64 (t_next d + half_symbol d) \<le> t_next d + 503 / 1000 * sps d + 1 / 10000000" by linarith
  then show "t_next d + 497 / 1000 * sps d - 1 / 10000000 \<le> t_next (advance_strobe d)"
      "t_next (advance_strobe d) \<le> t_next d + 503 / 1000 * sps d + 1 / 10000000" by simp_all
qed

lemma symbol_time:
  assumes "state_ok d" and "- 1 \<le> t_next d" and "t_next d \<le> 0"
  shows "\<exists>d1 b. symbol_update m y (advance_strobe d) = Some (d1, b) \<and> state_ok d1 \<and> sps d1 = sps d \<and> mid_strobe d1 = (\<not> mid_strobe d) \<and>
    soft_bits d1 = soft_bits d \<and> nco_hz d1 = nco_hz d \<and> nco_max d1 = nco_max d \<and>
    t_next d + 4685 / 10000 * sps d - 2 / 10000000 \<le> t_next d1 \<and> t_next d1 \<le> t_next d + 5315 / 10000 * sps d + 2 / 10000000"
proof -
  have "state_ok (advance_strobe d)" using assms(1) by simp
  from symbol_ok [OF this, of m y] obtain d1 b c where u: "symbol_update m y (advance_strobe d) = Some (d1, b)" "state_ok d1"
    and c: "\<bar>c\<bar> \<le> tim_alpha d" "t_next d1 = dadd (t_next (advance_strobe d)) c"
    and f: "sps d1 = sps d" "mid_strobe d1 = (\<not> mid_strobe d)" "soft_bits d1 = soft_bits d" "nco_hz d1 = nco_hz d" "nco_max d1 = nco_max d"
    by auto
  have s: "3 \<le> sps d" "sps d \<le> 20000" "tim_alpha d \<le> 284 / 10000 * sps d" using assms(1) by (simp_all add: state_ok_def params_ok_def)
  note t = strobe_time [OF assms]
  then have "\<bar>t_next (advance_strobe d) + c\<bar> \<le> 40000" using c(1) s assms(2,3) by linarith
  from round64_close [OF this] t c(1) s have "t_next d + 4685 / 10000 * sps d - 2 / 10000000 \<le> round64 (t_next (advance_strobe d) + c) \<and>
    round64 (t_next (advance_strobe d) + c) \<le> t_next d + 5315 / 10000 * sps d + 2 / 10000000" by linarith
  with u f c(2) show ?thesis by simp
qed

lemma store_bit_fields [simp]:
  "t_next (fst (store_bit b d)) = t_next d" "prev_filt (fst (store_bit b d)) = prev_filt d" "mid_strobe (fst (store_bit b d)) = mid_strobe d"
  by (simp_all add: store_bit_def flush_bits_def Let_def)

lemma store_bit_prev_filt: "store_bit b (d\<lparr>prev_filt := f\<rparr>) = map_prod (\<lambda>d. d\<lparr>prev_filt := f\<rparr>) id (store_bit b d)"
  by (simp add: store_bit_def flush_bits_def Let_def)

lemma sample_step_core:
  assumes "demod_ok d"
  shows "sample_step m x d = Some (emit (demod_core m d x))" and "demod_ok (fst (demod_core m d x))"
    and "soft_bits (fst (demod_core m d x)) = soft_bits d" and "sps (fst (demod_core m d x)) = sps d"
    and "on_time d (fst (demod_core m d x)) (snd (demod_core m d x))"
proof -
  have d: "state_ok d" "\<bar>nco_hz d\<bar> \<le> nco_max d" "0 < t_next d" "t_next d \<le> 11 / 20 * sps d" using assms by (simp_all add: demod_ok_def)
  have s: "3 \<le> sps d" "sps d \<le> 20000" using d(1) by (simp_all add: state_ok_def params_ok_def)
  from mixer_ok [OF d(1,2), of m x] obtain d1 x1 where m1: "mixer_step m x d = Some (d1, x1)" "state_ok d1"
    and f1: "t_next d1 = t_next d" "sps d1 = sps d" "mid_strobe d1 = mid_strobe d" "soft_bits d1 = soft_bits d" by auto
  obtain d2 f where m2: "filter_step m x1 d1 = (d2, f)" by (cases "filter_step m x1 d1")
  note f2 = filter_ok [OF m1(2), of m x1, unfolded m2 fst_conv]
  define d3 where "d3 = fll_step m f d2"
  note f3 = fll_ok [OF f2(1), of m f, folded d3_def]
  define d4 where "d4 = d3\<lparr>t_next := dsub (t_next d3) 1\<rparr>"
  have f4: "state_ok d4" "\<bar>nco_hz d4\<bar> \<le> nco_max d4" "sps d4 = sps d" "mid_strobe d4 = mid_strobe d" "soft_bits d4 = soft_bits d"
    "t_next d4 = dsub (t_next d) 1" using f1 f2 f3 by (simp_all add: d4_def)
  have "- 1 \<le> round64 (t_next d - 1)" using round64_mono [of "- 1" "t_next d - 1"] d(3) by (simp add: round64_minus_eq)
  then have low: "- 1 \<le> t_next d4" using f4(6) by simp
  have "\<bar>t_next d - 1\<bar> \<le> 40000" using d(3,4) s by linarith
  from round64_close [OF this] have t4: "t_next d - 1 - 1 / 10000000 \<le> t_next d4" "t_next d4 \<le> t_next d - 1 + 1 / 10000000"
    unfolding f4(6) by linarith+
  have code: "sample_step m x d = (case strobe_loop m f d4 [] of None \<Rightarrow> None | Some (d5, es) \<Rightarrow> Some (d5\<lparr>prev_filt := f\<rparr>, es))"
    unfolding sample_step_def m1(1) option.case Let_def prod.case m2 d3_def [symmetric] d4_def [symmetric] by (rule refl)
  have core: "demod_core m d x =
      (if 0 < t_next d4 then (d4\<lparr>prev_filt := f\<rparr>, None)
       else if mid_strobe d4 then ((advance_strobe d4)\<lparr>mid_sym := interpolate f d4, prev_filt := f\<rparr>, None)
       else (let (d6, b) = the (symbol_update m (interpolate f d4) (advance_strobe d4)) in (d6\<lparr>prev_filt := f\<rparr>, Some b)))"
    unfolding demod_core_def m1(1) option.sel Let_def prod.case m2 d3_def [symmetric] d4_def [symmetric] by (rule refl)
  consider (rest) "0 < t_next d4" | (mid) "t_next d4 \<le> 0" "mid_strobe d4" | (symbol) "t_next d4 \<le> 0" "\<not> mid_strobe d4" by linarith
  then have "sample_step m x d = Some (emit (demod_core m d x)) \<and> demod_ok (fst (demod_core m d x)) \<and>
    soft_bits (fst (demod_core m d x)) = soft_bits d \<and> sps (fst (demod_core m d x)) = sps d \<and>
    on_time d (fst (demod_core m d x)) (snd (demod_core m d x))"
  proof cases
    case rest
    then have "demod_core m d x = (d4\<lparr>prev_filt := f\<rparr>, None)" by (simp add: core)
    then show ?thesis using rest f4 t4 d(4) strobe_rest [OF rest]
      by (simp add: code emit_def demod_ok_def on_time_def early_def late_def bit_count_def)
  next
    case mid
    note t = strobe_time [OF f4(1) low mid(1)]
    let ?d5 = "(advance_strobe d4)\<lparr>mid_sym := interpolate f d4\<rparr>"
    have pos: "0 < t_next ?d5" "t_next ?d5 \<le> 11 / 20 * sps d" using t low mid(1) s f4(3) by simp_all
    have "strobe_loop m f d4 [] = Some (?d5, [])"
      using mid strobe_rest [OF pos(1)] by (subst strobe_loop.simps) (simp add: Let_def)
    moreover have "demod_core m d x = (?d5\<lparr>prev_filt := f\<rparr>, None)" using mid by (simp add: core)
    ultimately show ?thesis using mid(2) f4 t4 pos t
      by (simp add: code emit_def demod_ok_def on_time_def early_def late_def bit_count_def)
  next
    case symbol
    from symbol_time [OF f4(1) low symbol(1), of m "interpolate f d4"] obtain d6 b
      where u: "symbol_update m (interpolate f d4) (advance_strobe d4) = Some (d6, b)" "state_ok d6"
        and f6: "sps d6 = sps d" "mid_strobe d6" "soft_bits d6 = soft_bits d" "nco_hz d6 = nco_hz d4" "nco_max d6 = nco_max d4"
        and t: "t_next d4 + 4685 / 10000 * sps d - 2 / 10000000 \<le> t_next d6" "t_next d6 \<le> t_next d4 + 5315 / 10000 * sps d + 2 / 10000000"
      using f4 symbol(2) by auto
    have pos: "0 < t_next d6" "t_next d6 \<le> 11 / 20 * sps d" using t low symbol(1) s by linarith+
    have "strobe_loop m f d4 [] = Some (store_bit b d6)"
      using symbol u(1) pos(1) by (subst strobe_loop.simps) (simp add: Let_def symbol_out_def split_beta strobe_rest)
    moreover have c: "demod_core m d x = (d6\<lparr>prev_filt := f\<rparr>, Some b)" using symbol u(1) by (simp add: core)
    ultimately show ?thesis using symbol(2) f4 t4 pos t u(2) f6
      by (simp add: code emit_def demod_ok_def on_time_def early_def late_def bit_count_def store_bit_prev_filt split_beta prod_eq_iff)
  qed
  then show "sample_step m x d = Some (emit (demod_core m d x))" "demod_ok (fst (demod_core m d x))"
    "soft_bits (fst (demod_core m d x)) = soft_bits d" "sps (fst (demod_core m d x)) = sps d"
    "on_time d (fst (demod_core m d x)) (snd (demod_core m d x))" by simp_all
qed

section \<open>Runs\<close>

abbreviation with_bits :: "rat list \<Rightarrow> bpsk_demod \<Rightarrow> bpsk_demod" where
  "with_bits b d \<equiv> d\<lparr>soft_bits := b\<rparr>"

text \<open>The bit buffer has no influence on anything else.\<close>

lemma coarse_bits: "coarse_acquire m ((with_bits b d)\<lparr>nco_phase := ph, acq_buf := bs\<rparr>) = with_bits b (coarse_acquire m (d\<lparr>nco_phase := ph, acq_buf := bs\<rparr>))"
  by (simp add: coarse_acquire_def Let_def split_beta)

lemma mixer_bits: "mixer_step m x (with_bits b d) = map_option (map_prod (with_bits b) id) (mixer_step m x d)"
  by (simp add: mixer_step_def Let_def coarse_bits split: option.split)

lemma filter_bits: "filter_step m x (with_bits b d) = map_prod (with_bits b) id (filter_step m x d)"
  by (simp add: filter_step_def Let_def)

lemma fll_bits: "fll_step m f (with_bits b d) = with_bits b (fll_step m f d)"
  by (simp add: fll_step_def Let_def)

lemma symbol_bits: "symbol_update m y (with_bits b d) = map_option (map_prod (with_bits b) id) (symbol_update m y d)"
  by (simp add: symbol_update_def timing_update_def Let_def split: option.split)

lemma core_bits:
  assumes "demod_ok d"
  shows "demod_core m (with_bits b d) x = map_prod (with_bits b) id (demod_core m d x)"
proof -
  have d: "state_ok d" "\<bar>nco_hz d\<bar> \<le> nco_max d" "0 < t_next d" "t_next d \<le> 11 / 20 * sps d" using assms by (simp_all add: demod_ok_def)
  from mixer_ok [OF d(1,2), of m x] obtain d1 x1 where m1: "mixer_step m x d = Some (d1, x1)" "state_ok d1" "t_next d1 = t_next d" by auto
  obtain d2 f where m2: "filter_step m x1 d1 = (d2, f)" by (cases "filter_step m x1 d1")
  note f2 = filter_ok [OF m1(2), of m x1, unfolded m2 fst_conv]
  define d3 where "d3 = fll_step m f d2"
  note f3 = fll_ok [OF f2(1), of m f, folded d3_def]
  define d4 where "d4 = d3\<lparr>t_next := dsub (t_next d3) 1\<rparr>"
  have ok: "state_ok (advance_strobe d4)" using f3(1) by (simp add: d4_def)
  then obtain d6 c where u: "symbol_update m (interpolate f d4) (advance_strobe d4) = Some (d6, c)" using symbol_ok by blast
  have b4: "interpolate f (with_bits b d4) = interpolate f d4" "advance_strobe (with_bits b d4) = with_bits b (advance_strobe d4)"
    by (simp_all add: interpolate_def advance_strobe_def)
  have core: "demod_core m d x =
      (if 0 < t_next d4 then (d4\<lparr>prev_filt := f\<rparr>, None)
       else if mid_strobe d4 then ((advance_strobe d4)\<lparr>mid_sym := interpolate f d4, prev_filt := f\<rparr>, None)
       else (d6\<lparr>prev_filt := f\<rparr>, Some c))"
    unfolding demod_core_def m1(1) option.sel Let_def prod.case m2 d3_def [symmetric] d4_def [symmetric] u by (rule refl)
  have b3: "(with_bits b d3)\<lparr>t_next := dsub (t_next (with_bits b d3)) 1\<rparr> = with_bits b d4" by (simp add: d4_def)
  have "demod_core m (with_bits b d) x =
      (if 0 < t_next d4 then ((with_bits b d4)\<lparr>prev_filt := f\<rparr>, None)
       else if mid_strobe d4 then ((with_bits b (advance_strobe d4))\<lparr>mid_sym := interpolate f d4, prev_filt := f\<rparr>, None)
       else ((with_bits b d6)\<lparr>prev_filt := f\<rparr>, Some c))"
    unfolding demod_core_def mixer_bits m1(1) option.map option.sel Let_def map_prod_simp prod.case filter_bits m2 id_apply fll_bits d3_def [symmetric]
      b3 b4 symbol_bits u by simp
  then show ?thesis by (simp add: core)
qed

lemma demod_ok_bits: "demod_ok d \<Longrightarrow> length b \<le> SOFT_BIT_BUF \<Longrightarrow> demod_ok (with_bits b d)"
  by (simp add: demod_ok_def state_ok_def params_ok_def)

lemma demod_run_ok: "demod_ok d \<Longrightarrow> demod_ok (fst (run (demod_core m) d xs)) \<and> sps (fst (run (demod_core m) d xs)) = sps d"
  by (induction xs arbitrary: d) (simp_all add: Let_def split_beta sample_step_core)

lemma run_bits:
  "demod_ok d \<Longrightarrow> length b \<le> SOFT_BIT_BUF \<Longrightarrow> run (demod_core m) (with_bits b d) xs = map_prod (with_bits b) id (run (demod_core m) d xs)"
proof (induction xs arbitrary: d)
  case (Cons x xs)
  have "run (demod_core m) (with_bits b (fst (demod_core m d x))) xs = map_prod (with_bits b) id (run (demod_core m) (fst (demod_core m d x)) xs)"
    using Cons.IH [OF sample_step_core(2) [OF Cons.prems(1)]] Cons.prems(2) by blast
  then show ?case by (cases "snd (demod_core m d x)") (simp_all add: Let_def split_beta core_bits [OF Cons.prems(1)] prod_eq_iff)
qed simp

text \<open>
  The lists of soft bits given away: none is empty or longer than the buffer, and together with the buffer they are
  what the machine emitted.
\<close>

definition bits_kept :: "bpsk_libm \<Rightarrow> bpsk_demod \<Rightarrow> cf list \<Rightarrow> bpsk_demod \<times> rat list list \<Rightarrow> bool" where
  "bits_kept m d xs = (\<lambda>(d1, es). demod_ok d1 \<and> d1 = with_bits (soft_bits d1) (fst (run (demod_core m) d xs)) \<and>
     concat es @ soft_bits d1 = soft_bits d @ snd (run (demod_core m) d xs) \<and> (\<forall>e \<in> set es. e \<noteq> [] \<and> length e \<le> SOFT_BIT_BUF))"

lemma bits_kept_append:
  assumes "demod_ok d" and "bits_kept m d xs (d1, es)" and "bits_kept m d1 ys (d2, fs)"
  shows "bits_kept m d (xs @ ys) (d2, es @ fs)"
proof -
  let ?d = "fst (run (demod_core m) d xs)"
  have ok: "demod_ok ?d" using demod_run_ok [OF assms(1)] by blast
  have d1: "d1 = with_bits (soft_bits d1) ?d" "length (soft_bits d1) \<le> SOFT_BIT_BUF"
    using assms(2) by (simp_all add: bits_kept_def demod_ok_def state_ok_def)
  then have r: "run (demod_core m) d1 ys = map_prod (with_bits (soft_bits d1)) id (run (demod_core m) ?d ys)"
    using run_bits [OF ok d1(2), of m ys] by metis
  have "d2 = with_bits (soft_bits d2) (fst (run (demod_core m) d1 ys))" using assms(3) by (simp add: bits_kept_def)
  then have d2: "d2 = with_bits (soft_bits d2) (fst (run (demod_core m) ?d ys))" by (simp add: r)
  have "concat fs @ soft_bits d2 = soft_bits d1 @ snd (run (demod_core m) ?d ys)" using assms(3) by (simp add: bits_kept_def r)
  moreover have "concat es @ soft_bits d1 = soft_bits d @ snd (run (demod_core m) d xs)" using assms(2) by (simp add: bits_kept_def)
  ultimately have "concat (es @ fs) @ soft_bits d2 = soft_bits d @ snd (run (demod_core m) d (xs @ ys))"
    by (simp add: run_append_snd)
  then show ?thesis using assms(2,3) d2 unfolding bits_kept_def by (auto simp: run_append_fst)
qed

lemma store_bit_kept: "bits_kept m d [x] (emit (demod_core m d x))" if d: "demod_ok d"
proof -
  note c = sample_step_core [OF d, of m x]
  obtain d1 r where r: "demod_core m d x = (d1, r)" by fastforce
  have d1: "demod_ok d1" "soft_bits d1 = soft_bits d" using c(2,3) by (simp_all add: r)
  have l: "length (soft_bits d) \<le> SOFT_BIT_BUF" using d by (simp add: demod_ok_def state_ok_def)
  show ?thesis
  proof (cases r)
    case None
    then show ?thesis using d1 by (simp add: emit_def r bits_kept_def)
  next
    case (Some b)
    then show ?thesis using d1 l demod_ok_bits [OF d1(1)]
      by (auto simp: emit_def r bits_kept_def store_bit_def flush_bits_def Let_def SOFT_BIT_BUF_def)
  qed
qed

lemma bits_kept_Nil: "demod_ok d \<Longrightarrow> bits_kept m d [] (d, [])"
  by (simp add: bits_kept_def)

lemma samples_kept: "demod_ok d \<Longrightarrow> \<exists>r. samples_loop m xs d = Some r \<and> bits_kept m d xs r"
proof (induction xs arbitrary: d)
  case Nil
  then show ?case by (simp add: bits_kept_Nil)
next
  case (Cons x xs)
  obtain d1 es where e: "emit (demod_core m d x) = (d1, es)" by fastforce
  have k: "bits_kept m d [x] (d1, es)" using store_bit_kept [OF Cons.prems, of m x] by (simp add: e)
  then have "demod_ok d1" by (simp add: bits_kept_def)
  from Cons.IH [OF this] obtain d2 fs where "samples_loop m xs d1 = Some (d2, fs)" "bits_kept m d1 xs (d2, fs)" by auto
  then show ?case using bits_kept_append [OF Cons.prems k] sample_step_core(1) [OF Cons.prems, of m x] by (simp add: e)
qed

lemma flush_kept:
  assumes "demod_ok d" and "soft_bits d \<noteq> []"
  shows "bits_kept m d [] (flush_bits d)"
proof -
  have "length (soft_bits d) \<le> SOFT_BIT_BUF" using assms(1) by (simp add: demod_ok_def state_ok_def)
  then show ?thesis using assms demod_ok_bits [OF assms(1), of "[]"] by (simp add: bits_kept_def flush_bits_def)
qed

lemma process_kept:
  assumes "demod_ok d"
  shows "\<exists>d1 es. bpsk_demod_process m xs d = Some (d1, es) \<and> bits_kept m d xs (d1, es) \<and> length (soft_bits d1) < 256"
proof -
  obtain d1 es where s: "samples_loop m xs d = Some (d1, es)" "bits_kept m d xs (d1, es)" using samples_kept [OF assms] by fastforce
  show ?thesis
  proof (cases "SOFT_BIT_BUF div 2 \<le> length (soft_bits d1)")
    case True
    then have "soft_bits d1 \<noteq> []" by (auto simp: SOFT_BIT_BUF_def)
    then have "bits_kept m d1 [] (flush_bits d1)" using s(2) by (intro flush_kept) (simp_all add: bits_kept_def)
    then show ?thesis using True s(1) bits_kept_append [OF assms s(2), of "[]"]
      by (simp add: bpsk_demod_process_def Let_def split_beta flush_bits_def)
  next
    case False
    then show ?thesis using s by (simp add: bpsk_demod_process_def SOFT_BIT_BUF_def)
  qed
qed

section \<open>The pace of the symbols\<close>

lemma run_pace:
  "demod_ok d \<Longrightarrow>
    early d + of_nat (length (snd (run (demod_core m) d xs))) * (965 / 1000 * sps d) \<le>
      early (fst (run (demod_core m) d xs)) + of_nat (length xs) * (1 + 1 / 1000000) \<and>
    late (fst (run (demod_core m) d xs)) + of_nat (length xs) \<le>
      late d + of_nat (length (snd (run (demod_core m) d xs))) * (1035 / 1000 * sps d) + of_nat (length xs) * (1 / 1000000)"
proof (induction xs arbitrary: d)
  case (Cons x xs)
  note c = sample_step_core [OF Cons.prems, of m x]
  let ?d = "fst (demod_core m d x)" and ?r = "snd (demod_core m d x)"
  have len: "(of_nat (length (snd (run (demod_core m) d (x # xs)))) :: rat) = bit_count ?r + of_nat (length (snd (run (demod_core m) ?d xs)))"
    by (simp add: Let_def split_beta bit_count_def split: option.split)
  have f: "fst (run (demod_core m) d (x # xs)) = fst (run (demod_core m) ?d xs)" by (simp add: Let_def split_beta)
  have n: "(of_nat (length (x # xs)) :: rat) = 1 + of_nat (length xs)" by simp
  note t = c(5) [unfolded on_time_def] and ih = Cons.IH [OF c(2), unfolded c(4)]
  show ?case unfolding len f n distrib_right
  proof (intro conjI)
    let ?k = "(of_nat (length (snd (run (demod_core m) ?d xs))) :: rat)" and ?n = "(of_nat (length xs) :: rat)"
    have "early d + (bit_count ?r * (965 / 1000 * sps d) + ?k * (965 / 1000 * sps d)) \<le> early ?d + ?k * (965 / 1000 * sps d) + (1 + 1 / 1000000)"
      using t [THEN conjunct1] by simp
    with ih [THEN conjunct1] show "early d + (bit_count ?r * (965 / 1000 * sps d) + ?k * (965 / 1000 * sps d)) \<le>
      early (fst (run (demod_core m) ?d xs)) + (1 * (1 + 1 / 1000000) + ?n * (1 + 1 / 1000000))" by simp
    have "late ?d + 1 + ?k * (1035 / 1000 * sps d) \<le> late d + (bit_count ?r * (1035 / 1000 * sps d) + ?k * (1035 / 1000 * sps d)) + 1 / 1000000"
      using t [THEN conjunct2] by simp
    with ih [THEN conjunct2] show "late (fst (run (demod_core m) ?d xs)) + (1 + ?n) \<le>
      late d + (bit_count ?r * (1035 / 1000 * sps d) + ?k * (1035 / 1000 * sps d)) + (1 * (1 / 1000000) + ?n * (1 / 1000000))" by simp
  qed
qed simp

section \<open>The set-up\<close>

lemma loop_gains_bounds:
  assumes "0 \<le> bw" and "bw \<le> 4 / 100" and "loop_gains bw = (a, b)"
  shows "0 \<le> a" and "a \<le> 2829 / 1000 * bw + 1 / 1000000" and "0 \<le> b" and "b \<le> 4 * (bw * bw) + 1 / 1000000"
proof -
  define zeta where "zeta = round64 (707 / 1000)"
  have z: "0 \<le> zeta" "zeta \<le> 7071 / 10000" unfolding zeta_def by code_simp+
  have step: "0 \<le> round64 x" "round64 x \<le> x + 1 / 10000000" if "0 \<le> x" "x \<le> 4" for x
  proof -
    have "\<bar>x\<bar> \<le> 40000" using that by simp
    from round64_close [OF this] show "0 \<le> round64 x" "round64 x \<le> x + 1 / 10000000" using round64_nonneg [OF that(1)] by linarith+
  qed
  define denom where "denom = dadd (dadd 1 (dmul (dmul 2 zeta) bw)) (dmul bw bw)"
  have bb: "bw * bw \<le> 4 / 100 * (4 / 100)" using assms(1,2) by (intro mult_mono) simp_all
  have two: "0 \<le> dmul 2 zeta" using z by (intro round64_nonneg) simp
  then have "1 \<le> dadd 1 (dmul (dmul 2 zeta) bw)"
    using round64_mono [of 1 "1 + dmul (dmul 2 zeta) bw"] round64_nonneg [of "dmul 2 zeta * bw"] assms(1) by simp
  then have den: "1 \<le> denom"
    using round64_mono [of 1 "dadd 1 (dmul (dmul 2 zeta) bw) + dmul bw bw"] round64_nonneg [of "bw * bw"] by (simp add: denom_def)
  have quot: "0 \<le> ddiv x denom" "ddiv x denom \<le> x + 1 / 10000000" if x: "0 \<le> x" "x \<le> 4" for x
  proof -
    have q: "0 \<le> x / denom" "x / denom \<le> x" using mult_left_mono [OF den x(1)] den x(1) by (simp_all add: divide_le_eq)
    then show "0 \<le> ddiv x denom" "ddiv x denom \<le> x + 1 / 10000000" using step [of "x / denom"] x(2) by linarith+
  qed
  have g: "a = ddiv (dmul (dmul 4 zeta) bw) denom" "b = ddiv (dmul (dmul 4 bw) bw) denom"
    using assms(3) by (simp_all add: loop_gains_def Let_def zeta_def denom_def)
  have f: "0 \<le> dmul 4 zeta" "dmul 4 zeta \<le> 28285 / 10000" using step [of "4 * zeta"] z by linarith+
  have fb: "0 \<le> dmul 4 zeta * bw" "dmul 4 zeta * bw \<le> 28285 / 10000 * bw" using mult_right_mono [OF f(2) assms(1)] f assms(1) by simp_all
  then have h: "0 \<le> dmul (dmul 4 zeta) bw" "dmul (dmul 4 zeta) bw \<le> 28285 / 10000 * bw + 1 / 10000000"
    using step [of "dmul 4 zeta * bw"] assms(2) by linarith+
  show "0 \<le> a" "a \<le> 2829 / 1000 * bw + 1 / 1000000"
    unfolding g(1) using quot [of "dmul (dmul 4 zeta) bw"] h assms(1,2) by linarith+
  have k: "0 \<le> dmul 4 bw" "dmul 4 bw \<le> 4 * bw + 1 / 10000000" using step [of "4 * bw"] assms(1,2) by linarith+
  have kb: "0 \<le> dmul 4 bw * bw" "dmul 4 bw * bw \<le> 4 * (bw * bw) + 1 / 10000000"
    using mult_right_mono [OF k(2) assms(1)] k(1) assms(1,2) by (simp_all add: algebra_simps)
  then have l: "0 \<le> dmul (dmul 4 bw) bw" "dmul (dmul 4 bw) bw \<le> 4 * (bw * bw) + 2 / 10000000"
    using step [of "dmul 4 bw * bw"] bb by linarith+
  show "0 \<le> b" "b \<le> 4 * (bw * bw) + 1 / 1000000"
    unfolding g(2) using quot [of "dmul (dmul 4 bw) bw"] l bb by linarith+
qed

lemma bandwidths: "0 \<le> TIMING_BW" "TIMING_BW \<le> 10001 / 1000000" "0 \<le> COSTAS_BW" "COSTAS_BW \<le> 30001 / 1000000"
  by code_simp+

lemma nco_max_value: "dmul (dmul 2 M_PI) FLL_MAX_HZ \<le> 18850" "0 \<le> dmul (dmul 2 M_PI) FLL_MAX_HZ" "0 \<le> AGC_RATE" "AGC_RATE \<le> 1"
  by code_simp+

lemma set_up_values [simp]: "round64 3 = 3" "round64 16667 = 16667" "round64 6 = 6" "round32 6 = 6"
  by code_simp+

lemma sps_range:
  assumes "3600 \<le> fs" and "fs \<le> 20000000"
  shows "3 \<le> ddiv fs 1200" and "ddiv fs 1200 \<le> 16667"
  using round64_between [of 3 "fs / 1200" 16667] assms by simp_all

lemma bpsk_demod_create_ok:
  assumes "3600 \<le> fs" and "fs \<le> 20000000"
  shows "demod_ok (bpsk_demod_create m fs 1200)"
proof -
  let ?s = "ddiv fs 1200" and ?c = "dmul (dmul 2 M_PI) FLL_MAX_HZ"
  note s = sps_range [OF assms]
  have "?c / fs \<le> 6" using nco_max_value(1) assms(1) by (simp add: divide_le_eq)
  then have "ddiv ?c fs \<le> 6" using round64_mono [of "?c / fs" 6] by simp
  then have nco: "round32 (ddiv ?c fs) \<le> 8" using round32_mono [of "ddiv ?c fs" 6] by simp
  have nco0: "0 \<le> round32 (ddiv ?c fs)" 
    by (rule round32_nonneg, rule round64_nonneg, rule divide_nonneg_nonneg) (use nco_max_value(2) assms(1) in simp_all)
  have "AGC_RATE / ?s \<le> 1" using nco_max_value(4) s(1) by (simp add: divide_le_eq)
  then have "ddiv AGC_RATE ?s \<le> 1" using round64_mono [of "AGC_RATE / ?s" 1] by simp
  then have agc: "round32 (ddiv AGC_RATE ?s) \<le> 1" using round32_mono [of "ddiv AGC_RATE ?s" 1] by simp
  have agc0: "0 \<le> round32 (ddiv AGC_RATE ?s)" using nco_max_value(3) assms(1) by (intro round32_nonneg round64_nonneg divide_nonneg_nonneg) simp_all
  obtain ta tb where tg: "loop_gains TIMING_BW = (ta, tb)" by fastforce
  have tab: "0 \<le> ta" "ta \<le> 2830 / 100000" using loop_gains_bounds [OF _ _ tg] bandwidths by simp_all
  have "ta * ?s \<le> 2830 / 100000 * ?s" using tab(2) s(1) by (intro mult_right_mono) simp_all
  moreover have "0 \<le> ta * ?s" using tab(1) s(1) by simp
  moreover from calculation have "\<bar>ta * ?s\<bar> \<le> 40000" using s by linarith
  note round64_close [OF this]
  ultimately have ta: "dmul ta ?s \<le> 284 / 10000 * ?s" "0 \<le> dmul ta ?s" using round64_nonneg [of "ta * ?s"] s by linarith+
  obtain ca cb where cg: "loop_gains COSTAS_BW = (ca, cb)" by fastforce
  have "COSTAS_BW * COSTAS_BW \<le> 30001 / 1000000 * (30001 / 1000000)" using bandwidths by (intro mult_mono) simp_all
  then have cab: "0 \<le> ca" "ca \<le> 1" "0 \<le> cb" "cb \<le> 1 / 256" using loop_gains_bounds [OF _ _ cg] bandwidths by simp_all
  then have c: "0 \<le> round32 ca" "round32 ca \<le> 1" "0 \<le> round32 cb" "round32 cb \<le> 1 / 256"
    using round32_mono [of ca 1] round32_mono [of cb "1 / 256"] by (simp_all add: round32_nonneg)
  have half: "\<bar>?s / 2\<bar> \<le> 40000" using s by simp
  from round64_close [OF this] have t: "0 < ddiv ?s 2" "ddiv ?s 2 \<le> 11 / 20 * ?s" using s by linarith+
  show ?thesis
    using s nco nco0 agc agc0 ta t c
    by (simp add: bpsk_demod_create_def Let_def tg cg demod_ok_def state_ok_def params_ok_def rrc_taps_def ACQ_N_def pi_f_def)
qed

text \<open>What is divided by in the gain control and in the scaling of the soft bits is positive.\<close>

lemma denominators_positive:
  assumes "state_ok d"
  shows "0 < round32 (agc_pwr d + round32 (1 / 10 ^ 20))" and "0 < round32 (sym_mag d + round32 (1 / 10 ^ 12))"
proof -
  have p: "0 < round32 (1 / 10 ^ 20)" "0 < round32 (1 / 10 ^ 12)" by code_simp+
  have "round32 (1 / 10 ^ 20) \<le> agc_pwr d + round32 (1 / 10 ^ 20)" "round32 (1 / 10 ^ 12) \<le> sym_mag d + round32 (1 / 10 ^ 12)"
    using assms by (simp_all add: state_ok_def)
  from this [THEN round32_mono] p show "0 < round32 (agc_pwr d + round32 (1 / 10 ^ 20))" "0 < round32 (sym_mag d + round32 (1 / 10 ^ 12))"
    unfolding round32_idem by linarith+
qed

section \<open>Properties\<close>



end
