(* ===== verification/StdcFrameFacts.thy ===== *)
theory StdcFrameFacts
  imports StdcFrame
begin

text \<open>
  Facts on the frame layer: the interleaver, row permutation and scrambler as permutations and involutions,
  the sync word found in either polarity, the block-code interface between the frame layer and the Viterbi
  decoder, the path of a frame from received symbols to handled packets, and the decoder's state invariant.
\<close>

unbundle bit_operations_syntax

section \<open>Loops that write an array\<close>

lemma fold_product:
  "fold (\<lambda>a. fold (F a) bs) as s = fold (\<lambda>ab. F (fst ab) (snd ab)) (List.product as bs) s"
  by (induction as arbitrary: s) (simp_all add: fold_map comp_def)

lemma length_fold_writes [simp]: "length (fold (\<lambda>k xs. xs[f k := g k xs]) ks xs) = length xs"
  by (induction ks arbitrary: xs) simp_all

lemma fold_writes_other:
  "i \<notin> f ` set ks \<Longrightarrow> fold (\<lambda>k xs. xs[f k := g k xs]) ks xs ! i = xs ! i"
  by (induction ks arbitrary: xs) auto

lemma fold_writes_at:
  assumes "inj_on f (set ks)" "distinct ks" "k \<in> set ks" "f k < length xs"
    and g: "\<And>k xs ys. xs ! f k = ys ! f k \<Longrightarrow> g k xs = g k ys"
  shows "fold (\<lambda>k xs. xs[f k := g k xs]) ks xs ! f k = g k xs"
  using assms(1-4)
proof (induction ks arbitrary: xs)
  case (Cons a ks)
  show ?case
  proof (cases "k = a")
    case True
    then have "f k \<notin> f ` set ks" using Cons.prems by auto
    then show ?thesis using True Cons.prems(4) by (simp add: fold_writes_other)
  next
    case False
    then have ne: "f a \<noteq> f k" using Cons.prems(1,3) by (auto dest: inj_onD)
    have "fold (\<lambda>k xs. xs[f k := g k xs]) ks (xs[f a := g a xs]) ! f k = g k (xs[f a := g a xs])"
      using Cons.prems False by (intro Cons.IH) auto
    also have "\<dots> = g k xs" by (rule g) (simp add: ne)
    finally show ?thesis by simp
  qed
qed simp

lemma distinct_product_upt: "distinct (List.product [0..<m] [0..<n])"
  by (simp add: distinct_product)

section \<open>The permutations\<close>

lemma length_deinterleave [simp]: "length (deinterleave inp out) = length out"
  unfolding deinterleave_def fold_product
  by (rule length_fold_update) simp

lemma deinterleave_nth:
  assumes "length out = 10240" "k < 10240"
  shows "deinterleave inp out ! k = inp ! (k mod 64 * 162 + k div 64 + 2)"
proof -
  let ?f = "\<lambda>rc. snd rc * 64 + fst rc" and ?g = "\<lambda>rc xs. inp ! (fst rc * 162 + snd rc + 2)"
  let ?ks = "List.product [0..<64] [0..<160::nat]"
  have "inj_on ?f (set ?ks)"
  proof (rule inj_onI)
    fix x y :: "nat \<times> nat" assume m: "x \<in> set ?ks" "y \<in> set ?ks" and e: "?f x = ?f y"
    then have "fst x < 64" "fst y < 64" by auto
    then have "?f x mod 64 = fst x" "?f y mod 64 = fst y" "?f x div 64 = snd x" "?f y div 64 = snd y" by simp_all
    with e show "x = y" by (metis prod.expand)
  qed
  moreover have k: "?f (k mod 64, k div 64) = k" by simp
  moreover have "(k mod 64, k div 64) \<in> set ?ks" using assms(2) by (simp add: less_mult_imp_div_less)
  ultimately have "fold (\<lambda>rc xs. xs[?f rc := ?g rc xs]) ?ks out ! ?f (k mod 64, k div 64) =
      ?g (k mod 64, k div 64) out"
    using assms by (intro fold_writes_at distinct_product_upt) (simp_all only: k)
  then show ?thesis unfolding deinterleave_def fold_product k by (simp add: split_beta)
qed

lemma depermute_nth:
  assumes "length inp = 10368" "r < 64" "c < 162"
  shows "depermute inp ! (r * 162 + c) = inp ! (r * 23 mod 64 * 162 + c)"
proof -
  have len: "length (take 162 (drop (i * 23 mod 64 * 162) inp)) = 162" for i
  proof -
    have "i * 23 mod 64 \<le> 63" using mod_less_divisor [of 64 "i * 23"] by linarith
    then have "i * 23 mod 64 * 162 + 162 \<le> length inp" using assms(1) by linarith
    then show ?thesis by simp
  qed
  have "depermute inp ! (r * 162 + c) = map (\<lambda>i. take 162 (drop (i * 23 mod 64 * 162) inp)) [0..<64] ! r ! c"
    unfolding depermute_def by (rule nth_concat_const) (use assms len in auto)
  with assms len [of r] show ?thesis by simp
qed

lemma length_depermute: "length inp = 10368 \<Longrightarrow> length (depermute inp) = 10368"
proof -
  assume l: "length inp = 10368"
  have "length (take 162 (drop (i * 23 mod 64 * 162) inp)) = 162" for i
  proof -
    have "i * 23 mod 64 \<le> 63" using mod_less_divisor [of 64 "i * 23"] by linarith
    then have "i * 23 mod 64 * 162 + 162 \<le> length inp" using l by linarith
    then show ?thesis by simp
  qed
  then show ?thesis unfolding depermute_def by (subst concat_map_length_const [where k = 162]) simp_all
qed

lemma length_descramble [simp]: "length (descramble pkt) = length pkt"
  unfolding descramble_def fold_product Let_def
  by (rule length_fold_update) simp

text \<open>The scrambler on one byte.\<close>

definition scramble_byte :: "nat \<Rightarrow> u8 \<Rightarrow> u8" where
  "scramble_byte k b = (if scramble_seq ! (k div 4) \<noteq> 0 then reverse_bits b XOR 0xFF else reverse_bits b)"

lemma descramble_nth:
  assumes "length pkt = 640" "k < 640"
  shows "descramble pkt ! k = scramble_byte k (pkt ! k)"
proof -
  let ?f = "\<lambda>ij. fst ij * 4 + snd ij"
  let ?g = "\<lambda>ij xs. let b = reverse_bits (xs ! ?f ij) in (if scramble_seq ! (fst ij) \<noteq> 0 then b XOR 0xFF else b)"
  let ?ks = "List.product [0..<160] [0..<4::nat]"
  have "inj_on ?f (set ?ks)"
  proof (rule inj_onI)
    fix x y :: "nat \<times> nat" assume m: "x \<in> set ?ks" "y \<in> set ?ks" and e: "?f x = ?f y"
    then have "snd x < 4" "snd y < 4" by auto
    then have "?f x mod 4 = snd x" "?f y mod 4 = snd y" "?f x div 4 = fst x" "?f y div 4 = fst y" by simp_all
    with e show "x = y" by (metis prod.expand)
  qed
  moreover have k: "?f (k div 4, k mod 4) = k" by simp
  moreover have "(k div 4, k mod 4) \<in> set ?ks" using assms(2) by (simp add: less_mult_imp_div_less)
  ultimately have "fold (\<lambda>ij xs. xs[?f ij := ?g ij xs]) ?ks pkt ! ?f (k div 4, k mod 4) = ?g (k div 4, k mod 4) pkt"
    using assms by (intro fold_writes_at distinct_product_upt) (simp_all only: k)
  then show ?thesis unfolding descramble_def fold_product k scramble_byte_def by (simp add: split_beta Let_def)
qed

lemma all_less_8: "(\<forall>n<8. P n) \<longleftrightarrow> P 0 \<and> P 1 \<and> P 2 \<and> P 3 \<and> P 4 \<and> P 5 \<and> P 6 \<and> P (7 :: nat)"
  by (simp add: numeral_eq_Suc All_less_Suc conj_ac)

lemma u8_bits_eq: "(\<forall>n<8. bit (x :: u8) n = P n) \<Longrightarrow> (\<And>n. 8 \<le> n \<Longrightarrow> \<not> P n) \<Longrightarrow> bit x n = P n"
  using bit_imp_le_length [of x n] by (cases "n < 8") auto

lemma masks:
  "bit (0x55 :: u8) n = (n \<in> {0, 2, 4, 6})" "bit (0x33 :: u8) n = (n \<in> {0, 1, 4, 5})"
  "bit (0x0F :: u8) n = (n \<in> {0, 1, 2, 3})" "bit (0xFF :: u8) n = (n < 8)"
  by (rule u8_bits_eq; simp add: all_less_8; fail | rule u8_bits_eq, unfold all_less_8, simp, auto)+

lemma bit_reverse_bits: "n < 8 \<Longrightarrow> bit (reverse_bits b) n = bit b (7 - n)"
proof -
  assume "n < 8"
  then consider "n = 0" | "n = 1" | "n = 2" | "n = 3" | "n = 4" | "n = 5" | "n = 6" | "n = 7" by linarith
  then show ?thesis
    by cases (simp_all only: reverse_bits_def Let_def bit_and_iff bit_or_iff bit_drop_bit_eq bit_push_bit_iff o_def masks, simp_all add: numeral_eq_Suc)
qed
lemma scramble_byte_involution: "scramble_byte k (scramble_byte k b) = b"
proof (rule bit_word_eqI)
  fix n assume "n < LENGTH(8)"
  then have n: "n < 8" "7 - n < 8" "7 - (7 - n) = n" by simp_all
  have "bit (0xFF :: u8) n" "bit (0xFF :: u8) (7 - n)" using n(1,2) by (simp_all only: masks)
  then show "bit (scramble_byte k (scramble_byte k b)) n = bit b n"
    by (simp only: scramble_byte_def bit_xor_iff bit_reverse_bits [OF n(1)] bit_reverse_bits [OF n(2)] n(3) split: if_split) simp
qed


lemma descramble_involution:
  "length pkt = 640 \<Longrightarrow> descramble (descramble pkt) = pkt"
  by (rule nth_equalityI) (simp_all add: descramble_nth scramble_byte_involution)

section \<open>The transmitter\<close>

text \<open>
  The sender's side of the frame layout: row \<open>k\<close> starts with the sync bit twice and carries row
  \<open>39 k mod 64\<close> of the interleaved code word (39 is the inverse of 23 modulo 64).
\<close>

definition frame_layout :: "nat list \<Rightarrow> nat list" where
  "frame_layout code = concat (map (\<lambda>k. [sync_word ! k, sync_word ! k] @
     map (\<lambda>c. code ! (c * 64 + k * 39 mod 64)) [0..<160]) [0..<64])"

definition tx_frame :: "u8 list \<Rightarrow> nat list" where
  "tx_frame bytes = frame_layout (viterbi_encode (descramble bytes) 5120)"

text \<open>Where symbol \<open>k\<close> of the code word travels in the frame.\<close>

definition code_pos :: "nat \<Rightarrow> nat" where
  "code_pos k = (k mod 64) * 23 mod 64 * 162 + k div 64 + 2"

lemma length_frame_layout: "length (frame_layout code) = 10368"
  unfolding frame_layout_def by (subst concat_map_length_const [where k = 162]) simp_all

lemma frame_layout_row:
  assumes "k < 64" "j < 162"
  shows "frame_layout code ! (k * 162 + j) =
    ([sync_word ! k, sync_word ! k] @ map (\<lambda>c. code ! (c * 64 + k * 39 mod 64)) [0..<160]) ! j"
proof -
  have "frame_layout code ! (k * 162 + j) = map (\<lambda>k. [sync_word ! k, sync_word ! k] @
     map (\<lambda>c. code ! (c * 64 + k * 39 mod 64)) [0..<160]) [0..<64] ! k ! j"
    unfolding frame_layout_def by (rule nth_concat_const) (use assms in auto)
  with assms show ?thesis by simp
qed

lemma mult_23_39: "r < 64 \<Longrightarrow> r * 23 mod 64 * 39 mod 64 = (r :: nat)"
proof -
  assume "r < 64"
  have "r * 23 mod 64 * 39 mod 64 = (r * 23 * 39) mod 64" by (rule mod_mult_left_eq)
  also have "r * 23 * 39 = r + (r * 14) * 64" by simp
  finally show ?thesis using \<open>r < 64\<close> by (simp only: mod_mult_self1) simp
qed

lemma code_pos_less: "k < 10240 \<Longrightarrow> code_pos k < 10368"
proof -
  assume "k < 10240"
  then have "k div 64 + 2 < 162" "k mod 64 * 23 mod 64 < 64" by simp_all
  from less_mult_index [OF this(2,1)] show ?thesis by (simp add: code_pos_def add.assoc)
qed

lemma frame_layout_code: "k < 10240 \<Longrightarrow> frame_layout code ! code_pos k = code ! k"
proof -
  assume k: "k < 10240"
  have "frame_layout code ! code_pos k = frame_layout code ! ((k mod 64) * 23 mod 64 * 162 + (k div 64 + 2))"
    by (simp add: code_pos_def)
  also have "\<dots> = ([sync_word ! (k mod 64 * 23 mod 64), sync_word ! (k mod 64 * 23 mod 64)] @
      map (\<lambda>c. code ! (c * 64 + k mod 64 * 23 mod 64 * 39 mod 64)) [0..<160]) ! (k div 64 + 2)"
    by (rule frame_layout_row) (use k in simp_all)
  also have "\<dots> = code ! (k div 64 * 64 + k mod 64 * 23 mod 64 * 39 mod 64)"
  proof -
    have j: "k div 64 < 160" using k by simp
    then have "[0..<160] ! (k div 64) = k div 64" using nth_upt [of 0 "k div 64" 160] by (simp only: add_0)
    with j show ?thesis by simp
  qed
  also have "k mod 64 * 23 mod 64 * 39 mod 64 = k mod 64" by (rule mult_23_39) simp
  finally show ?thesis by simp
qed

lemma frame_layout_sync:
  "i < 64 \<Longrightarrow> frame_layout code ! (i * 162) = sync_word ! i"
  "i < 64 \<Longrightarrow> frame_layout code ! (i * 162 + 1) = sync_word ! i"
  using frame_layout_row [of i 0 code] frame_layout_row [of i 1 code] by simp_all

section \<open>The receiver undoes the layout\<close>

lemma receive_nth:
  assumes "length inp = 10368" "length out = 10240" "k < 10240"
  shows "deinterleave (depermute inp) out ! k = inp ! code_pos k"
proof -
  have "k div 64 + 2 < 162" "k mod 64 < 64" using assms(3) by simp_all
  then show ?thesis
    using deinterleave_nth [OF assms(2,3), of "depermute inp"]
      depermute_nth [OF assms(1), of "k mod 64" "k div 64 + 2"]
    by (simp add: code_pos_def add.assoc)
qed

text \<open>The code word inside received symbols.\<close>

definition code_part :: "'a list \<Rightarrow> 'a list" where
  "code_part rx = map (\<lambda>k. rx ! code_pos k) [0..<10240]"

lemma length_code_part [simp]: "length (code_part rx) = 10240"
  by (simp add: code_part_def)

lemma code_part_nth: "k < 10240 \<Longrightarrow> code_part rx ! k = rx ! code_pos k"
  unfolding code_part_def by (subst nth_map_upt) (simp_all only: diff_zero add_0)

lemma receive_code_part:
  assumes "length inp = 10368" "length out = 10240"
  shows "deinterleave (depermute inp) out = code_part inp"
  by (rule nth_equalityI) (simp_all add: assms receive_nth code_part_def)

lemma code_part_map: "length rx = 10368 \<Longrightarrow> code_part (map f rx) = map f (code_part rx)"
  by (simp add: code_part_def code_pos_less)

lemma code_part_layout: "length code = 10240 \<Longrightarrow> code_part (frame_layout code) = code"
  by (rule nth_equalityI) (simp_all add: code_part_def frame_layout_code)

lemma inj_code_pos: "inj_on code_pos {..<10240}"
proof (rule inj_onI)
  fix x y assume xy: "x \<in> {..<10240::nat}" "y \<in> {..<10240}" and e: "code_pos x = code_pos y"
  have c: "[0..<10240] ! k = k" if "k < 10240" for k using nth_upt [of 0 k 10240] that by (simp only: add_0)
  have "x < 10240" "y < 10240" using xy by (simp_all only: lessThan_iff)
  define L where "L = [0..<10240::nat]"
  have at: "frame_layout L ! code_pos k = k" if "k < 10240" for k
    unfolding frame_layout_code [OF that] unfolding L_def by (rule c [OF that])
  have "x = frame_layout L ! code_pos x" by (rule at [OF \<open>x < 10240\<close>, symmetric])
  also have "\<dots> = frame_layout L ! code_pos y" by (rule arg_cong [OF e])
  also have "\<dots> = y" by (rule at [OF \<open>y < 10240\<close>])
  finally show "x = y" .
qed

text \<open>Symbol errors in the code word are symbol errors in the frame.\<close>

lemma mismatches_code_part:
  assumes "length rx = 10368"
  shows "mismatches (code_part rx) code 10240 \<le> mismatches rx (frame_layout code) 10368"
proof -
  have card: "mismatches xs ys n = card {i. i < n \<and> (xs ! i \<noteq> 0) \<noteq> (ys ! i \<noteq> 0)}" for xs ys n
    unfolding mismatches_def by (simp add: length_filter_conv_card cong: conj_cong)
  have sub: "code_pos ` {i. i < 10240 \<and> (code_part rx ! i \<noteq> 0) \<noteq> (code ! i \<noteq> 0)} \<subseteq>
      {i. i < 10368 \<and> (rx ! i \<noteq> 0) \<noteq> (frame_layout code ! i \<noteq> 0)}"
  proof (rule image_subsetI, elim CollectE conjE, intro CollectI conjI)
    fix i :: nat assume i: "i < 10240" and d: "(code_part rx ! i \<noteq> 0) \<noteq> (code ! i \<noteq> 0)"
    show "code_pos i < 10368" using i by (rule code_pos_less)
    show "(rx ! code_pos i \<noteq> 0) \<noteq> (frame_layout code ! code_pos i \<noteq> 0)"
      using d unfolding code_part_nth [OF i] frame_layout_code [OF i] .
  qed
  have inj: "inj_on code_pos {i. i < 10240 \<and> (code_part rx ! i \<noteq> 0) \<noteq> (code ! i \<noteq> 0)}"
    by (rule inj_on_subset [OF inj_code_pos]) blast
  have "finite {i. i < (10368 :: nat) \<and> P i}" for P by simp
  from card_mono [OF this sub] show ?thesis unfolding card card_image [OF inj] .
qed

section \<open>Sync\<close>

definition hard :: "i8 \<Rightarrow> nat" where
  "hard x = (if 0 < sint x then 1 else 0)"

definition sync_hits :: "i8 list \<Rightarrow> nat \<Rightarrow> nat" where
  "sync_hits buf i = of_bool (hard (buf ! (i * 162)) = sync_word ! i) + of_bool (hard (buf ! (i * 162 + 1)) = sync_word ! i)"

lemma check_sync_count:
  "check_sync buf = (let n = (\<Sum>i < 64. sync_hits buf i) in if n < 128 - n then (128 - n, True) else (n, False))"
proof -
  define F where "F = (\<lambda>i m. let pos = i * 162;
              bit0 = (if 0 < sint (buf ! pos) then 1 else 0);
              bit1 = (if 0 < sint (buf ! (pos + 1)) then 1 else 0)
          in count_match bit1 (sync_word ! i) (count_match bit0 (sync_word ! i) m))"
  have "fold F [0..<n] (0, 0) = ((\<Sum>i < n. sync_hits buf i), 2 * n - (\<Sum>i < n. sync_hits buf i)) \<and>
      (\<Sum>i < n. sync_hits buf i) \<le> 2 * n" for n
  proof (induction n)
    case (Suc n)
    then show ?case
      by (auto simp: F_def Let_def count_match_def sync_hits_def hard_def)
  qed simp
  note f = this [of 64, THEN conjunct1]
  have m: "2 * 64 = (128 :: nat)" by simp
  have "check_sync buf = (case fold F [0..<64] (0, 0) of (a, b) \<Rightarrow> if a < b then (b, True) else (a, False))"
    by (simp only: check_sync_def F_def Let_def)
  then show ?thesis unfolding f m Let_def prod.case .
qed

section \<open>Sync on received frames\<close>

lemma hard_soft_sym: "hard (soft_sym y) = of_bool (y \<noteq> 0)" "hard (- soft_sym y) = of_bool (y = 0)"
  by (simp_all add: hard_def soft_sym_def)

lemma sync_word_bit: "(i::nat) < 64 \<Longrightarrow> sync_word ! i = of_bool (sync_word ! i \<noteq> 0)"
proof -
  have "list_all (\<lambda>b. b = 0 \<or> b = 1) sync_word" by (simp add: sync_word_def)
  moreover have "length sync_word = 64" by (simp add: sync_word_def)
  ultimately show "i < 64 \<Longrightarrow> ?thesis" by (auto simp: list_all_length)
qed

definition sync_misses :: "nat list \<Rightarrow> nat \<Rightarrow> nat" where
  "sync_misses rx i = of_bool ((rx ! (i * 162) \<noteq> 0) \<noteq> (sync_word ! i \<noteq> 0)) +
     of_bool ((rx ! (i * 162 + 1) \<noteq> 0) \<noteq> (sync_word ! i \<noteq> 0))"

lemma row_in_frame: "(i::nat) < 64 \<Longrightarrow> i * 162 < 10368 \<and> i * 162 + 1 < 10368"
  using less_mult_index [of i 64 0 162] less_mult_index [of i 64 1 162] by simp

lemma sync_hits_soft:
  fixes i :: nat
  assumes "length rx = 10368" "i < 64"
  shows "sync_hits (map soft_sym rx) i + sync_misses rx i = 2"
    and "sync_hits (map (\<lambda>y. - soft_sym y) rx) i = sync_misses rx i"
proof -
  obtain b where b: "sync_word ! i = of_bool b" using sync_word_bit [OF assms(2)] by blast
  show "sync_hits (map soft_sym rx) i + sync_misses rx i = 2"
    "sync_hits (map (\<lambda>y. - soft_sym y) rx) i = sync_misses rx i"
    using row_in_frame [OF assms(2)] assms(1)
    by (auto simp: sync_hits_def sync_misses_def hard_soft_sym b)
qed

lemma sync_misses_frame:
  "(\<Sum>i < 64. sync_misses rx i) \<le> mismatches rx (frame_layout code) 10368"
proof -
  define g :: "nat \<Rightarrow> nat" where "g p = of_bool ((rx ! p \<noteq> 0) \<noteq> (frame_layout code ! p \<noteq> 0))" for p
  have row: "sync_misses rx i \<le> sum g {i * 162..<i * 162 + 162}" if "i < 64" for i
  proof -
    have "sync_misses rx i = sum g {i * 162, i * 162 + 1}"
      using frame_layout_sync [OF that] by (simp add: sync_misses_def g_def)
    also have "\<dots> \<le> sum g {i * 162..<i * 162 + 162}" by (rule sum_mono2) auto
    finally show ?thesis .
  qed
  have "(\<Sum>i < 64. sync_misses rx i) \<le> (\<Sum>i < 64. sum g {i * 162..<i * 162 + 162})"
    by (rule sum_mono) (simp only: lessThan_iff row)
  also have "\<dots> = sum g {..<64 * 162}" by (rule sum.nat_group)
  also have "\<dots> = mismatches rx (frame_layout code) 10368" by (simp add: mismatches_sum g_def)
  finally show ?thesis .
qed

lemma check_sync_received:
  assumes len: "length rx = 10368" and few: "mismatches rx (frame_layout code) 10368 \<le> 4"
  shows "\<exists>n \<ge> 124. check_sync (map soft_sym rx) = (n, False)"
    and "\<exists>n \<ge> 124. check_sync (map (\<lambda>y. - soft_sym y) rx) = (n, True)"
proof -
  let ?m = "\<Sum>i < 64. sync_misses rx i"
  have m: "?m \<le> 4" using sync_misses_frame few by (rule order.trans)
  have "(\<Sum>i < 64. sync_hits (map soft_sym rx) i) + ?m = (\<Sum>i < (64 :: nat). 2)"
    unfolding sum.distrib [symmetric] by (rule sum.cong) (simp_all only: sync_hits_soft(1) [OF len] lessThan_iff)
  then have h: "(\<Sum>i < 64. sync_hits (map soft_sym rx) i) = 128 - ?m" by simp
  have "check_sync (map soft_sym rx) = (128 - ?m, False)"
    unfolding check_sync_count h Let_def using m by simp
  then show "\<exists>n \<ge> 124. check_sync (map soft_sym rx) = (n, False)" using m by simp
  have h2: "(\<Sum>i < 64. sync_hits (map (\<lambda>y. - soft_sym y) rx) i) = ?m"
    by (rule sum.cong) (simp_all only: sync_hits_soft(2) [OF len] lessThan_iff)
  have "check_sync (map (\<lambda>y. - soft_sym y) rx) = (128 - ?m, True)"
    unfolding check_sync_count h2 Let_def using m by simp
  then show "\<exists>n \<ge> 124. check_sync (map (\<lambda>y. - soft_sym y) rx) = (n, True)" using m by simp
qed

section \<open>The block code\<close>

text \<open>
  What the frame layer expects of the error-correcting code: \<open>T\<close> bits in \<open>2 T\<close> symbols; up to \<open>t\<close> wrong
  symbols are corrected, except in the last \<open>margin\<close> bits; the decoder's choice is a closest one.
\<close>

locale block_code =
  fixes T t margin :: nat and encode :: "u8 list \<Rightarrow> nat list" and decode :: "i8 list \<Rightarrow> u8 list"
  assumes length_encode: "length (encode bs) = 2 * T"
    and length_decode: "length soft = 2 * T \<Longrightarrow> 8 * length (decode soft) = T"
    and corrects: "length rx = 2 * T \<Longrightarrow> mismatches rx (encode bs) (2 * T) \<le> t \<Longrightarrow> i + margin \<le> T \<Longrightarrow>
      bit_at (decode (map soft_sym rx)) i = bit_at bs i"
    and closest: "length rx = 2 * T \<Longrightarrow>
      mismatches rx (encode (decode (map soft_sym rx))) (2 * T) \<le> mismatches rx (encode bs) (2 * T)"
begin

lemma decode_byte:
  assumes "length rx = 2 * T" "8 * length bs = T" "mismatches rx (encode bs) (2 * T) \<le> t" "8 * k + 7 + margin \<le> T"
  shows "decode (map soft_sym rx) ! k = bs ! k"
proof (rule bit_word_eqI)
  fix n assume "n < LENGTH(8)"
  then have n: "n < 8" by simp
  have "bit_at (decode (map soft_sym rx)) (8 * k + (7 - n)) = bit_at bs (8 * k + (7 - n))"
    by (rule corrects [OF assms(1,3)]) (use assms(4) in linarith)
  moreover have "bit_at xs (8 * k + (7 - n)) = bit (xs ! k) n" for xs
  proof -
    have "(8 * k + j) div 8 = k" "(8 * k + j) mod 8 = j" if "j < 8" for j :: nat using that by simp_all
    from this [of "7 - n"] have "(8 * k + (7 - n)) div 8 = k" "(8 * k + (7 - n)) mod 8 = 7 - n" by simp_all
    then show ?thesis using n by (simp add: bit_at_def shift_and_one)
  qed
  ultimately show "bit (decode (map soft_sym rx) ! k) n = bit (bs ! k) n" by simp
qed

lemma decode_prefix:
  assumes "length rx = 2 * T" "8 * length bs = T" "mismatches rx (encode bs) (2 * T) \<le> t" "8 * k + margin \<le> T + 1"
  shows "take k (decode (map soft_sym rx)) = take k bs"
proof (rule nth_equalityI)
  have l: "8 * length (decode (map soft_sym rx)) = T" by (rule length_decode) (simp add: assms(1))
  with assms(2) show "length (take k (decode (map soft_sym rx))) = length (take k bs)" by simp
  fix j assume "j < length (take k (decode (map soft_sym rx)))"
  then have "j < k" by simp
  with assms(4) have "8 * j + 7 + margin \<le> T" by simp
  from decode_byte [OF assms(1-3) this] \<open>j < k\<close> show "take k (decode (map soft_sym rx)) ! j = take k bs ! j" by simp
qed

end

definition frame_encode :: "u8 list \<Rightarrow> nat list" where
  "frame_encode bs = viterbi_encode bs 5120"

definition frame_decode :: "i8 list \<Rightarrow> u8 list" where
  "frame_decode soft = snd (viterbi_decode (viterbi_init 5120) soft)"

interpretation vit: block_code 5120 4 21 frame_encode frame_decode
proof
  fix bs :: "u8 list" and soft :: "i8 list" and rx :: "nat list" and i :: nat
  show "length (frame_encode bs) = 2 * 5120" by (simp add: frame_encode_def)
  show "length soft = 2 * 5120 \<Longrightarrow> 8 * length (frame_decode soft) = 5120"
    using viterbi_decode_ml [of 5120 soft, OF _ _ surjective_pairing] by (simp add: frame_decode_def)
  show "length rx = 2 * 5120 \<Longrightarrow> mismatches rx (frame_encode bs) (2 * 5120) \<le> 4 \<Longrightarrow> i + 21 \<le> 5120 \<Longrightarrow>
      bit_at (frame_decode (map soft_sym rx)) i = bit_at bs i"
    using viterbi_decode_corrects [of 5120 rx bs, OF _ _ _ surjective_pairing]
    by (simp add: frame_decode_def frame_encode_def)
  show "length rx = 2 * 5120 \<Longrightarrow>
      mismatches rx (frame_encode (frame_decode (map soft_sym rx))) (2 * 5120) \<le> mismatches rx (frame_encode bs) (2 * 5120)"
    using viterbi_decode_ml [of 5120 "map soft_sym rx", OF _ _ surjective_pairing]
    by (simp add: frame_decode_def frame_encode_def soft_distance_hard mismatches_def)
qed

section \<open>Receiving a frame\<close>

text \<open>A received frame: the transmitted one with at most four wrong symbols.\<close>

definition received :: "u8 list \<Rightarrow> nat list \<Rightarrow> bool" where
  "received bytes rx \<longleftrightarrow> length rx = 10368 \<and> mismatches rx (tx_frame bytes) 10368 \<le> 4"

lemma received_decode:
  assumes rx: "received bytes rx" and bytes: "length bytes = 640"
  defines "out \<equiv> frame_decode (map soft_sym (code_part rx))"
  shows "length out = 640" "take 637 (descramble out) = take 637 bytes"
    "mismatches (code_part rx) (frame_encode out) 10240 \<le> 4"
proof -
  let ?c = "frame_encode (descramble bytes)"
  have few: "mismatches (code_part rx) ?c (2 * 5120) \<le> 4"
    using rx mismatches_code_part [of rx ?c] by (simp add: received_def tx_frame_def frame_encode_def)
  have len: "length (code_part rx) = 2 * 5120" by simp
  show lo: "length out = 640" using vit.length_decode [of "map soft_sym (code_part rx)"] by (simp add: out_def)
  have pre: "take 637 out = take 637 (descramble bytes)"
    unfolding out_def by (rule vit.decode_prefix [OF len _ few]) (simp_all add: bytes)
  show "take 637 (descramble out) = take 637 bytes"
  proof (rule nth_equalityI)
    show "length (take 637 (descramble out)) = length (take 637 bytes)" using lo bytes by simp
    fix j assume "j < length (take 637 (descramble out))"
    then have j: "j < 637" by simp
    have "out ! j = descramble bytes ! j" using pre j by (metis nth_take)
    then have "descramble out ! j = descramble (descramble bytes) ! j"
      using j lo bytes by (simp add: descramble_nth)
    with j bytes show "take 637 (descramble out) ! j = take 637 bytes ! j" by (simp add: descramble_involution)
  qed
  show "mismatches (code_part rx) (frame_encode out) 10240 \<le> 4"
    using vit.closest [OF len, of "descramble bytes"] few unfolding out_def by simp
qed

section \<open>What the packets see of the decoder\<close>

text \<open>The part of the state that the packet decoders use, and the part that only the frame layer uses.\<close>

definition app :: "stdc_decoder \<Rightarrow> egc_reassembly list \<times> nat \<times> stdc_message list" where
  "app d = (egc_slots d, time_calls d, emitted d)"

definition phys :: "stdc_decoder \<Rightarrow> i8 list \<times> int \<times> bool \<times> i8 list" where
  "phys d = (shift_reg d, shift_pos d, synced d, deinterleaved d)"

lemma same_bind:
  "(\<And>y. map_option g (f y) = map_option g (h y)) \<Longrightarrow> map_option g (x \<bind> f) = map_option g (x \<bind> h)"
  by (cases x) auto

lemma same_if:
  "(c \<Longrightarrow> map_option g a = map_option g b) \<Longrightarrow> (\<not> c \<Longrightarrow> map_option g a' = map_option g b') \<Longrightarrow>
    map_option g (if c then a else a') = map_option g (if c then b else b')"
  by auto

lemma same_prod:
  "(\<And>a b. map_option g (f a b) = map_option g (h a b)) \<Longrightarrow>
    map_option g (case x of (a, b) \<Rightarrow> f a b) = map_option g (case x of (a, b) \<Rightarrow> h a b)"
  by (cases x) auto

lemma pred_bind: "(\<And>y. pred_option P (f y)) \<Longrightarrow> pred_option P (x \<bind> f)"
  by (cases x) auto

lemma pred_if: "(c \<Longrightarrow> pred_option P a) \<Longrightarrow> (\<not> c \<Longrightarrow> pred_option P b) \<Longrightarrow> pred_option P (if c then a else b)"
  by auto

lemma pred_prod: "(\<And>a b. pred_option P (f a b)) \<Longrightarrow> pred_option P (case x of (a, b) \<Rightarrow> f a b)"
  by (cases x) auto

lemmas same_intros = same_bind same_if same_prod
lemmas pred_intros = pred_bind pred_if pred_prod

lemma try_emit_frame: "pred_option (\<lambda>d'. phys d' = phys d) (try_emit_egc i d)"
  by (simp add: try_emit_egc_def phys_def emit_message_def Let_def split: option.splits)

lemma try_emit_app:
  assumes "app d = app e"
  shows "map_option app (try_emit_egc i d) = map_option app (try_emit_egc i e)"
  using assms by (simp add: try_emit_egc_def app_def emit_message_def Let_def split: option.splits)

lemma phys_if [simp]: 
  "phys (if c then emit_message m d else d) = phys d" "phys (d\<lparr>egc_slots := s, time_calls := n\<rparr>) = phys d"
  "phys (d\<lparr>stat_crc_ok := k\<rparr>) = phys d" "phys (d\<lparr>emitted := em\<rparr>) = phys d"
  by (simp_all add: phys_def emit_message_def)

lemma decode_egc_frame: "pred_option (\<lambda>d'. phys d' = phys d) (decode_egc clk p pos n b d)"
proof -
  have t: "phys d1 = phys d \<Longrightarrow> pred_option (\<lambda>d'. phys d' = phys d) (try_emit_egc i d1)" for i d1
    using try_emit_frame [of d1 i] by simp
  show ?thesis unfolding decode_egc_def Let_def
    by (intro pred_intros t) simp_all
qed

lemma app_emit: "app d = app e \<Longrightarrow> app (if c then emit_message m d else d) = app (if c then emit_message m e else e)"
   "app d = app e \<Longrightarrow> app (d\<lparr>egc_slots := s, time_calls := n\<rparr>) = app (e\<lparr>egc_slots := s, time_calls := n\<rparr>)"
  by (simp_all add: app_def emit_message_def)

lemma same_some: "app d = app e \<Longrightarrow> map_option app (Some d) = map_option app (Some e)"
  by simp

lemma decode_egc_app:
  assumes "app d = app e"
  shows "map_option app (decode_egc clk p pos n b d) = map_option app (decode_egc clk p pos n b e)"
proof -
  have eq: "time_calls d = time_calls e" "egc_slots d = egc_slots e"
    using assms by (simp_all add: app_def)
  show ?thesis unfolding decode_egc_def Let_def eq
    by (intro same_intros same_some try_emit_app app_emit assms)
qed


lemma handle_packet_frame: "pred_option (\<lambda>d'. phys d' = phys d) (handle_packet clk p d)"
proof -
  have t: "pred_option (\<lambda>d'. phys d' = phys d) (decode_egc clk p 0 n b (d\<lparr>stat_crc_ok := k\<rparr>))" for n b k
    using decode_egc_frame [of "d\<lparr>stat_crc_ok := k\<rparr>" clk p 0 n b] by simp
  have s: "pred_option (\<lambda>d'. phys d' = phys d) (Some (d\<lparr>stat_crc_ok := k\<rparr>))" for k by simp
  show ?thesis
    unfolding handle_packet_def Let_def
    by (cases "decoder_of (uint (p ! 0))")
      (simp_all only: option.case option.pred_map comp_def phys_if option.pred_True t s split: if_split, simp_all add: pred_option_def)
qed

lemma handle_packet_app:
  assumes "app d = app e"
  shows "map_option app (handle_packet clk p d) = map_option app (handle_packet clk p e)"
proof -
  let ?d = "d\<lparr>stat_crc_ok := stat_crc_ok d + 1\<rparr>" and ?e = "e\<lparr>stat_crc_ok := stat_crc_ok e + 1\<rparr>"
  have a: "app ?d = app ?e" using assms by (simp add: app_def)
  then have m: "app (?d\<lparr>emitted := emitted ?d @ ms\<rparr>) = app (?e\<lparr>emitted := emitted ?e @ ms\<rparr>)" for ms
    by (simp add: app_def)
  show ?thesis
    unfolding handle_packet_def Let_def
    by (cases "decoder_of (uint (p ! 0))")
      (simp_all only: option.case option.map_comp comp_def m decode_egc_app [OF a] a option.map split: if_split, simp)
qed

lemma handle_packets_frame: "handle_packets clk ps d = Some d' \<Longrightarrow> phys d' = phys d"
proof (induction ps arbitrary: d)
  case (Cons p ps)
  then show ?case using handle_packet_frame [of d clk p] by (auto split: Option.bind_splits)
qed simp

lemma handle_packets_app:
  "app d = app e \<Longrightarrow> map_option app (handle_packets clk ps d) = map_option app (handle_packets clk ps e)"
proof (induction ps arbitrary: d e)
  case (Cons p ps)
  from handle_packet_app [OF Cons.prems, of clk p]
  show ?case by (cases "handle_packet clk p d"; cases "handle_packet clk p e") (auto intro: Cons.IH)
qed simp

lemma handle_packets_append:
  "handle_packets clk (ps @ qs) d = handle_packets clk ps d \<bind> handle_packets clk qs"
proof (induction ps arbitrary: d)
  case (Cons p ps)
  then show ?case by (cases "handle_packet clk p d") simp_all
qed simp


section \<open>Feeding a frame\<close>

text \<open>The stream: what the demodulator delivers for received symbols, in the right or the inverted polarity.\<close>

definition line_syms :: "bool \<Rightarrow> nat list \<Rightarrow> i8 list" where
  "line_syms neg rx = map (if neg then (\<lambda>y. - soft_sym y) else soft_sym) rx"

lemma line_syms_simps [simp]: "length (line_syms neg rx) = length rx"
  by (simp add: line_syms_def)

lemma undo_polarity: "(if neg then map uminus (line_syms neg rx) else line_syms neg rx) = map soft_sym rx"
  by (simp add: line_syms_def comp_def)

lemma feed_bits_append:
  "feed_bits clk depth (xs @ ys) d =
    (case feed_bits clk depth xs d of Inl e \<Rightarrow> Inl e | Inr d' \<Rightarrow> feed_bits clk depth ys d')"
  by (induction xs arbitrary: d) (simp_all split: sum.split)

text \<open>Until a frame's worth of bits has come in, a bit is only shifted in.\<close>

lemma feed_bits_shift:
  assumes "shift_pos d + int (length sbs) < 10368" and "length sbs \<le> length (shift_reg d)"
  shows "feed_bits clk depth sbs d =
    Inr (d\<lparr>shift_reg := drop (length sbs) (shift_reg d) @ sbs, shift_pos := shift_pos d + int (length sbs)\<rparr>)"
  using assms
proof (induction sbs arbitrary: d)
  case (Cons sb sbs)
  then have s: "feed_bit clk depth sb d = Inr (d\<lparr>shift_reg := tl (shift_reg d) @ [sb], shift_pos := shift_pos d + 1\<rparr>)"
    by (simp add: feed_bit_def shift_in_def)
  have "tl (shift_reg d) = drop 1 (shift_reg d)" by (simp add: drop_Suc)
  with Cons.prems show ?case
    by (simp add: s Cons.IH algebra_simps drop_Suc)
qed simp


lemma viterbi_errors_hard:
  assumes "length rx = 10240"
  shows "viterbi_errors bits 5120 (map soft_sym rx) = mismatches rx (frame_encode bits) 10240"
proof -
  have "of_bool (0 < sint (map soft_sym rx ! i)) \<noteq> frame_encode bits ! i \<longleftrightarrow> (rx ! i \<noteq> 0) \<noteq> (frame_encode bits ! i \<noteq> 0)"
    if "i < 10240" for i
  proof -
    have "i < length (frame_encode bits)" using that by (simp add: frame_encode_def)
    from nth_mem [OF this] have "frame_encode bits ! i = 0 \<or> frame_encode bits ! i = 1"
      unfolding frame_encode_def viterbi_encode_path by (rule flat_syms_range)
    moreover have "0 < sint (map soft_sym rx ! i) \<longleftrightarrow> rx ! i \<noteq> 0" using that assms by (simp add: soft_sym_def)
    ultimately show ?thesis by auto
  qed
  then have "filter (\<lambda>i. of_bool (0 < sint (map soft_sym rx ! i)) \<noteq> frame_encode bits ! i) [0..<10240] =
      filter (\<lambda>i. (rx ! i \<noteq> 0) \<noteq> (frame_encode bits ! i \<noteq> 0)) [0..<10240]"
    by (intro filter_cong refl) (simp only: atLeastLessThan_iff set_upt)
  moreover have "5120 * 2 = (10240 :: nat)" by simp
  ultimately show ?thesis unfolding viterbi_errors_def Let_def mismatches_def frame_encode_def by (simp only:)
qed

lemma ber_passes: "e \<le> 4 \<Longrightarrow> \<not> round32 (3 / 20) < round32 (of_nat e / 10240)"
proof -
  assume "e \<le> 4"
  then have "e \<in> {0, 1, 2, 3, 4}" by auto
  moreover have "\<not> round32 (3 / 20) < round32 (of_nat 0 / 10240)" "\<not> round32 (3 / 20) < round32 (of_nat 1 / 10240)"
    "\<not> round32 (3 / 20) < round32 (of_nat 2 / 10240)" "\<not> round32 (3 / 20) < round32 (of_nat 3 / 10240)"
    "\<not> round32 (3 / 20) < round32 (of_nat 4 / 10240)" by code_simp+
  ultimately show ?thesis by auto
qed

section \<open>From symbols to packets\<close>

definition frame_ready :: "stdc_decoder \<Rightarrow> bool" where
  "frame_ready d \<longleftrightarrow> dec_wf d \<and> length (shift_reg d) = 10368 \<and> length (deinterleaved d) = 10240 \<and> shift_pos d = 0"

text \<open>
  A frame as it was sent and received: the polarity, the packets, the idle rest of the frame, the
  received symbols.
\<close>

type_synonym sent_frame = "bool \<times> u8 list list \<times> u8 list \<times> nat list"

fun good_frame :: "sent_frame \<Rightarrow> bool" where
  "good_frame (neg, ps, idle, rx) \<longleftrightarrow> (\<forall>p \<in> set ps. plain_packet p) \<and> length (concat ps @ idle) = 640 \<and>
     3 < length idle \<and> idle ! 0 = 0 \<and> received (concat ps @ idle) rx"

definition frame_packets :: "sent_frame \<Rightarrow> u8 list list" where
  "frame_packets = (\<lambda>(neg, ps, idle, rx). ps)"

definition frame_syms :: "sent_frame \<Rightarrow> i8 list" where
  "frame_syms = (\<lambda>(neg, ps, idle, rx). line_syms neg rx)"

lemma process_frame_received:
  assumes good: "good_frame (neg, ps, idle, rx)" and reg: "shift_reg d = line_syms neg rx"
    and d: "dec_wf d" "length (deinterleaved d) = 10240"
  shows "\<exists>d1 d'. process_frame clk depth neg d = Inr d' \<and> dec_wf d' \<and> app d1 = app d \<and>
    handle_packets clk ps d1 = Some d' \<and> phys d' = (map soft_sym rx, shift_pos d, synced d, map soft_sym (code_part rx))"
proof -
  let ?bytes = "concat ps @ idle" and ?dei = "map soft_sym (code_part rx)"
  have rx: "received ?bytes rx" and len: "length ?bytes = 640" and lrx: "length rx = 10368"
    and plain: "\<forall>p \<in> set ps. plain_packet p" and idle: "3 < length idle" "idle ! 0 = 0"
    using good by (simp_all add: received_def)
  define out where "out = frame_decode ?dei"
  note dec = received_decode [OF rx len, folded out_def]
  have dei: "deinterleave (depermute (map soft_sym rx)) (deinterleaved d) = ?dei"
    using receive_code_part [of "map soft_sym rx"] code_part_map [OF lrx, of soft_sym] lrx d(2) by simp
  obtain m where vd: "viterbi_decode (viterbi_init 5120) ?dei = (m, out)"
    by (metis out_def frame_decode_def prod.collapse)
  have ber: "\<not> round32 (3 / 20) < viterbi_ber out 5120 ?dei"
  proof -
    have "viterbi_ber out 5120 ?dei = round32 (of_nat (mismatches (code_part rx) (frame_encode out) 10240) / 10240)"
      unfolding viterbi_ber_def viterbi_errors_hard [OF length_code_part] by simp
    with ber_passes [OF dec(3)] show ?thesis by simp
  qed
  define d1 where "d1 = d\<lparr>shift_reg := map soft_sym rx, depermuted := depermute (map soft_sym rx), deinterleaved := ?dei,
    stat_ber_sum := stat_ber_sum d + word_of_int (trunc (round32 (viterbi_ber out 5120 ?dei * 10000))),
    stat_ber_count := stat_ber_count d + 1, decoded := descramble out, stat_frames := stat_frames d + 1, frame_count := frame_count d + 1\<rparr>"
  have pf: "process_frame clk depth neg d = parse_packets clk depth Decoded 640 d1"
    unfolding process_frame_def Let_def reg undo_polarity dei vd prod.case if_not_P [OF ber]
    by (simp add: d1_def ber)
  have dlen: "length (descramble out) = 640" using dec(1) by simp
  have wf1: "dec_wf d1" using d(1) dlen by (simp add: dec_wf_def d1_def)
  have "length (concat ps) < 637" using len idle(1) by simp
  moreover have "descramble out = take 637 ?bytes @ drop 637 (descramble out)"
    using dec(2) append_take_drop_id [of 637 "descramble out"] by simp
  ultimately have dd: "decoded d1 = concat ps @ (take (637 - length (concat ps)) idle @ drop 637 (descramble out))"
    and z: "(take (637 - length (concat ps)) idle @ drop 637 (descramble out)) ! 0 = 0"
    using idle by (cases idle; simp add: d1_def nth_append)+
  obtain d' where d': "parse_packets clk depth Decoded 640 d1 = Inr d'" "handle_packets clk ps d1 = Some d'" "dec_wf d'"
    using parse_loop_packets [of ps d1 "[]", OF plain wf1 _ disjI2 [OF z]] dd by (auto simp: parse_packets_def)
  moreover have "app d1 = app d" by (simp add: app_def d1_def)
  moreover have "phys d' = (map soft_sym rx, shift_pos d, synced d, ?dei)"
    using handle_packets_frame [OF d'(2)] by (simp add: phys_def d1_def)
  ultimately show ?thesis unfolding pf by blast
qed

lemma feed_frame:
  assumes good: "good_frame (neg, ps, idle, rx)" and d: "frame_ready d"
  shows "\<exists>d' e. feed_bits clk depth (line_syms neg rx) d = Inr d' \<and> frame_ready d' \<and> synced d' \<and>
    handle_packets clk ps d = Some e \<and> app d' = app e"
proof -
  have lrx: "length rx = 10368" and rx: "received (concat ps @ idle) rx" using good by (simp_all add: received_def)
  then have "line_syms neg rx \<noteq> []" by (simp add: line_syms_def) (metis list.size(3) zero_neq_numeral)
  then obtain sbs sb where split: "line_syms neg rx = sbs @ [sb]" by (cases "line_syms neg rx" rule: rev_cases) auto
  have ls: "length sbs = 10367" using arg_cong [OF split, of length] lrx by simp
  define d0 where "d0 = d\<lparr>shift_reg := drop 10367 (shift_reg d) @ sbs, shift_pos := 10367\<rparr>"
  have f0: "feed_bits clk depth sbs d = Inr d0"
    using feed_bits_shift [of d sbs clk depth] d ls by (simp add: frame_ready_def d0_def)
  have "length (tl (drop 10367 (shift_reg d))) = 0" using d by (simp add: frame_ready_def)
  then have "tl (drop 10367 (shift_reg d)) = []" by (simp only: length_0_conv)
  moreover have "drop 10367 (shift_reg d) \<noteq> []" using d by (simp add: frame_ready_def)
  ultimately have tl0: "tl (shift_reg d0) = sbs" by (simp add: d0_def tl_append2)
  define d1 where "d1 = d\<lparr>shift_reg := line_syms neg rx, shift_pos := 10368\<rparr>"
  have in1: "shift_in sb d0 = Some d1"
    unfolding shift_in_def tl0 by (simp add: d0_def d1_def split)
  obtain n where n: "124 \<le> n" "check_sync (line_syms neg rx) = (n, neg)"
  proof (cases neg)
    case True
    then show ?thesis using check_sync_received(2) [OF lrx] rx that by (auto simp: received_def tx_frame_def line_syms_def)
  next
    case False
    then show ?thesis using check_sync_received(1) [OF lrx] rx that by (auto simp: received_def tx_frame_def line_syms_def)
  qed
  define d2 where "d2 = (if synced d1 then d1 else d1\<lparr>synced := True, stat_synced := True\<rparr>)"
  have fb: "feed_bit clk depth sb d0 = frame_done (process_frame clk depth neg d2)"
    using n unfolding feed_bit_def in1 by (simp add: d2_def d1_def)
  have "shift_reg d2 = line_syms neg rx" "dec_wf d2" "length (deinterleaved d2) = 10240" "synced d2" "app d2 = app d"
    using d by (simp_all add: d2_def d1_def frame_ready_def dec_wf_def app_def)
  from process_frame_received [OF good this(1-3), of clk depth] this(4,5) obtain d3 d' where
    p: "process_frame clk depth neg d2 = Inr d'" "dec_wf d'" "app d3 = app d" "handle_packets clk ps d3 = Some d'"
      "phys d' = (map soft_sym rx, shift_pos d2, True, map soft_sym (code_part rx))" by auto
  have "feed_bits clk depth (line_syms neg rx) d = Inr (d'\<lparr>shift_pos := 0\<rparr>)"
    unfolding split feed_bits_append f0 by (simp add: fb p(1) frame_done_def)
  moreover have "frame_ready (d'\<lparr>shift_pos := 0\<rparr>)" "synced (d'\<lparr>shift_pos := 0\<rparr>)"
    using p(2,5) lrx by (simp_all add: frame_ready_def phys_def dec_wf_def)
  moreover obtain e where "handle_packets clk ps d = Some e" "app e = app d'"
    using handle_packets_app [OF p(3), of clk ps] p(4) by (metis map_option_eq_Some)
  moreover have "app (d'\<lparr>shift_pos := 0\<rparr>) = app d'" by (simp add: app_def)
  ultimately show ?thesis by metis
qed

lemma feed_frames:
  assumes "\<forall>f \<in> set fs. good_frame f" and "frame_ready d"
  shows "\<exists>d' e. feed_bits clk depth (concat (map frame_syms fs)) d = Inr d' \<and> frame_ready d' \<and>
    handle_packets clk (concat (map frame_packets fs)) d = Some e \<and> app d' = app e"
  using assms
proof (induction fs arbitrary: d)
  case (Cons f fs)
  obtain neg ps idle rx where f: "f = (neg, ps, idle, rx)" by (cases f) blast
  from feed_frame [of neg ps idle rx d clk depth] Cons.prems f obtain d1 e1 where
    1: "feed_bits clk depth (line_syms neg rx) d = Inr d1" "frame_ready d1" "handle_packets clk ps d = Some e1" "app d1 = app e1"
    by auto
  from Cons.IH [OF _ 1(2)] Cons.prems(1) obtain d' e where
    2: "feed_bits clk depth (concat (map frame_syms fs)) d1 = Inr d'" "frame_ready d'"
      "handle_packets clk (concat (map frame_packets fs)) d1 = Some e" "app d' = app e" by auto
  have "map_option app (handle_packets clk (concat (map frame_packets fs)) e1) = Some (app e)"
    using handle_packets_app [OF 1(4), of clk "concat (map frame_packets fs)"] 2(3) by simp
  then obtain e' where "handle_packets clk (concat (map frame_packets fs)) e1 = Some e'" "app e = app e'"
    by (cases "handle_packets clk (concat (map frame_packets fs)) e1") auto
  with 1 2 show ?case by (auto simp: f frame_syms_def frame_packets_def feed_bits_append handle_packets_append)
qed (simp add: frame_ready_def)


section \<open>Soft bits\<close>

lemma quantize_range: "- 127 \<le> sint (quantize x) \<and> sint (quantize x) \<le> 127"
proof -
  define v where "v = round32 (x * 127)"
  define u where "u = (if (if 127 < v then 127 else v) < - 127 then - 127 else (if 127 < v then 127 else v))"
  have "- 127 \<le> u" "u \<le> 127" by (simp_all add: u_def)
  then have t: "- 127 \<le> trunc u \<and> trunc u \<le> 127" by (intro trunc_range) auto
  have "quantize x = word_of_int (trunc u)" by (simp add: quantize_def Let_def u_def v_def)
  moreover have "sint (word_of_int k :: i8) = k" if "- 127 \<le> k" "k \<le> 127" for k
    using that by (simp add: signed_of_int signed_take_bit_int_eq_self)
  ultimately show ?thesis using t by simp
qed

lemma quantize_full_scale: "quantize 1 = soft_sym 1" "quantize (- 1) = soft_sym 0"
  by (simp_all add: quantize_def soft_sym_def) code_simp+

section \<open>The position counter\<close>

text \<open>Zero bits never look like the sync word; each of them advances the position, until it overflows.\<close>

lemma sum_of_bool_nth: "(\<Sum>i < length xs. of_bool (P (xs ! i))) = length (filter P xs)"
proof (induction xs rule: rev_induct)
  case (snoc x xs)
  have "(\<Sum>i < length xs. of_bool (P ((xs @ [x]) ! i))) = (\<Sum>i < length xs. of_bool (P (xs ! i)) :: nat)"
    by (intro sum.cong) (simp_all add: nth_append)
  with snoc show ?case by simp
qed simp

lemma check_sync_zeros: "check_sync (replicate 10368 0) = (64, False)"
proof -
  have h: "sync_hits (replicate 10368 0) i = 2 * of_bool (sync_word ! i = 0)" if "i < 64" for i :: nat
    using row_in_frame [OF that] by (auto simp: sync_hits_def hard_def)
  have len: "length sync_word = 64" by (simp add: sync_word_def)
  have "(\<Sum>i < 64. sync_hits (replicate 10368 0) i) = (\<Sum>i < 64. 2 * of_bool (sync_word ! i = 0))"
    by (rule sum.cong) (simp_all only: h lessThan_iff)
  also have "\<dots> = 2 * (\<Sum>i < length sync_word. of_bool (sync_word ! i = 0))"
    unfolding sum_distrib_left [symmetric] len ..
  also have "\<dots> = 64" unfolding sum_of_bool_nth by (simp add: sync_word_def)
  finally show ?thesis unfolding check_sync_count by (simp add: Let_def)
qed

lemma feed_zeros_overflow:
  assumes "\<not> synced d" and "shift_reg d = replicate 10368 0"
    and "shift_pos d \<le> 2147483647" and "2147483647 < shift_pos d + int n"
  shows "feed_bits clk depth (replicate n 0) d = Inl SignedOverflow"
  using assms
proof (induction n arbitrary: d)
  case (Suc n)
  show ?case
  proof (cases "shift_pos d = 2147483647")
    case False
    define d1 where "d1 = d\<lparr>shift_pos := shift_pos d + 1\<rparr>"
    have "tl (replicate k 0) @ [0] = (replicate k 0 :: i8 list)" if "0 < k" for k
      using that by (cases k) (simp_all add: replicate_append_same)
    from this [of 10368] have "tl (replicate 10368 0) @ [0] = (replicate 10368 0 :: i8 list)" by simp
    then have "shift_in 0 d = Some d1" using False Suc.prems by (simp add: shift_in_def d1_def)
    then have "feed_bit clk depth 0 d = Inr d1"
      using Suc.prems by (simp add: feed_bit_def d1_def check_sync_zeros)
    moreover have "feed_bits clk depth (replicate n 0) d1 = Inl SignedOverflow"
      using Suc.prems False by (intro Suc.IH) (simp_all add: d1_def)
    ultimately show ?thesis by simp
  qed (simp add: feed_bit_def shift_in_def)
qed simp

section \<open>The decoder's invariant\<close>

fun step_state :: "step \<Rightarrow> stdc_decoder option" where
  "step_state (Fault e) = None"
| "step_state (Stop d) = Some d"
| "step_state (Next p d) = Some d"
| "step_state (Nested p d) = Some d"

lemma emit_phys [simp]: "phys (emit_message m d) = phys d" "phys (d\<lparr>mfp := x\<rparr>) = phys d"
    "phys (d\<lparr>stat_crc_fail := c\<rparr>) = phys d" "phys (clear_active d) = phys d"
  by (simp_all add: phys_def emit_message_def clear_active_def)

lemma fold_emit_phys [simp]: "phys (fold emit_message ms d) = phys d"
  by (simp add: emit_fold)

lemma copy_to_mfp_phys: "copy_to_mfp src start n off d = Inr d' \<Longrightarrow> phys d' = phys d"
  by (auto simp: copy_to_mfp_def Let_def split: if_splits option.splits)

lemma multiframe_phys:
  "decode_multiframe_start src pos n d = Inr d' \<Longrightarrow> phys d' = phys d"
  "decode_multiframe_cont src pos n d = Inr (d', full) \<Longrightarrow> phys d' = phys d"
  by (auto simp: decode_multiframe_start_def decode_multiframe_cont_def Let_def
      split: if_splits option.splits sum.splits dest!: copy_to_mfp_phys)

lemma next_or_fault_phys:
  "pred_option (\<lambda>d'. phys d' = c) r \<Longrightarrow> step_state (next_or_fault p r) = Some d' \<Longrightarrow> phys d' = c"
  by (cases r) (simp_all add: next_or_fault_def)

lemma dispatch_phys:
  assumes "step_state (dispatch clk src desc pos n d) = Some d'"
  shows "phys d' = phys d"
proof (cases "decoder_of desc")
  case (Some f)
  then show ?thesis using assms
    by (auto simp: dispatch_def Let_def next_or_fault_def split: option.splits)
next
  case None
  note egc = next_or_fault_phys [OF decode_egc_frame]
  show ?thesis using assms None
    by (auto simp: dispatch_def Let_def split: if_splits sum.splits prod.splits dest: egc multiframe_phys)
qed

lemma packet_step_phys: "step_state (packet_step clk src len pos d) = Some d' \<Longrightarrow> phys d' = phys d"
  by (auto simp: packet_step_def Let_def split: option.splits if_splits dest!: dispatch_phys)

lemma parse_loop_phys: "parse_loop clk depth src len pos d = Inr d' \<Longrightarrow> phys d' = phys d"
proof (induction clk depth src len pos d arbitrary: d' rule: parse_loop.induct)
  case (1 clk depth src len pos d)
  note ps = packet_step_phys [of clk src len pos d]
  show ?case
  proof (cases "pos < len - 2")
    case True
    show ?thesis
    proof (cases "packet_step clk src len pos d")
      case (Fault e)
      with "1.prems" True show ?thesis by (subst (asm) parse_loop.simps) simp
    next
      case (Stop d1)
      with "1.prems" True ps show ?thesis by (subst (asm) parse_loop.simps) simp
    next
      case (Next p d1)
      with "1.prems" True have "parse_loop clk depth src len p d1 = Inr d'" by (subst (asm) parse_loop.simps) simp
      from "1.IH"(1) [OF True Next this] ps Next show ?thesis by simp
    next
      case (Nested p d1)
      with "1.prems" True obtain k d2 where k: "depth = Suc k" "parse_loop clk k Mfp (mf_total_len (mfp d1)) 0 d1 = Inr d2"
        "parse_loop clk depth src len p (clear_active d2) = Inr d'"
        by (subst (asm) parse_loop.simps) (auto split: nat.splits sum.splits)
      from "1.IH"(2) [OF True Nested k(1,2)] "1.IH"(3) [OF True Nested k(1,2,3)] ps Nested show ?thesis by simp
    qed
  next
    case False
    with "1.prems" show ?thesis by (subst (asm) parse_loop.simps) simp
  qed
qed

definition decoder_inv :: "stdc_decoder \<Rightarrow> bool" where
  "decoder_inv d \<longleftrightarrow> dec_wf d \<and> length (shift_reg d) = 10368 \<and> length (deinterleaved d) = 10240 \<and>
     0 \<le> shift_pos d \<and> shift_pos d \<le> 2147483647"

definition hazard_met :: "(nat \<Rightarrow> int) \<Rightarrow> bool" where
  "hazard_met clk \<longleftrightarrow> (\<exists>d c. dec_wf d \<and> parse_visits clk (Decoded, 640, 0, d) c \<and> hazard c)"

lemma process_frame_inv:
  assumes d: "decoder_inv d" and depth: "0 < depth"
  shows "(\<exists>d'. process_frame clk depth neg d = Inr d' \<and> decoder_inv d') \<or> hazard_met clk"
proof -
  define dei where "dei = deinterleave (depermute (if neg then map uminus (shift_reg d) else shift_reg d)) (deinterleaved d)"
  have ldei: "length dei = 2 * 5120" using d by (simp add: dei_def decoder_inv_def)
  obtain m out where v: "viterbi_decode (viterbi_init 5120) dei = (m, out)" by fastforce
  have lo: "length out = 640" using vit.length_decode [OF ldei] by (simp add: frame_decode_def v)
  define buf where "buf = (if neg then map uminus (shift_reg d) else shift_reg d)"
  define ber where "ber = viterbi_ber out 5120 dei"
  define d1 where "d1 = d\<lparr>shift_reg := buf, depermuted := depermute buf, deinterleaved := dei, decoded := out,
    stat_ber_sum := stat_ber_sum d + word_of_int (trunc (round32 (ber * 10000))), stat_ber_count := stat_ber_count d + 1\<rparr>"
  define d2 where "d2 = d1\<lparr>decoded := descramble out, stat_frames := stat_frames d1 + 1, frame_count := frame_count d1 + 1\<rparr>"
  have pf: "process_frame clk depth neg d = (if round32 (3 / 20) < ber then Inr d1 else parse_packets clk depth Decoded 640 d2)"
    unfolding process_frame_def Let_def dei_def [symmetric] v prod.case
    by (simp add: ber_def d1_def d2_def buf_def)
  have i1: "decoder_inv d1" "decoder_inv d2"
    using d lo ldei by (simp_all add: decoder_inv_def d1_def d2_def dec_wf_def buf_def)
  show ?thesis
  proof (cases "round32 (3 / 20) < ber")
    case False
    have "dec_wf d2" using i1 by (simp add: decoder_inv_def)
    then have fine: "parse_fine clk (Decoded, 640, 0, d2) (parse_loop clk depth Decoded 640 0 d2)"
      by (rule parse_loop_safe) (use depth in \<open>simp_all add: src_ok_def\<close>)
    show ?thesis
    proof (cases "hazard_met clk")
      case nh: False
      then obtain d' where d': "parse_loop clk depth Decoded 640 0 d2 = Inr d'" "dec_wf d'"
        using fine \<open>dec_wf d2\<close> by (auto simp: parse_fine_def hazard_met_def)
      from parse_loop_phys [OF d'(1)] d'(2) i1(2) have "decoder_inv d'" by (simp add: decoder_inv_def phys_def)
      with d' False pf show ?thesis by (simp add: parse_packets_def)
    qed simp
  qed (use pf i1 in auto)
qed

lemma feed_bit_inv:
  assumes d: "decoder_inv d" and depth: "0 < depth"
  shows "(\<exists>d'. feed_bit clk depth sb d = Inr d' \<and> decoder_inv d') \<or> feed_bit clk depth sb d = Inl SignedOverflow \<or> hazard_met clk"
proof (cases "shift_in sb d")
  case None
  then show ?thesis by (simp add: feed_bit_def)
next
  case (Some d1)
  then have "d1 = d\<lparr>shift_reg := tl (shift_reg d) @ [sb], shift_pos := shift_pos d + 1\<rparr>" "shift_pos d \<noteq> 2147483647"
    by (auto simp: shift_in_def split: if_splits)
  with d have i1: "decoder_inv d1" by (simp add: decoder_inv_def dec_wf_def)
  then have set_sync: "decoder_inv (d1\<lparr>synced := b, stat_synced := b\<rparr>)" for b by (simp add: decoder_inv_def dec_wf_def)
  have frame: "(\<exists>d'. frame_done (process_frame clk depth neg e) = Inr d' \<and> decoder_inv d') \<or> hazard_met clk"
    if "decoder_inv e" for neg e
  proof (cases "hazard_met clk")
    case False
    with process_frame_inv [OF that depth] obtain d' where "process_frame clk depth neg e = Inr d'" "decoder_inv d'" by blast
    then show ?thesis by (simp add: frame_done_def decoder_inv_def dec_wf_def)
  qed simp
  obtain score neg where cs: "check_sync (shift_reg d1) = (score, neg)" by fastforce
  show ?thesis
    using frame [OF i1] frame [OF set_sync [of True]] i1 set_sync [of False]
    by (simp add: feed_bit_def Some cs) metis
qed

lemma feed_bits_inv:
  assumes "decoder_inv d" and "0 < depth"
  shows "(\<exists>d'. feed_bits clk depth sbs d = Inr d' \<and> decoder_inv d') \<or> feed_bits clk depth sbs d = Inl SignedOverflow \<or>
    hazard_met clk"
  using assms(1)
proof (induction sbs arbitrary: d)
  case (Cons sb sbs)
  from feed_bit_inv [OF Cons.prems assms(2), of clk sb] show ?case
    using Cons.IH by (elim disjE exE conjE) simp_all
qed simp

lemma decoder_inv_create: "decoder_inv stdc_decoder_create"
  using dec_wf_create by (simp add: decoder_inv_def) (simp add: stdc_decoder_create_def)

lemma frame_ready_create: "frame_ready stdc_decoder_create"
  using dec_wf_create by (simp add: frame_ready_def) (simp add: stdc_decoder_create_def)

text \<open>Full-scale soft bits of received symbols.\<close>

definition frame_bits :: "sent_frame \<Rightarrow> rat list" where
  "frame_bits = (\<lambda>(neg, ps, idle, rx). map (\<lambda>y. if (y \<noteq> 0) \<noteq> neg then 1 else - 1) rx)"

lemma quantize_frame_bits: "map quantize (frame_bits f) = frame_syms f"
proof -
  have "quantize (if (y \<noteq> 0) \<noteq> neg then 1 else - 1) = (if neg then - soft_sym y else soft_sym y)" for y neg
    by (cases neg; cases "y = 0") (simp_all add: quantize_full_scale soft_sym_def)
  then show ?thesis
    by (cases f) (simp add: frame_bits_def frame_syms_def line_syms_def comp_def)
qed

lemma mismatches_update: "mismatches (xs[k := v]) xs n \<le> 1"
proof -
  have "mismatches (xs[k := v]) xs n = (\<Sum>i < n. of_bool ((xs[k := v] ! i \<noteq> 0) \<noteq> (xs ! i \<noteq> 0)))"
    by (simp add: mismatches_sum)
  also have "\<dots> \<le> (\<Sum>i < n. of_bool (i = k))"
  proof (rule sum_mono)
    fix i show "of_bool ((xs[k := v] ! i \<noteq> 0) \<noteq> (xs ! i \<noteq> 0)) \<le> (of_bool (i = k) :: nat)"
      by (cases "i = k") simp_all
  qed
  also have "\<dots> \<le> 1" by (simp add: of_bool_def)
  finally show ?thesis .
qed

section \<open>Properties\<close>

text \<open>
  C1: from the demodulator to the messages.  For any sequence of frames, each received with at most four wrong
  symbols anywhere (sync word included) and in either polarity, \<open>stdc_decoder_feed\<close> handles exactly the packets
  of the frames, in order: the reassembly slots, the clock and the emitted messages are those of handling the
  packets alone, and the decoder is ready for the next frame.
\<close>

theorem frames_delivered:
  assumes "\<forall>f \<in> set fs. good_frame f" and "frame_ready d"
  shows "\<exists>d' e. stdc_decoder_feed clk depth (concat (map frame_bits fs)) d = Inr d' \<and>
    handle_packets clk (concat (map frame_packets fs)) d = Some e \<and> app d' = app e \<and> frame_ready d'"
  using feed_frames [OF assms, of clk depth]
  by (auto simp: stdc_decoder_feed_def map_concat comp_def quantize_frame_bits)

theorem frames_delivered_witness:
  "\<exists>d' e. stdc_decoder_feed (\<lambda>_. 0) 0 (concat (map frame_bits
      (let ps = [seal [0x27, 1, 2, 3, 0x44, 5], seal [0x08, 0x44, 7, 0x2F, 0x12, 0, 0]]; idle = replicate 623 0
       in [(True, ps, idle, (tx_frame (concat ps @ idle))[17 := 1])]))) stdc_decoder_create = Inr d' \<and>
    handle_packets (\<lambda>_. 0) [seal [0x27, 1, 2, 3, 0x44, 5], seal [0x08, 0x44, 7, 0x2F, 0x12, 0, 0]] stdc_decoder_create = Some e \<and>
    app d' = app e \<and> frame_ready d'"
proof -
  let ?ps = "[seal [0x27, 1, 2, 3, 0x44, 5], seal [0x08, 0x44, 7, 0x2F, 0x12, 0, 0]]" and ?idle = "replicate 623 0 :: u8 list"
  let ?f = "(True, ?ps, ?idle, (tx_frame (concat ?ps @ ?idle))[17 := 1])"
  have "plain_packet (seal [0x27, 1, 2, 3, 0x44, 5])" "plain_packet (seal [0x08, 0x44, 7, 0x2F, 0x12, 0, 0])"
    by (rule plain_packet_seal; code_simp)+
  moreover have "received b ((tx_frame b)[17 := 1])" for b
    using mismatches_update [of "tx_frame b" 17 1 10368] by (simp add: received_def tx_frame_def length_frame_layout)
  moreover have "length (concat ?ps) = 17" by code_simp
  ultimately have "good_frame ?f" by simp
  then show ?thesis
    using frames_delivered [of "[?f]" stdc_decoder_create "\<lambda>_. 0" 0] frame_ready_create
    by (simp add: Let_def frame_packets_def)
qed



text \<open>
  C18: the position counter of an unsynchronised decoder is never reset.  Zero soft bits (no signal) never look like
  the sync word, and after \<open>2 ^ 31\<close> of them the increment of \<open>shift_pos\<close> overflows.
\<close>

theorem idle_line_overflows:
  assumes "2147483647 < n"
  shows "stdc_decoder_feed clk depth (replicate n 0) stdc_decoder_create = Inl SignedOverflow"
proof -
  have "quantize 0 = 0" by (simp add: quantize_def trunc_def Let_def)
  moreover have "\<not> synced stdc_decoder_create" "shift_reg stdc_decoder_create = replicate 10368 0"
    "shift_pos stdc_decoder_create = 0"
    by (simp_all only: stdc_decoder_create_def stdc_decoder.simps not_False_eq_True)
  ultimately show ?thesis
    using feed_zeros_overflow [of stdc_decoder_create n clk depth] assms by (simp add: stdc_decoder_feed_def)
qed

theorem idle_line_overflows_witness:
  "stdc_decoder_feed (\<lambda>_. 0) 1 (replicate 2147483648 0) stdc_decoder_create = Inl SignedOverflow"
  by (rule idle_line_overflows) (simp only: numeral_less_iff less_num_simps)

text \<open>
  A soft bit, whatever its value, is stored between -127 and 127: never as -128, whose negation for an inverted
  signal would not fit the byte.
\<close>

theorem quantize_bounds: "- 127 \<le> sint (quantize x) \<and> sint (quantize x) \<le> 127"
  by (rule quantize_range)

text \<open>
  C19: the receiver's row permutation and deinterleaver invert the layout of a sent frame.
\<close>

theorem interleaver_roundtrip:
  assumes "length code = 10240" and "length out = 10240"
  shows "deinterleave (depermute (map soft_sym (frame_layout code))) out = map soft_sym code"
  using receive_code_part [of "map soft_sym (frame_layout code)" out] assms
    code_part_map [of "frame_layout code" soft_sym] code_part_layout [OF assms(1)]
  by (simp add: length_frame_layout)

theorem interleaver_roundtrip_witness:
  "deinterleave (depermute (map soft_sym (frame_layout (replicate 10240 1)))) (replicate 10240 0) =
    map soft_sym (replicate 10240 1)"
  by (rule interleaver_roundtrip) (rule length_replicate)+

text \<open>The descrambler is its own inverse, so the sender scrambles with the same routine.\<close>

theorem descramble_self_inverse:
  assumes "length pkt = 640"
  shows "descramble (descramble pkt) = pkt"
  by (rule descramble_involution [OF assms])

theorem descramble_self_inverse_witness: "descramble (descramble (replicate 640 0xA5)) = replicate 640 0xA5"
  by (rule descramble_self_inverse) (rule length_replicate)

end
