(* ===== verification/StdcChainFacts.thy ===== *)
theory StdcChainFacts
  imports SdrPlanFacts StdcChain BpskDemodFacts StdcFrameFacts
begin

text \<open>
  From the samples of the radio to the STD-C decoder: the channelizer, the demodulator and the decoder in a row.
\<close>

section \<open>From the soft bits to the decoder\<close>

lemma stdc_bits_cb_concat: "stdc_bits_cb clk depth es dec = stdc_decoder_feed clk depth (concat es) dec"
  by (induction es arbitrary: dec) (simp_all add: stdc_decoder_feed_def feed_bits_append split: sum.split)

definition stdc_heard :: "output_event list \<Rightarrow> cf list" where
  "stdc_heard evs = concat (map (\<lambda>(i, t, ys). if t = CHAN_STDC_EGC then ys else []) evs)"

definition fed :: "(nat \<Rightarrow> int) \<Rightarrow> nat \<Rightarrow> rat list \<Rightarrow> bpsk_demod \<Rightarrow> stdc_decoder \<Rightarrow> feed_fault + receiver" where
  "fed clk depth bits d dec = (case stdc_decoder_feed clk depth bits dec of Inl e \<Rightarrow> Inl e | Inr dec1 \<Rightarrow> Inr (d, dec1))"

lemma feed_append:
  "stdc_decoder_feed clk depth (xs @ ys) dec = (case stdc_decoder_feed clk depth xs dec of Inl e \<Rightarrow> Inl e | Inr dec1 \<Rightarrow> stdc_decoder_feed clk depth ys dec1)"
  by (simp add: stdc_decoder_feed_def feed_bits_append split: sum.split)

text \<open>Whatever the calls of the callback, the decoder gets the soft bits of the samples in order.\<close>

lemma receive_kept:
  assumes "demod_ok d" and "length (soft_bits d) < 256"
  shows "\<exists>d1 es. bits_kept m d (stdc_heard evs) (d1, es) \<and> length (soft_bits d1) < 256 \<and>
    receive m clk depth evs (d, dec) = Some (fed clk depth (concat es) d1 dec)"
  using assms
proof (induction evs arbitrary: d dec)
  case Nil
  have "stdc_decoder_feed clk depth [] dec = Inr dec" by (simp add: stdc_decoder_feed_def)
  then show ?case using Nil bits_kept_Nil [of d m] by (intro exI [of _ d] exI [of _ "[]"]) (simp add: stdc_heard_def fed_def)
next
  case (Cons ev evs)
  obtain i t ys where ev: "ev = (i, t, ys)" by (cases ev)
  show ?case
  proof (cases "t = CHAN_STDC_EGC")
    case True
    from process_kept [OF Cons.prems(1), of m ys] obtain d1 es
      where p: "bpsk_demod_process m ys d = Some (d1, es)" "bits_kept m d ys (d1, es)" "length (soft_bits d1) < 256" by auto
    then have ok: "demod_ok d1" by (simp add: bits_kept_def)
    let ?dec1 = "stdc_decoder_feed clk depth (concat es) dec"
    from Cons.IH [OF ok p(3), of "case ?dec1 of Inl e \<Rightarrow> dec | Inr dec1 \<Rightarrow> dec1"] obtain d2 fs
      where q: "bits_kept m d1 (stdc_heard evs) (d2, fs)" "length (soft_bits d2) < 256"
        "receive m clk depth evs (d1, case ?dec1 of Inl e \<Rightarrow> dec | Inr dec1 \<Rightarrow> dec1) =
          Some (fed clk depth (concat fs) d2 (case ?dec1 of Inl e \<Rightarrow> dec | Inr dec1 \<Rightarrow> dec1))" by blast
    have "receive m clk depth (ev # evs) (d, dec) = Some (fed clk depth (concat (es @ fs)) d2 dec)"
      using q(3) by (cases ?dec1) (simp_all add: ev True channel_output_cb_def p(1) stdc_bits_cb_concat feed_append fed_def)
    moreover have "bits_kept m d (stdc_heard (ev # evs)) (d2, es @ fs)"
      using bits_kept_append [OF Cons.prems(1) p(2) q(1)] by (simp add: ev True stdc_heard_def)
    ultimately show ?thesis using q(2) by blast
  next
    case False
    then show ?thesis using Cons.IH [OF Cons.prems, of dec] by (simp add: ev channel_output_cb_def stdc_heard_def)
  qed
qed

section \<open>Which channels there are\<close>

lemma tags_add: "tags (snd (channelizer_add_channel m ch f t k)) \<in> {tags ch, tags ch @ [(k, t)]}"
  by (simp add: tags_def channelizer_add_channel_def find_or_create_band_def new_channel_def Let_def split_beta split: option.split)

lemma tags_adds: "set (tags (add_satellite_channels m s cds ch)) \<subseteq> set (tags ch) \<union> {(channel_id cd, ch_type cd) | cd. cd \<in> set cds \<and> wanted s cd}"
proof (induction cds arbitrary: ch)
  case (Cons cd cds)
  let ?ch = "if in_reach s cd \<and> wanted s cd then snd (channelizer_add_channel m ch (frequency cd) (ch_type cd) (channel_id cd)) else ch"
  have "set (tags ?ch) \<subseteq> set (tags ch) \<union> (if wanted s cd then {(channel_id cd, ch_type cd)} else {})"
    using tags_add [of m ch "frequency cd" "ch_type cd" "channel_id cd"] by auto
  moreover have "add_satellite_channels m s (cd # cds) ch = add_satellite_channels m s cds ?ch" by (simp add: add_satellite_channels_def)
  ultimately show ?case using Cons.IH [of ?ch] by (fastforce split: if_splits)
qed (simp add: add_satellite_channels_def)

lemma tags_frame: "same_frame ch ch1 \<Longrightarrow> tags ch1 = tags ch"
proof -
  assume "same_frame ch ch1"
  then have "map (\<lambda>f. (fst (snd (snd (snd (snd f)))), snd (snd (snd (snd (snd f)))))) (map chan_frame (chans ch1)) =
      map (\<lambda>f. (fst (snd (snd (snd (snd f)))), snd (snd (snd (snd (snd f)))))) (map chan_frame (chans ch))" by (simp add: same_frame_def)
  then show "tags ch1 = tags ch" by (simp add: tags_def comp_def chan_frame_def)
qed

lemma setup_frame: "same_frame (add_satellite_channels m s (channels sat) (channelizer_create (center s) (rate s))) (setup_channelizer m r s sat)"
  using same_frame_trans [OF frame_finalize frame_adjust] frame_finalize by (auto simp: setup_channelizer_def Let_def)

lemma tags_setup: "set (tags (setup_channelizer m r s sat)) \<subseteq> {(channel_id cd, ch_type cd) | cd. cd \<in> set (channels sat) \<and> wanted s cd}"
  using tags_frame [OF setup_frame, of m r s sat] tags_adds [of m s "channels sat" "channelizer_create (center s) (rate s)"]
  by (simp add: channelizer_create_def tags_def)

lemma stdc_channel_numbers: "sat \<in> set satellites \<Longrightarrow> cd \<in> set (channels sat) \<Longrightarrow> ch_type cd = CHAN_STDC_EGC \<Longrightarrow> channel_id cd = 0"
proof -
  have "list_all (\<lambda>sat. list_all (\<lambda>cd. ch_type cd = CHAN_STDC_EGC \<longrightarrow> channel_id cd = 0) (channels sat)) satellites" by code_simp
  then show "sat \<in> set satellites \<Longrightarrow> cd \<in> set (channels sat) \<Longrightarrow> ch_type cd = CHAN_STDC_EGC \<Longrightarrow> channel_id cd = 0"
    by (simp add: list_all_iff)
qed

lemma stdc_tags:
  assumes "sat \<in> set satellites" and "mode s = MODE_STDC" and "(i, t) \<in> set (tags (setup_channelizer m r s sat))"
  shows "i = 0 \<and> t = CHAN_STDC_EGC"
  using assms tags_setup [of m r s sat] stdc_channel_numbers [OF assms(1)] by (auto simp: wanted_def)

lemma stdc_heard_all: "event_tags es \<subseteq> {(0, CHAN_STDC_EGC)} \<Longrightarrow> stdc_heard es = heard 0 es"
  by (induction es) (auto simp: stdc_heard_def heard_def event_tags_def)

section \<open>The set-up of the reception\<close>

lemma start_stdc_Some:
  assumes "sat \<in> set satellites" and "start_stdc m s sat ch = Some (d0, dec0)" and "0 < channelizer_output_rate ch 0"
  shows "d0 = bpsk_demod_create m (channelizer_output_rate ch 0) 1200"
proof -
  from assms(2) obtain cd where f: "List.find (\<lambda>cd. ch_type cd = CHAN_STDC_EGC \<and> mode s \<noteq> MODE_AERO) (channels sat) = Some cd"
    by (auto simp: start_stdc_def split: option.splits)
  then have "cd \<in> set (channels sat)" "ch_type cd = CHAN_STDC_EGC" by (auto simp: find_Some_iff in_set_conv_nth)
  then have "channel_id cd = 0" by (rule stdc_channel_numbers [OF assms(1)])
  then show ?thesis using assms(2,3) f by (simp add: start_stdc_def Let_def)
qed

text \<open>For the satellite 4F3 alone on its STD-C channel the rate of the demodulator is 19200 samples per second.\<close>

lemma at_4f3_channels:
  "filter (\<lambda>cd. in_reach (at_4f3 MODE_STDC) cd \<and> wanted (at_4f3 MODE_STDC) cd) (channels (satellites ! 0)) = [channels (satellites ! 0) ! 0]"
  by code_simp

lemma at_4f3_adds:
  "add_satellite_channels m (at_4f3 MODE_STDC) (channels (satellites ! 0)) ch =
    snd (channelizer_add_channel m ch (frequency (channels (satellites ! 0) ! 0)) CHAN_STDC_EGC 0)"
proof -
  let ?s = "at_4f3 MODE_STDC" and ?f = "\<lambda>ch cd. snd (channelizer_add_channel m ch (frequency cd) (ch_type cd) (channel_id cd))"
  have "foldl (\<lambda>ch cd. if P cd then f ch cd else ch) ch cds = foldl f ch (filter P cds)" for P f cds and ch :: channelizer
    by (induction cds arbitrary: ch) simp_all
  then have "add_satellite_channels m ?s (channels (satellites ! 0)) ch =
      foldl ?f ch (filter (\<lambda>cd. in_reach ?s cd \<and> wanted ?s cd) (channels (satellites ! 0)))" by (simp add: add_satellite_channels_def)
  moreover have "ch_type (channels (satellites ! 0) ! 0) = CHAN_STDC_EGC" "channel_id (channels (satellites ! 0) ! 0) = 0" by code_simp+
  ultimately show ?thesis by (simp add: at_4f3_channels)
qed

lemma at_4f3_decim: "stage1_decim 2400000 CHAN_STDC_EGC = (5, 25)"
proof -
  have t: "trunc (ddiv 2400000 19200) = 125" "trunc (ddiv 2400000 400000) = 6" by code_simp+
  have "largest_factor_leq 125 6 = 5" by (simp add: plan_eval)
  then show ?thesis by (simp only: stage1_decim_def Let_def target_output_rate.simps target_intermediate_rate.simps t) simp
qed

lemma at_4f3_rate: "channelizer_output_rate (setup_channelizer m r (at_4f3 MODE_STDC) (satellites ! 0)) 0 = 19200"
proof -
  let ?s = "at_4f3 MODE_STDC"
  define ch0 where "ch0 = add_satellite_channels m ?s (channels (satellites ! 0)) (channelizer_create (center ?s) (rate ?s))"
  have "samp_rate (channelizer_create (center ?s) (rate ?s)) = 2400000" by (simp add: channelizer_create_def at_4f3_def)
  then obtain f bd where ch0: "bands ch0 = [bd]" "chans ch0 = [new_channel m 0 CHAN_STDC_EGC 0 bd f 25]" "intermediate_rate bd = ddiv 2400000 5"
    by (auto simp: ch0_def at_4f3_adds channelizer_add_channel_def at_4f3_decim find_or_create_band_def channelizer_create_def
        MAX_CHANNELS_def MAX_BANDS_def join_band_def init_band_def Let_def)
  define ch where "ch = setup_channelizer m r ?s (satellites ! 0)"
  have f: "same_frame ch0 ch" unfolding ch_def ch0_def by (rule setup_frame)
  then have "length (bands ch) = 1" "length (chans ch) = 1" unfolding same_frame_def by (metis ch0 length_Cons length_map list.size(3) One_nat_def)+
  then obtain bd1 cs1 where c: "bands ch = [bd1]" "chans ch = [cs1]" by (auto simp: length_Suc_conv)
  have "plan_decimation 25 16 MAX_STAGES = [5, 5]" by (simp add: plan_eval)
  then have i: "chan_id cs1 = 0" "band_idx cs1 = 0" "map decimation (chan_stages cs1) = [5, 5]" "intermediate_rate bd1 = ddiv 2400000 5"
    using f by (auto simp: same_frame_def c ch0 chan_frame_def band_frame_def new_channel_def new_stage_def Let_def)
  have "decimated_rate (ddiv 2400000 5) [5, 5] = 19200" by code_simp
  then show ?thesis by (simp add: ch_def [symmetric] channelizer_output_rate_def c i)
qed

section \<open>Properties\<close>

text \<open>
  C2: the reception of STD-C from the samples of the radio to the decoder, in the mode for STD-C alone.  For every
  satellite, radio and rate, and for buffers of any number and size: the decoder is fed with the soft bits that the
  demodulator produces on the output of the channel's own chain of filters, in order and without loss, except for fewer
  than 32 samples and 256 soft bits that wait in the two buffers.  How the samples come in buffers and the soft bits
  in lists has no influence, and the demodulator always returns.
\<close>

theorem stdc_reception:
  assumes "sat \<in> set satellites" and "mode s = MODE_STDC" and "1 \<le> rate s" and "rate s \<le> 20000000"
    and "ch = setup_channelizer mc r s sat" and "0 < length (chans ch)"
    and "3600 \<le> channelizer_output_rate ch 0" and "channelizer_output_rate ch 0 \<le> 20000000"
    and "list_all buf_ok bufs" and "consume_all mc ch bufs = (ch1, es)" and "start_stdc m s sat ch = Some (d0, dec0)"
  shows "\<exists>d1 xs bits. xs @ out_buf (chans ch1 ! 0) = channel_stream mc ch 0 (concat (map buf_samples bufs)) \<and>
    length (out_buf (chans ch1 ! 0)) < 32 \<and> bits @ soft_bits d1 = snd (run (demod_core m) d0 xs) \<and> length (soft_bits d1) < 256 \<and>
    receive m clk depth es (d0, dec0) =
      Some (case stdc_decoder_feed clk depth bits dec0 of Inl e \<Rightarrow> Inl e | Inr dec1 \<Rightarrow> Inr (d1, dec1))"
proof -
  note b = setup_ok [OF assms(1,3,4), of mc r, folded assms(5)]
  have d: "delivers mc ch (concat (map buf_samples bufs)) (ch1, es)"
    using consume_all_delivers [OF built_ok [OF b(1)] b(2) assms(9), of mc] by (simp add: assms(10))
  have tag: "i = 0 \<and> t = CHAN_STDC_EGC" if "(i, t) \<in> set (tags ch)" for i t
    using stdc_tags [OF assms(1,2)] that unfolding assms(5) by blast
  then have "event_tags es \<subseteq> {(0, CHAN_STDC_EGC)}" using d by (fastforce simp: delivers_def)
  then have h: "stdc_heard es = heard 0 es" by (rule stdc_heard_all)
  have "(chan_id (chans ch ! 0), chan_type (chans ch ! 0)) \<in> set (tags ch)" using assms(6) by (simp add: tags_def)
  from tag [OF this] have id0: "chan_id (chans ch ! 0) = 0" by simp
  from d assms(6) built_fresh [OF b(1) assms(6)]
  have x: "heard 0 es @ out_buf (chans ch1 ! 0) = channel_stream mc ch 0 (concat (map buf_samples bufs))" "length (out_buf (chans ch1 ! 0)) < 32"
    by (auto simp: delivers_def id0 chz_ok_def channel_ok_def)
  have "d0 = bpsk_demod_create m (channelizer_output_rate ch 0) 1200"
    using assms(7) by (intro start_stdc_Some [OF assms(1,11)]) simp
  then have ok: "demod_ok d0" "soft_bits d0 = []" using bpsk_demod_create_ok [OF assms(7,8)]
    by (simp_all add: bpsk_demod_create_def Let_def split_beta)
  from receive_kept [OF ok(1), of m es clk depth dec0] ok(2) obtain d1 fs
    where r: "bits_kept m d0 (heard 0 es) (d1, fs)" "length (soft_bits d1) < 256" "receive m clk depth es (d0, dec0) = Some (fed clk depth (concat fs) d1 dec0)"
    by (auto simp: h)
  then have "concat fs @ soft_bits d1 = snd (run (demod_core m) d0 (heard 0 es))" by (simp add: bits_kept_def ok(2))
  with x r(2,3) show ?thesis unfolding fed_def by blast
qed

theorem stdc_reception_witness:
  "\<forall>mc m clk depth xs. \<exists>d0 dec0. start_stdc m (at_4f3 MODE_STDC) (satellites ! 0) (setup_channelizer mc no_radio (at_4f3 MODE_STDC) (satellites ! 0)) = Some (d0, dec0) \<and>
    receive m clk depth (snd (consume_all mc (setup_channelizer mc no_radio (at_4f3 MODE_STDC) (satellites ! 0)) [SAMPLE_FMT_FLOAT xs])) (d0, dec0) \<noteq> None"
proof (intro allI)
  fix mc m clk depth xs
  let ?s = "at_4f3 MODE_STDC"
  let ?ch = "setup_channelizer mc no_radio ?s (satellites ! 0)"
  have r: "mode ?s = MODE_STDC" "1 \<le> rate ?s" "rate ?s \<le> 20000000" by (simp_all add: at_4f3_def)
  have "in_reach ?s (channels (satellites ! 0) ! 0)" "wanted ?s (channels (satellites ! 0) ! 0)" by code_simp+
  then have c: "0 < length (chans ?ch)" by (intro setup_channelizer_first) (simp_all add: satellites_def channels_4f3_def)
  obtain d0 dec0 where d0: "start_stdc m ?s (satellites ! 0) ?ch = Some (d0, dec0)"
    by (auto simp: start_stdc_def satellites_def channels_4f3_def channel_def Let_def r)
  obtain ch1 es where e: "consume_all mc ?ch [SAMPLE_FMT_FLOAT xs] = (ch1, es)" by fastforce
  have "receive m clk depth es (d0, dec0) \<noteq> None"
    using stdc_reception [OF in_satellites [of 0] r refl c _ _ _ e d0, of clk depth] by (auto simp: at_4f3_rate)
  then show "\<exists>d0 dec0. start_stdc m ?s (satellites ! 0) ?ch = Some (d0, dec0) \<and> receive m clk depth (snd (consume_all mc ?ch [SAMPLE_FMT_FLOAT xs])) (d0, dec0) \<noteq> None"
    using d0 e by auto
qed

end
