(* ===== verification/Spec2Isabelle.thy ===== *)
theory Spec2Isabelle
  imports AcarsPosition Vita49 AircraftDb ChanRing StdcChainFacts
begin

text \<open>
  A verification library for inmarsat-sniffer.
\<close>

end
